theory Spec2Isabelle
  imports Main "HOL-Library.Word" "HOL-Library.Monad_Syntax"
begin

unbundle bit_operations_syntax

section \<open>The headerless pool allocator of lib/allocators/headerless.cpp\<close>

text \<open>
  The embedding fixes the ILP32 data model the source was written for: \<open>size_t\<close>,
  \<open>uintptr_t\<close>, \<open>uint\<close>, \<open>u32\<close> and every pointer are 32 bits wide (the bitmap of
  size classes is a \<open>u32\<close> with one bit per class, sizes are cast to \<open>uint\<close> and the
  poison value of a size is \<open>~0u\<close>).

  Memory is a map from byte addresses to the 32-bit word stored there; a pointer is a
  32-bit word and is dereferenced at its unsigned value. A \<open>FreedBlock\<close> record has five
  word-sized members, so it occupies 20 bytes: \<open>m_magic\<close> at offset 0, \<open>prev\<close> at 4,
  \<open>next\<close> at 8, \<open>m_size\<close> at 12 and \<open>m_id\<close> at 16.

  Every operation that can stop at a \<open>debug_assert\<close> returns an option: \<open>None\<close> says
  that the call does not return normally (an assertion fails, a list walk never reaches
  the sentinel, or the source's behaviour is undefined: a division by zero, an index
  outside \<open>m_rangeLists\<close>, a shift by the full word width).
\<close>

type_synonym u32 = "32 word"
type_synonym size_t = "32 word"
type_synonym uintptr_t = "32 word"
type_synonym addr = "32 word"
type_synonym memory = "nat \<Rightarrow> 32 word"

definition minAlignment :: size_t where
  "minAlignment = 16"

definition sizeof_FreedBlock :: size_t where
  "sizeof_FreedBlock = 20"

definition s_magic :: uintptr_t where
  "s_magic = 0xFF55AA00"

definition s_headerId :: u32 where
  "s_headerId = 0x111E8E6F"

definition s_footerId :: u32 where
  "s_footerId = 0x4D745342"

definition debug_assert :: "bool \<Rightarrow> unit option" where
  "debug_assert c = (if c then Some () else None)"

subsection \<open>FreedBlock\<close>

definition m_magic :: "memory \<Rightarrow> addr \<Rightarrow> uintptr_t" where
  "m_magic mem b = mem (unat b)"

definition prev :: "memory \<Rightarrow> addr \<Rightarrow> addr" where
  "prev mem b = mem (unat b + 4)"

definition next' :: "memory \<Rightarrow> addr \<Rightarrow> addr" where
  "next' mem b = mem (unat b + 8)"

definition Size :: "memory \<Rightarrow> addr \<Rightarrow> size_t" where
  "Size mem b = mem (unat b + 12)"

definition m_id :: "memory \<Rightarrow> addr \<Rightarrow> u32" where
  "m_id mem b = mem (unat b + 16)"

definition set_prev :: "memory \<Rightarrow> addr \<Rightarrow> addr \<Rightarrow> memory" where
  "set_prev mem b v = mem(unat b + 4 := v)"

definition set_next :: "memory \<Rightarrow> addr \<Rightarrow> addr \<Rightarrow> memory" where
  "set_next mem b v = mem(unat b + 8 := v)"

text \<open>The constructor \<open>FreedBlock(id, size)\<close>, placed at \<open>b\<close>: it initialises the magic,
  the size and the id, and leaves the link fields as they are.\<close>

definition FreedBlock_new :: "memory \<Rightarrow> addr \<Rightarrow> u32 \<Rightarrow> size_t \<Rightarrow> memory" where
  "FreedBlock_new mem b ident sz =
     mem(unat b := s_magic, unat b + 12 := sz, unat b + 16 := ident)"

text \<open>The destructor: \<open>prev = next = 0; m_id = 0; m_size = ~0u; m_magic = 0\<close>.\<close>

definition FreedBlock_delete :: "memory \<Rightarrow> addr \<Rightarrow> memory" where
  "FreedBlock_delete mem b =
     mem(unat b + 8 := 0, unat b + 4 := 0, unat b + 16 := 0, unat b + 12 := NOT 0, unat b := 0)"

definition IsValidSize :: "size_t \<Rightarrow> bool" where
  "IsValidSize sz =
     (if sz < sizeof_FreedBlock then False
      else if sz mod minAlignment \<noteq> 0 then False
      else True)"

definition IsFreedBlock :: "memory \<Rightarrow> addr \<Rightarrow> u32 \<Rightarrow> bool" where
  "IsFreedBlock mem b ident =
     (if m_id mem b \<noteq> ident then False
      else if m_magic mem b \<noteq> s_magic then False
      else True)"

definition FreedBlock_Validate :: "memory \<Rightarrow> addr \<Rightarrow> u32 \<Rightarrow> unit option" where
  "FreedBlock_Validate mem b ident = do {
     debug_assert (IsValidSize (Size mem b));
     debug_assert (IsFreedBlock mem b ident)
   }"

subsection \<open>RangeList\<close>

text \<open>\<open>AddressOrder::ShouldInsertBefore\<close>: a comparison of the two pointers.\<close>

definition ShouldInsertBefore :: "addr \<Rightarrow> addr \<Rightarrow> bool" where
  "ShouldInsertBefore current successor = (current < successor)"

text \<open>A range list owns its counters; \<open>sentinel\<close> is the address \<open>&m_sentinel\<close> of the
  sentinel record embedded in it, whose link fields live in memory like those of every
  other \<open>FreedBlock\<close> (the blocks of the list point to it).\<close>

record RangeList =
  sentinel :: addr
  m_freeBlocks :: size_t
  m_freeBytes :: size_t

definition RangeList_Reset :: "RangeList \<Rightarrow> memory \<Rightarrow> RangeList \<times> memory" where
  "RangeList_Reset rl mem =
     (let mem1 = set_prev mem (sentinel rl) (sentinel rl);
          mem2 = set_next mem1 (sentinel rl) (sentinel rl)
      in (rl\<lparr>m_freeBlocks := 0, m_freeBytes := 0\<rparr>, mem2))"

text \<open>The search loop of \<open>Insert\<close>: the first successor before which the block goes, or
  the sentinel.\<close>

partial_function (option) Insert_successor :: "memory \<Rightarrow> addr \<Rightarrow> addr \<Rightarrow> addr \<Rightarrow> addr option" where
  "Insert_successor mem sent freedBlock successor =
     (if successor = sent then Some successor
      else if ShouldInsertBefore freedBlock successor then Some successor
      else Insert_successor mem sent freedBlock (next' mem successor))"

declare Insert_successor.simps [code]

definition RangeList_Insert :: "RangeList \<Rightarrow> memory \<Rightarrow> addr \<Rightarrow> (RangeList \<times> memory) option" where
  "RangeList_Insert rl mem freedBlock = do {
     successor \<leftarrow> Insert_successor mem (sentinel rl) freedBlock (next' mem (sentinel rl));
     let mem1 = set_prev mem freedBlock (prev mem successor);
     let mem2 = set_next mem1 freedBlock successor;
     let mem3 = set_next mem2 (prev mem2 successor) freedBlock;
     let mem4 = set_prev mem3 successor freedBlock;
     Some (rl\<lparr>m_freeBlocks := m_freeBlocks rl + 1,
              m_freeBytes := m_freeBytes rl + Size mem4 freedBlock\<rparr>, mem4)
   }"

text \<open>The loop of \<open>Find\<close>: \<open>Some b\<close> when it returns the block \<open>b\<close> from inside the loop,
  \<open>None\<close> when it reaches the sentinel.\<close>

partial_function (option) Find_walk :: "memory \<Rightarrow> addr \<Rightarrow> size_t \<Rightarrow> addr \<Rightarrow> addr option option" where
  "Find_walk mem sent minSize freedBlock =
     (if freedBlock = sent then Some None
      else if Size mem freedBlock \<ge> minSize then Some (Some freedBlock)
      else Find_walk mem sent minSize (next' mem freedBlock))"

declare Find_walk.simps [code]

text \<open>\<open>Find\<close> returns the block found, or the null pointer after the assertion on the
  average block size; the quotient has no value when the list counts no block.\<close>

definition RangeList_Find :: "RangeList \<Rightarrow> memory \<Rightarrow> size_t \<Rightarrow> addr option" where
  "RangeList_Find rl mem minSize = do {
     r \<leftarrow> Find_walk mem (sentinel rl) minSize (next' mem (sentinel rl));
     case r of
       Some freedBlock \<Rightarrow> Some freedBlock
     | None \<Rightarrow> do {
         debug_assert (m_freeBlocks rl \<noteq> 0);
         debug_assert (m_freeBytes rl div m_freeBlocks rl < minSize);
         Some 0
       }
   }"

definition RangeList_Remove :: "RangeList \<Rightarrow> memory \<Rightarrow> addr \<Rightarrow> (RangeList \<times> memory) option" where
  "RangeList_Remove rl mem freedBlock = do {
     let mem1 = set_prev mem (next' mem freedBlock) (prev mem freedBlock);
     let mem2 = set_next mem1 (prev mem1 freedBlock) (next' mem1 freedBlock);
     debug_assert (m_freeBlocks rl \<noteq> 0);
     debug_assert (m_freeBytes rl \<ge> Size mem2 freedBlock);
     Some (rl\<lparr>m_freeBlocks := m_freeBlocks rl - 1,
              m_freeBytes := m_freeBytes rl - Size mem2 freedBlock\<rparr>, mem2)
   }"

definition IsEmpty :: "RangeList \<Rightarrow> bool" where
  "IsEmpty rl = (m_freeBlocks rl = 0)"

text \<open>The two loops of \<open>Validate\<close>, forwards along \<open>next\<close> and backwards along \<open>prev\<close>,
  with the running pair \<open>(freeBlocks, freeBytes)\<close>.\<close>

partial_function (option) Validate_forward ::
  "memory \<Rightarrow> addr \<Rightarrow> u32 \<Rightarrow> addr \<Rightarrow> size_t \<times> size_t \<Rightarrow> (size_t \<times> size_t) option" where
  "Validate_forward mem sent ident freedBlock acc =
     (if freedBlock = sent then Some acc
      else do {
        FreedBlock_Validate mem freedBlock ident;
        Validate_forward mem sent ident (next' mem freedBlock)
          (fst acc + 1, snd acc + Size mem freedBlock)
      })"

declare Validate_forward.simps [code]

partial_function (option) Validate_backward ::
  "memory \<Rightarrow> addr \<Rightarrow> u32 \<Rightarrow> addr \<Rightarrow> size_t \<times> size_t \<Rightarrow> (size_t \<times> size_t) option" where
  "Validate_backward mem sent ident freedBlock acc =
     (if freedBlock = sent then Some acc
      else do {
        FreedBlock_Validate mem freedBlock ident;
        Validate_backward mem sent ident (prev mem freedBlock)
          (fst acc + 1, snd acc + Size mem freedBlock)
      })"

declare Validate_backward.simps [code]

definition RangeList_Validate :: "RangeList \<Rightarrow> memory \<Rightarrow> u32 \<Rightarrow> unit option" where
  "RangeList_Validate rl mem ident = do {
     acc1 \<leftarrow> Validate_forward mem (sentinel rl) ident (next' mem (sentinel rl)) (0, 0);
     acc2 \<leftarrow> Validate_backward mem (sentinel rl) ident (prev mem (sentinel rl)) acc1;
     debug_assert (fst acc2 = m_freeBlocks rl * 2 \<and> snd acc2 = m_freeBytes rl * 2);
     debug_assert (\<not> IsEmpty rl \<or>
        (next' mem (sentinel rl) = sentinel rl \<and> prev mem (sentinel rl) = sentinel rl))
   }"

subsection \<open>SegregatedRangeLists\<close>

text \<open>Modelled from the spec: \<open>ceil_log2\<close> of lib/bits.h is not among the sources. The
  spec gives \<open>SizeClass(n) = ceil_log2(n)\<close>, where class \<open>i > 0\<close> covers the sizes in
  \<open>(2^(i-1), 2^i]\<close>: the least \<open>l\<close> with \<open>x \<le> 2^l\<close>, found by counting up from 0 (a
  32-bit value needs at most 32 steps).\<close>

fun ceil_log2_from :: "nat \<Rightarrow> nat \<Rightarrow> nat \<Rightarrow> nat" where
  "ceil_log2_from 0 l x = l"
| "ceil_log2_from (Suc k) l x = (if 2 ^ l < x then ceil_log2_from k (Suc l) x else l)"

definition ceil_log2 :: "u32 \<Rightarrow> nat" where
  "ceil_log2 x = ceil_log2_from 32 0 (unat x)"

text \<open>Modelled from the spec: the macro \<open>BIT\<close> of lib/bits.h is not among the sources;
  \<open>BIT(n)\<close> is the number whose only set bit is bit \<open>n\<close>.\<close>

definition BIT :: "nat \<Rightarrow> nat" where
  "BIT n = 2 ^ n"

definition SizeClass :: "size_t \<Rightarrow> nat" where
  "SizeClass sz = ceil_log2 (ucast sz)"

definition ValueOfLeastSignificantOneBit :: "uintptr_t \<Rightarrow> uintptr_t" where
  "ValueOfLeastSignificantOneBit x = x AND (- x)"

definition numRangeLists :: nat where
  "numRangeLists = 32"

record SegregatedRangeLists =
  m_rangeLists :: "RangeList list"
  m_bitmap :: u32

fun Reset_lists :: "RangeList list \<Rightarrow> memory \<Rightarrow> RangeList list \<times> memory" where
  "Reset_lists [] mem = ([], mem)"
| "Reset_lists (rl # rls) mem =
     (let (rl', mem1) = RangeList_Reset rl mem;
          (rls', mem2) = Reset_lists rls mem1
      in (rl' # rls', mem2))"

definition SegregatedRangeLists_Reset ::
  "SegregatedRangeLists \<Rightarrow> memory \<Rightarrow> SegregatedRangeLists \<times> memory" where
  "SegregatedRangeLists_Reset srl mem =
     (let (rls, mem1) = Reset_lists (m_rangeLists srl) mem
      in (srl\<lparr>m_rangeLists := rls, m_bitmap := 0\<rparr>, mem1))"

definition SegregatedRangeLists_Insert ::
  "SegregatedRangeLists \<Rightarrow> memory \<Rightarrow> addr \<Rightarrow> (SegregatedRangeLists \<times> memory) option" where
  "SegregatedRangeLists_Insert srl mem freedBlock = do {
     let sizeClass = SizeClass (Size mem freedBlock);
     debug_assert (sizeClass < length (m_rangeLists srl));
     (rl, mem1) \<leftarrow> RangeList_Insert (m_rangeLists srl ! sizeClass) mem freedBlock;
     Some (srl\<lparr>m_rangeLists := (m_rangeLists srl)[sizeClass := rl],
               m_bitmap := m_bitmap srl OR word_of_nat (BIT sizeClass)\<rparr>, mem1)
   }"

text \<open>The loop of \<open>Find\<close> over the bits of \<open>sizeClassBits\<close>: \<open>Some b\<close> when a list
  yields the block \<open>b\<close>, \<open>None\<close> when the bits are used up.\<close>

function Find_classes ::
  "RangeList list \<Rightarrow> memory \<Rightarrow> size_t \<Rightarrow> u32 \<Rightarrow> addr option option" where
  "Find_classes rls mem minSize sizeClassBits =
     (if sizeClassBits = 0 then Some None
      else
        (case debug_assert (SizeClass (ValueOfLeastSignificantOneBit sizeClassBits) < length rls) of
           None \<Rightarrow> None
         | Some _ \<Rightarrow>
            (case RangeList_Find
                    (rls ! SizeClass (ValueOfLeastSignificantOneBit sizeClassBits)) mem minSize of
               None \<Rightarrow> None
             | Some freedBlock \<Rightarrow>
                 if freedBlock \<noteq> 0 then Some (Some freedBlock)
                 else Find_classes rls mem minSize
                        (sizeClassBits AND NOT (ValueOfLeastSignificantOneBit sizeClassBits)))))"
  by pat_completeness auto
termination
proof (relation "measure (\<lambda>(rls, mem, minSize, sizeClassBits). unat sizeClassBits)", goal_cases)
  case 1
  show ?case by simp
next
  case (2 rls mem minSize x)
  then have x: "x \<noteq> 0" by simp
  have lsb: "x AND - x \<noteq> 0"
  proof
    assume z: "x AND - x = 0"
    have "x = (x AND (x - 1)) OR (x AND NOT (x - 1))"
      by (simp flip: bit.conj_disj_distrib)
    also have "x AND NOT (x - 1) = 0"
      using z by (simp add: minus_eq_not_minus_1)
    finally have "x = x AND (x - 1)" by simp
    then have "x \<le> x - 1"
      by (metis word_and_le1)
    moreover have "x - 1 < x"
      using x by (simp add: word_less_nat_alt unat_minus_one unat_gt_0)
    ultimately show False by simp
  qed
  have le: "x AND NOT (x AND - x) \<le> x"
    by (rule word_and_le2)
  have "x AND NOT (x AND - x) \<noteq> x"
  proof
    assume e: "x AND NOT (x AND - x) = x"
    have "x AND (x AND - x) = (x AND NOT (x AND - x)) AND (x AND - x)" by (simp only: e)
    also have "\<dots> = x AND (NOT (x AND - x) AND (x AND - x))" by (simp only: and.assoc)
    also have "\<dots> = 0" by (simp only: bit.conj_cancel_left, simp)
    finally have "x AND - x = 0" by (simp only: and.assoc [symmetric] and.idem)
    then show False using lsb by simp
  qed
  with le have "x AND NOT (x AND - x) < x" by simp
  then show ?case
    by (simp only: ValueOfLeastSignificantOneBit_def word_less_nat_alt in_measure prod.case)
qed

declare Find_classes.simps [simp del]

definition SegregatedRangeLists_Find ::
  "SegregatedRangeLists \<Rightarrow> memory \<Rightarrow> size_t \<Rightarrow> addr option" where
  "SegregatedRangeLists_Find srl mem minSize = do {
     let minSizeClass = SizeClass minSize;
     debug_assert (minSizeClass < 32);
     let sizeClassBits = m_bitmap srl AND push_bit minSizeClass (NOT 0);
     r \<leftarrow> Find_classes (m_rangeLists srl) mem minSize sizeClassBits;
     case r of
       Some freedBlock \<Rightarrow> Some freedBlock
     | None \<Rightarrow> do {
         debug_assert (unat (m_bitmap srl) < BIT (minSizeClass + 1));
         Some 0
       }
   }"

definition SegregatedRangeLists_Remove ::
  "SegregatedRangeLists \<Rightarrow> memory \<Rightarrow> addr \<Rightarrow> (SegregatedRangeLists \<times> memory) option" where
  "SegregatedRangeLists_Remove srl mem freedBlock = do {
     let sizeClass = SizeClass (Size mem freedBlock);
     debug_assert (sizeClass < length (m_rangeLists srl));
     (rl, mem1) \<leftarrow> RangeList_Remove (m_rangeLists srl ! sizeClass) mem freedBlock;
     let bitmap = (if IsEmpty rl then m_bitmap srl AND NOT (word_of_nat (BIT sizeClass))
                   else m_bitmap srl);
     Some (srl\<lparr>m_rangeLists := (m_rangeLists srl)[sizeClass := rl], m_bitmap := bitmap\<rparr>, mem1)
   }"

fun Validate_lists :: "RangeList list \<Rightarrow> u32 \<Rightarrow> memory \<Rightarrow> u32 \<Rightarrow> nat \<Rightarrow> unit option" where
  "Validate_lists [] bitmap mem ident i = Some ()"
| "Validate_lists (rl # rls) bitmap mem ident i = do {
     RangeList_Validate rl mem ident;
     debug_assert (((bitmap AND word_of_nat (BIT i)) = 0) = IsEmpty rl);
     Validate_lists rls bitmap mem ident (Suc i)
   }"

definition SegregatedRangeLists_Validate :: "SegregatedRangeLists \<Rightarrow> memory \<Rightarrow> u32 \<Rightarrow> unit option" where
  "SegregatedRangeLists_Validate srl mem ident =
     Validate_lists (m_rangeLists srl) (m_bitmap srl) mem ident 0"

definition SegregatedRangeLists_FreeBlocks :: "SegregatedRangeLists \<Rightarrow> size_t" where
  "SegregatedRangeLists_FreeBlocks srl = fold (\<lambda>rl freeBlocks. freeBlocks + m_freeBlocks rl) (m_rangeLists srl) 0"

definition SegregatedRangeLists_FreeBytes :: "SegregatedRangeLists \<Rightarrow> size_t" where
  "SegregatedRangeLists_FreeBytes srl = fold (\<lambda>rl freeBytes. freeBytes + m_freeBytes rl) (m_rangeLists srl) 0"

subsection \<open>BoundaryTagManager\<close>

record BoundaryTagManager =
  tag_freeBlocks :: size_t
  tag_freeBytes :: size_t

definition BoundaryTagManager_new :: BoundaryTagManager where
  "BoundaryTagManager_new = \<lparr>tag_freeBlocks = 0, tag_freeBytes = 0\<rparr>"

definition Footer :: "memory \<Rightarrow> addr \<Rightarrow> addr" where
  "Footer mem freedBlock = freedBlock + Size mem freedBlock - sizeof_FreedBlock"

definition BoundaryTagManager_Validate :: "BoundaryTagManager \<Rightarrow> memory \<Rightarrow> addr \<Rightarrow> unit option" where
  "BoundaryTagManager_Validate btm mem freedBlock = do {
     debug_assert (tag_freeBlocks btm \<noteq> 0);
     debug_assert (tag_freeBytes btm \<ge> Size mem freedBlock);
     FreedBlock_Validate mem freedBlock s_headerId;
     FreedBlock_Validate mem (Footer mem freedBlock) s_footerId
   }"

definition WriteTags ::
  "BoundaryTagManager \<Rightarrow> memory \<Rightarrow> addr \<Rightarrow> size_t \<Rightarrow> (addr \<times> BoundaryTagManager \<times> memory) option" where
  "WriteTags btm mem p sz = do {
     let freedBlock = p;
     let mem1 = FreedBlock_new mem freedBlock s_headerId sz;
     let mem2 = FreedBlock_new mem1 (Footer mem1 freedBlock) s_footerId sz;
     let btm' = btm\<lparr>tag_freeBlocks := tag_freeBlocks btm + 1,
                    tag_freeBytes := tag_freeBytes btm + sz\<rparr>;
     BoundaryTagManager_Validate btm' mem2 freedBlock;
     Some (freedBlock, btm', mem2)
   }"

definition RemoveTags ::
  "BoundaryTagManager \<Rightarrow> memory \<Rightarrow> addr \<Rightarrow> (BoundaryTagManager \<times> memory) option" where
  "RemoveTags btm mem freedBlock = do {
     BoundaryTagManager_Validate btm mem freedBlock;
     debug_assert (tag_freeBlocks btm \<noteq> 0);
     debug_assert (tag_freeBytes btm \<ge> Size mem freedBlock);
     let btm' = btm\<lparr>tag_freeBlocks := tag_freeBlocks btm - 1,
                    tag_freeBytes := tag_freeBytes btm - Size mem freedBlock\<rparr>;
     let footer = Footer mem freedBlock;
     let mem1 = FreedBlock_delete mem freedBlock;
     let mem2 = FreedBlock_delete mem1 footer;
     Some (btm', mem2)
   }"

text \<open>Both probes return the null pointer 0 for "none".\<close>

definition PrecedingBlock :: "BoundaryTagManager \<Rightarrow> memory \<Rightarrow> addr \<Rightarrow> addr \<Rightarrow> addr option" where
  "PrecedingBlock btm mem p beginningOfPool =
     (if p = beginningOfPool then Some 0
      else
        let footer = p - sizeof_FreedBlock in
        if \<not> IsFreedBlock mem footer s_footerId then Some 0
        else do {
          FreedBlock_Validate mem footer s_footerId;
          let precedingBlock = p - Size mem footer;
          BoundaryTagManager_Validate btm mem precedingBlock;
          Some precedingBlock
        })"

definition FollowingBlock ::
  "BoundaryTagManager \<Rightarrow> memory \<Rightarrow> addr \<Rightarrow> size_t \<Rightarrow> addr \<Rightarrow> addr option" where
  "FollowingBlock btm mem p sz endOfPool =
     (if p + sz = endOfPool then Some 0
      else
        let followingBlock = p + sz in
        if \<not> IsFreedBlock mem followingBlock s_headerId then Some 0
        else do {
          BoundaryTagManager_Validate btm mem followingBlock;
          Some followingBlock
        })"

subsection \<open>Stats\<close>

record Stats =
  m_totalAllocatedBlocks :: size_t
  m_totalAllocatedBytes :: size_t
  m_totalDeallocatedBlocks :: size_t
  m_totalDeallocatedBytes :: size_t
  m_currentExtantBlocks :: size_t
  m_currentExtantBytes :: size_t
  m_currentFreeBlocks :: size_t
  m_currentFreeBytes :: size_t

text \<open>\<open>OnReset\<close> assigns zero to every one of the eight counters.\<close>

definition OnReset :: "Stats \<Rightarrow> Stats" where
  "OnReset st = \<lparr>m_totalAllocatedBlocks = 0, m_totalAllocatedBytes = 0,
     m_totalDeallocatedBlocks = 0, m_totalDeallocatedBytes = 0,
     m_currentExtantBlocks = 0, m_currentExtantBytes = 0,
     m_currentFreeBlocks = 0, m_currentFreeBytes = 0\<rparr>"

definition OnAllocate :: "Stats \<Rightarrow> size_t \<Rightarrow> Stats" where
  "OnAllocate st sz = st\<lparr>
     m_totalAllocatedBlocks := m_totalAllocatedBlocks st + 1,
     m_totalAllocatedBytes := m_totalAllocatedBytes st + sz,
     m_currentExtantBlocks := m_currentExtantBlocks st + 1,
     m_currentExtantBytes := m_currentExtantBytes st + sz\<rparr>"

definition OnDeallocate :: "Stats \<Rightarrow> size_t \<Rightarrow> Stats option" where
  "OnDeallocate st sz = do {
     let st1 = st\<lparr>m_totalDeallocatedBlocks := m_totalDeallocatedBlocks st + 1,
                  m_totalDeallocatedBytes := m_totalDeallocatedBytes st + sz\<rparr>;
     debug_assert (m_totalDeallocatedBlocks st1 \<le> m_totalAllocatedBlocks st1);
     debug_assert (m_totalDeallocatedBytes st1 \<le> m_totalDeallocatedBytes st1);
     debug_assert (m_currentExtantBlocks st1 \<noteq> 0);
     debug_assert (m_currentExtantBytes st1 \<ge> sz);
     Some (st1\<lparr>m_currentExtantBlocks := m_currentExtantBlocks st1 - 1,
               m_currentExtantBytes := m_currentExtantBytes st1 - sz\<rparr>)
   }"

definition OnAddToFreelist :: "Stats \<Rightarrow> size_t \<Rightarrow> Stats" where
  "OnAddToFreelist st sz = st\<lparr>
     m_currentFreeBlocks := m_currentFreeBlocks st + 1,
     m_currentFreeBytes := m_currentFreeBytes st + sz\<rparr>"

definition OnRemoveFromFreelist :: "Stats \<Rightarrow> size_t \<Rightarrow> Stats option" where
  "OnRemoveFromFreelist st sz = do {
     debug_assert (m_currentFreeBlocks st \<noteq> 0);
     debug_assert (m_currentFreeBytes st \<ge> sz);
     Some (st\<lparr>m_currentFreeBlocks := m_currentFreeBlocks st - 1,
              m_currentFreeBytes := m_currentFreeBytes st - sz\<rparr>)
   }"

definition Stats_Validate :: "Stats \<Rightarrow> unit option" where
  "Stats_Validate st = do {
     debug_assert (m_totalDeallocatedBlocks st \<le> m_totalAllocatedBlocks st);
     debug_assert (m_totalDeallocatedBytes st \<le> m_totalAllocatedBytes st);
     debug_assert (m_currentExtantBlocks st = m_totalAllocatedBlocks st - m_totalDeallocatedBlocks st);
     debug_assert (m_currentExtantBytes st = m_totalAllocatedBytes st - m_totalDeallocatedBytes st)
   }"

subsection \<open>The pool\<close>

text \<open>Modelled from the spec: lib/allocators/pool.cpp is not among the sources. The pool
  is the contiguous range from \<open>base\<close> with the bump pointer \<open>pos\<close>; \<open>pool_alloc\<close>
  bump-allocates from its end or returns the null pointer and leaves the pool as it is,
  \<open>pool_free_all\<close> resets the bump pointer, \<open>pool_contains\<close> tests an address against
  the committed range.\<close>

record Pool =
  base :: addr
  pos :: size_t
  max_size :: size_t

definition pool_create :: "addr \<Rightarrow> size_t \<Rightarrow> Pool" where
  "pool_create b poolSize = \<lparr>base = b, pos = 0, max_size = poolSize\<rparr>"

definition pool_alloc :: "Pool \<Rightarrow> size_t \<Rightarrow> addr \<times> Pool" where
  "pool_alloc pool sz =
     (if unat (pos pool) + unat sz \<le> unat (max_size pool)
      then (base pool + pos pool, pool\<lparr>pos := pos pool + sz\<rparr>)
      else (0, pool))"

definition pool_free_all :: "Pool \<Rightarrow> Pool" where
  "pool_free_all pool = pool\<lparr>pos := 0\<rparr>"

definition pool_contains :: "Pool \<Rightarrow> addr \<Rightarrow> bool" where
  "pool_contains pool p = (unat (base pool) \<le> unat p \<and> unat p < unat (base pool) + unat (pos pool))"

subsection \<open>HeaderlessAllocator::Impl\<close>

text \<open>The members of \<open>Impl\<close>, and the memory they point into.\<close>

record Impl =
  m_pool :: Pool
  m_segregatedRangeLists :: SegregatedRangeLists
  m_boundaryTagManager :: BoundaryTagManager
  m_stats :: Stats
  heap :: memory

definition AssertEqual :: "size_t \<Rightarrow> size_t \<Rightarrow> size_t \<Rightarrow> unit option" where
  "AssertEqual x1 x2 x3 = debug_assert (x1 = x2 \<and> x2 = x3)"

definition Validate :: "Impl \<Rightarrow> unit option" where
  "Validate st = do {
     SegregatedRangeLists_Validate (m_segregatedRangeLists st) (heap st) s_headerId;
     Stats_Validate (m_stats st);
     AssertEqual (m_currentFreeBlocks (m_stats st))
       (SegregatedRangeLists_FreeBlocks (m_segregatedRangeLists st))
       (tag_freeBlocks (m_boundaryTagManager st));
     AssertEqual (m_currentFreeBytes (m_stats st))
       (SegregatedRangeLists_FreeBytes (m_segregatedRangeLists st))
       (tag_freeBytes (m_boundaryTagManager st))
   }"

definition Reset :: "Impl \<Rightarrow> Impl option" where
  "Reset st = do {
     let pool = pool_free_all (m_pool st);
     let (srl, mem1) = SegregatedRangeLists_Reset (m_segregatedRangeLists st) (heap st);
     let st' = st\<lparr>m_pool := pool, m_segregatedRangeLists := srl,
                  m_stats := OnReset (m_stats st), heap := mem1\<rparr>;
     Validate st';
     Some st'
   }"

definition AddToFreelist :: "Impl \<Rightarrow> addr \<Rightarrow> size_t \<Rightarrow> Impl option" where
  "AddToFreelist st p sz = do {
     (freedBlock, btm, mem1) \<leftarrow> WriteTags (m_boundaryTagManager st) (heap st) p sz;
     (srl, mem2) \<leftarrow> SegregatedRangeLists_Insert (m_segregatedRangeLists st) mem1 freedBlock;
     Some (st\<lparr>m_segregatedRangeLists := srl, m_boundaryTagManager := btm,
              m_stats := OnAddToFreelist (m_stats st) sz, heap := mem2\<rparr>)
   }"

definition RemoveFromFreelist :: "Impl \<Rightarrow> addr \<Rightarrow> Impl option" where
  "RemoveFromFreelist st freedBlock = do {
     stats \<leftarrow> OnRemoveFromFreelist (m_stats st) (Size (heap st) freedBlock);
     (srl, mem1) \<leftarrow> SegregatedRangeLists_Remove (m_segregatedRangeLists st) (heap st) freedBlock;
     (btm, mem2) \<leftarrow> RemoveTags (m_boundaryTagManager st) mem1 freedBlock;
     Some (st\<lparr>m_segregatedRangeLists := srl, m_boundaryTagManager := btm,
              m_stats := stats, heap := mem2\<rparr>)
   }"

text \<open>The first block of \<open>Coalesce\<close>: the probe for a preceding free block and the merge
  with it, returning the updated \<open>p\<close> and \<open>size\<close>.\<close>

definition Coalesce_preceding :: "Impl \<Rightarrow> addr \<Rightarrow> size_t \<Rightarrow> (addr \<times> size_t \<times> Impl) option" where
  "Coalesce_preceding st p sz = do {
     precedingBlock \<leftarrow> PrecedingBlock (m_boundaryTagManager st) (heap st) p (base (m_pool st));
     if precedingBlock \<noteq> 0 then do {
       let p' = p - Size (heap st) precedingBlock;
       let sz' = sz + Size (heap st) precedingBlock;
       st' \<leftarrow> RemoveFromFreelist st precedingBlock;
       Some (p', sz', st')
     } else Some (p, sz, st)
   }"

text \<open>The second block of \<open>Coalesce\<close>: the probe for a following free block and the
  merge with it.\<close>

definition Coalesce_following :: "Impl \<Rightarrow> addr \<Rightarrow> size_t \<Rightarrow> (addr \<times> size_t \<times> Impl) option" where
  "Coalesce_following st p sz = do {
     followingBlock \<leftarrow> FollowingBlock (m_boundaryTagManager st) (heap st) p sz
        (base (m_pool st) + pos (m_pool st));
     if followingBlock \<noteq> 0 then do {
       let sz' = sz + Size (heap st) followingBlock;
       st' \<leftarrow> RemoveFromFreelist st followingBlock;
       Some (p, sz', st')
     } else Some (p, sz, st)
   }"

definition Coalesce :: "Impl \<Rightarrow> addr \<Rightarrow> size_t \<Rightarrow> (addr \<times> size_t \<times> Impl) option" where
  "Coalesce st p sz = do {
     (p1, sz1, st1) \<leftarrow> Coalesce_preceding st p sz;
     Coalesce_following st1 p1 sz1
   }"

definition TakeAndSplitFreeBlock :: "Impl \<Rightarrow> size_t \<Rightarrow> (addr \<times> Impl) option" where
  "TakeAndSplitFreeBlock st sz = do {
     freedBlock \<leftarrow> SegregatedRangeLists_Find (m_segregatedRangeLists st) (heap st) sz;
     if freedBlock = 0 then Some (0, st)
     else do {
       let p = freedBlock;
       let leftoverSize = Size (heap st) freedBlock - sz;
       st1 \<leftarrow> RemoveFromFreelist st freedBlock;
       st2 \<leftarrow> (if IsValidSize leftoverSize then AddToFreelist st1 (p + sz) leftoverSize
              else Some st1);
       Some (p, st2)
     }
   }"

definition Allocate :: "Impl \<Rightarrow> size_t \<Rightarrow> (addr \<times> Impl) option" where
  "Allocate st sz = do {
     debug_assert (IsValidSize sz);
     Validate st;
     (p, st1) \<leftarrow> TakeAndSplitFreeBlock st sz;
     (p, st2) \<leftarrow> (if p = 0 then
                    let (p', pool) = pool_alloc (m_pool st1) sz
                    in Some (p', st1\<lparr>m_pool := pool\<rparr>)
                  else Some (p, st1));
     if p = 0 then Some (0, st2)
     else do {
       let st3 = st2\<lparr>m_stats := OnAllocate (m_stats st2) sz\<rparr>;
       Validate st3;
       Some (p, st3)
     }
   }"

definition Deallocate :: "Impl \<Rightarrow> addr \<Rightarrow> size_t \<Rightarrow> Impl option" where
  "Deallocate st p sz = do {
     debug_assert (p mod minAlignment = 0);
     debug_assert (IsValidSize sz);
     debug_assert (pool_contains (m_pool st) p);
     debug_assert (pool_contains (m_pool st) (p + sz - 1));
     Validate st;
     stats \<leftarrow> OnDeallocate (m_stats st) sz;
     (p1, sz1, st1) \<leftarrow> Coalesce (st\<lparr>m_stats := stats\<rparr>) p sz;
     st2 \<leftarrow> AddToFreelist st1 p1 sz1;
     Validate st2;
     Some st2
   }"

text \<open>The constructor: \<open>pool_create\<close>, the constructors of the members, then
  \<open>Reset()\<close>. \<open>b\<close> is the address of the pool's storage, \<open>arr\<close> the address of the
  array \<open>m_rangeLists\<close> inside the object (an element takes 28 bytes: the sentinel and the
  two counters), \<open>mem\<close> the memory before the call; the statistics are not initialised
  before \<open>Reset()\<close> sets them, \<open>stats\<close> is what they hold then.\<close>

definition RangeList_new :: "addr \<Rightarrow> memory \<Rightarrow> RangeList \<times> memory" where
  "RangeList_new a mem = RangeList_Reset \<lparr>sentinel = a, m_freeBlocks = 0, m_freeBytes = 0\<rparr> mem"

definition SegregatedRangeLists_new :: "addr \<Rightarrow> memory \<Rightarrow> SegregatedRangeLists \<times> memory" where
  "SegregatedRangeLists_new arr mem =
     SegregatedRangeLists_Reset
       \<lparr>m_rangeLists = map (\<lambda>i. \<lparr>sentinel = arr + 28 * word_of_nat i,
                                  m_freeBlocks = 0, m_freeBytes = 0\<rparr>) [0..<numRangeLists],
        m_bitmap = 0\<rparr> mem"

definition Impl_new :: "addr \<Rightarrow> addr \<Rightarrow> Stats \<Rightarrow> memory \<Rightarrow> size_t \<Rightarrow> Impl option" where
  "Impl_new b arr stats mem poolSize =
     (let (srl, mem1) = SegregatedRangeLists_new arr mem
      in Reset \<lparr>m_pool = pool_create b poolSize, m_segregatedRangeLists = srl,
                m_boundaryTagManager = BoundaryTagManager_new, m_stats = stats,
                heap = mem1\<rparr>)"

section \<open>Representation predicates\<close>

text \<open>Two \<open>FreedBlock\<close> records at \<open>x\<close> and \<open>a\<close> coincide or do not overlap.\<close>

definition nov :: "addr \<Rightarrow> addr \<Rightarrow> bool" where
  "nov x a = (x = a \<or> unat x + 20 \<le> unat a \<or> unat a + 20 \<le> unat x)"

definition novs :: "addr set \<Rightarrow> bool" where
  "novs N = (\<forall>x\<in>N. \<forall>y\<in>N. nov x y)"

text \<open>Consecutive records of the list are linked in both directions.\<close>

fun chain :: "memory \<Rightarrow> addr list \<Rightarrow> bool" where
  "chain mem (x # y # ys) = (next' mem x = y \<and> prev mem y = x \<and> chain mem (y # ys))"
| "chain mem [x] = True"
| "chain mem [] = True"

text \<open>The circular list with sentinel \<open>s\<close> holds the blocks \<open>xs\<close>, in this order from
  \<open>s.next\<close> on.\<close>

definition dlist :: "memory \<Rightarrow> addr \<Rightarrow> addr list \<Rightarrow> bool" where
  "dlist mem s xs = (chain mem (s # xs @ [s]) \<and> distinct (s # xs))"

text \<open>Following \<open>next\<close> (or \<open>prev\<close>) from \<open>a\<close> visits \<open>ys\<close> and then reaches \<open>s\<close>.\<close>

fun npath :: "memory \<Rightarrow> addr \<Rightarrow> addr list \<Rightarrow> addr \<Rightarrow> bool" where
  "npath mem a [] s = (a = s)"
| "npath mem a (y # ys) s = (a = y \<and> y \<noteq> s \<and> npath mem (next' mem y) ys s)"

fun ppath :: "memory \<Rightarrow> addr \<Rightarrow> addr list \<Rightarrow> addr \<Rightarrow> bool" where
  "ppath mem a [] s = (a = s)"
| "ppath mem a (y # ys) s = (a = y \<and> y \<noteq> s \<and> ppath mem (prev mem y) ys s)"

text \<open>Where \<open>Insert\<close> with the policy \<open>AddressOrder\<close> puts a block: before the first
  block of the list with a greater address.\<close>

definition ins :: "addr \<Rightarrow> addr list \<Rightarrow> addr list" where
  "ins b xs = takeWhile (\<lambda>x. \<not> b < x) xs @ b # dropWhile (\<lambda>x. \<not> b < x) xs"

text \<open>The memory after \<open>Insert\<close> has linked \<open>b\<close> between \<open>pred\<close> and \<open>succ\<close>, and after
  \<open>Remove\<close> has unlinked the block between \<open>pred\<close> and \<open>succ\<close>.\<close>

definition link_in :: "memory \<Rightarrow> addr \<Rightarrow> addr \<Rightarrow> addr \<Rightarrow> memory" where
  "link_in mem pred b succ =
     set_prev (set_next (set_next (set_prev mem b pred) b succ) pred b) succ b"

definition link_out :: "memory \<Rightarrow> addr \<Rightarrow> addr \<Rightarrow> memory" where
  "link_out mem pred succ = set_next (set_prev mem succ pred) pred succ"

text \<open>The abstract view of a range list: its blocks in list order, each with its size.
  The counters hold the number of blocks and the sum of their sizes, without
  wrap-around.\<close>

definition rl_ok :: "memory \<Rightarrow> RangeList \<Rightarrow> (addr \<times> size_t) list \<Rightarrow> bool" where
  "rl_ok mem rl xs =
     (dlist mem (sentinel rl) (map fst xs) \<and>
      (\<forall>x\<in>set xs. Size mem (fst x) = snd x) \<and>
      unat (m_freeBlocks rl) = length xs \<and>
      unat (m_freeBytes rl) = sum_list (map (\<lambda>x. unat (snd x)) xs))"

text \<open>The first block of at least \<open>m\<close> bytes, looking through the classes \<open>js\<close> in this
  order and through each class in list order.\<close>

fun fit_in :: "(nat \<Rightarrow> (addr \<times> size_t) list) \<Rightarrow> size_t \<Rightarrow> nat list \<Rightarrow> addr option" where
  "fit_in F m [] = None"
| "fit_in F m (j # js) =
     (case find (\<lambda>x. m \<le> snd x) (F j) of
        Some x \<Rightarrow> Some (fst x)
      | None \<Rightarrow> fit_in F m js)"

text \<open>The abstract view of the segregated lists: \<open>F i\<close> lists the blocks of class \<open>i\<close>.
  Every block sits in the list of its size class, no block is at the null address, and
  a bit of the bitmap is set exactly when its list holds a block.\<close>

definition srl_ok :: "memory \<Rightarrow> SegregatedRangeLists \<Rightarrow> (nat \<Rightarrow> (addr \<times> size_t) list) \<Rightarrow> bool" where
  "srl_ok mem srl F =
     (length (m_rangeLists srl) = 32 \<and>
      (\<forall>i<32. rl_ok mem (m_rangeLists srl ! i) (F i) \<and>
         (\<forall>x\<in>set (F i). fst x \<noteq> 0 \<and> SizeClass (snd x) = i) \<and>
         bit (m_bitmap srl) i = (F i \<noteq> [])))"

subsection \<open>The invariant of the allocator\<close>

text \<open>A tracked free block \<open>(p, n)\<close> lies in the committed part of the pool, has room for
  a header and a footer record that do not overlap, and its address and its size are
  multiples of the alignment.\<close>

definition blk_ok :: "Pool \<Rightarrow> addr \<times> size_t \<Rightarrow> bool" where
  "blk_ok pool x =
     (unat (base pool) \<le> unat (fst x) \<and>
      unat (fst x) + unat (snd x) \<le> unat (base pool) + unat (pos pool) \<and>
      40 \<le> unat (snd x) \<and> unat (snd x) mod 16 = 0 \<and> unat (fst x) mod 16 = 0)"

definition disjoint_blk :: "addr \<times> size_t \<Rightarrow> addr \<times> size_t \<Rightarrow> bool" where
  "disjoint_blk x y =
     (unat (fst x) + unat (snd x) \<le> unat (fst y) \<or> unat (fst y) + unat (snd y) \<le> unat (fst x))"

text \<open>The block carries a valid header at its start and a valid footer at its end.\<close>

definition tagged :: "memory \<Rightarrow> addr \<times> size_t \<Rightarrow> bool" where
  "tagged mem x =
     (IsFreedBlock mem (fst x) s_headerId \<and> Size mem (fst x) = snd x \<and>
      IsFreedBlock mem (fst x + snd x - sizeof_FreedBlock) s_footerId \<and>
      Size mem (fst x + snd x - sizeof_FreedBlock) = snd x)"

text \<open>The number of tracked blocks and of tracked bytes.\<close>

definition cnt :: "(nat \<Rightarrow> (addr \<times> size_t) list) \<Rightarrow> nat" where
  "cnt F = (\<Sum>i<32. length (F i))"

definition byt :: "(nat \<Rightarrow> (addr \<times> size_t) list) \<Rightarrow> nat" where
  "byt F = (\<Sum>i<32. sum_list (map (\<lambda>x. unat (snd x)) (F i)))"

text \<open>The pool lies inside the address space, away from the null address, is small
  enough for every size in it to have a size class below 32, and its start and its
  bump pointer are multiples of the alignment.\<close>

definition pool_ok :: "Pool \<Rightarrow> bool" where
  "pool_ok pool =
     (0 < unat (base pool) \<and> unat (base pool) + unat (max_size pool) < 2 ^ 32 \<and>
      unat (pos pool) \<le> unat (max_size pool) \<and> unat (max_size pool) \<le> 2 ^ 31 \<and>
      unat (base pool) mod 16 = 0 \<and> unat (pos pool) mod 16 = 0)"

text \<open>The sentinels lie outside the pool and do not overlap each other.\<close>

definition sent_ok :: "Pool \<Rightarrow> RangeList list \<Rightarrow> bool" where
  "sent_ok pool rls =
     ((\<forall>i<32. unat (sentinel (rls ! i)) + 20 \<le> unat (base pool) \<or>
               unat (base pool) + unat (max_size pool) \<le> unat (sentinel (rls ! i))) \<and>
      (\<forall>i<32. \<forall>j<32. i \<noteq> j \<longrightarrow>
          unat (sentinel (rls ! i)) + 20 \<le> unat (sentinel (rls ! j)) \<or>
          unat (sentinel (rls ! j)) + 20 \<le> unat (sentinel (rls ! i))))"

text \<open>What \<open>Stats::Validate\<close> asserts.\<close>

definition stats_ok :: "Stats \<Rightarrow> bool" where
  "stats_ok s =
     (m_totalDeallocatedBlocks s \<le> m_totalAllocatedBlocks s \<and>
      m_totalDeallocatedBytes s \<le> m_totalAllocatedBytes s \<and>
      m_currentExtantBlocks s = m_totalAllocatedBlocks s - m_totalDeallocatedBlocks s \<and>
      m_currentExtantBytes s = m_totalAllocatedBytes s - m_totalDeallocatedBytes s)"

text \<open>The invariant: \<open>F i\<close> lists the free blocks of size class \<open>i\<close> in the order of the
  range list, the blocks are tagged and pairwise disjoint, and the three tallies hold
  their number and their bytes.\<close>

definition inv :: "Impl \<Rightarrow> (nat \<Rightarrow> (addr \<times> size_t) list) \<Rightarrow> bool" where
  "inv st F =
     (srl_ok (heap st) (m_segregatedRangeLists st) F \<and>
      pool_ok (m_pool st) \<and>
      sent_ok (m_pool st) (m_rangeLists (m_segregatedRangeLists st)) \<and>
      (\<forall>i<32. \<forall>x\<in>set (F i). blk_ok (m_pool st) x \<and> tagged (heap st) x) \<and>
      (\<forall>i<32. \<forall>j<32. \<forall>x\<in>set (F i). \<forall>y\<in>set (F j). x \<noteq> y \<longrightarrow> disjoint_blk x y) \<and>
      unat (tag_freeBlocks (m_boundaryTagManager st)) = cnt F \<and>
      unat (tag_freeBytes (m_boundaryTagManager st)) = byt F \<and>
      unat (m_currentFreeBlocks (m_stats st)) = cnt F \<and>
      unat (m_currentFreeBytes (m_stats st)) = byt F \<and>
      stats_ok (m_stats st))"

text \<open>The list of a class after \<open>Insert\<close> of the block \<open>x\<close>.\<close>

definition ins_blk :: "addr \<times> size_t \<Rightarrow> (addr \<times> size_t) list \<Rightarrow> (addr \<times> size_t) list" where
  "ins_blk x xs =
     takeWhile (\<lambda>y. \<not> fst x < fst y) xs @ x # dropWhile (\<lambda>y. \<not> fst x < fst y) xs"

text \<open>Two memories agree outside the byte range from \<open>lo\<close> up to \<open>hi\<close>.\<close>

definition same_outside :: "memory \<Rightarrow> memory \<Rightarrow> nat \<Rightarrow> nat \<Rightarrow> bool" where
  "same_outside mem mem' lo hi = (\<forall>a. a < lo \<or> hi \<le> a \<longrightarrow> mem' a = mem a)"

text \<open>A memory holding one tagged free block of 64 bytes at address \<open>0x10000\<close>.\<close>

definition heap_w1 :: memory where
  "heap_w1 = FreedBlock_new (FreedBlock_new (\<lambda>_. 0) 0x10000 s_headerId 64) 0x1002C s_footerId 64"

text \<open>A memory holding a range list with the sentinel at \<open>0x100\<close> and one block of 64
  bytes at \<open>0x10000\<close>.\<close>

definition heap_w8 :: memory where
  "heap_w8 = (\<lambda>_. 0)(0x104 := 0x10000, 0x108 := 0x10000, 0x10004 := 0x100, 0x10008 := 0x100, 0x1000C := 64)"

text \<open>The list records of class \<open>i\<close>: its sentinel and its blocks.\<close>

definition cnodes :: "RangeList list \<Rightarrow> (nat \<Rightarrow> (addr \<times> size_t) list) \<Rightarrow> nat \<Rightarrow> addr set" where
  "cnodes rls F i = insert (sentinel (rls ! i)) (fst ` set (F i))"

text \<open>No two list records overlap, and no record belongs to two classes.\<close>

definition sep :: "RangeList list \<Rightarrow> (nat \<Rightarrow> (addr \<times> size_t) list) \<Rightarrow> bool" where
  "sep rls F =
     (novs (\<Union>i\<in>{..<32}. cnodes rls F i) \<and>
      (\<forall>i<32. \<forall>j<32. i \<noteq> j \<longrightarrow> cnodes rls F i \<inter> cnodes rls F j = {}))"

text \<open>The layout of the tracked blocks and of the sentinels: every block lies in the pool
  and in the list of its size class, the sentinels lie outside the pool, and no two
  blocks overlap.\<close>

definition geo :: "Pool \<Rightarrow> RangeList list \<Rightarrow> (nat \<Rightarrow> (addr \<times> size_t) list) \<Rightarrow> bool" where
  "geo pool rls F =
     (pool_ok pool \<and> sent_ok pool rls \<and>
      (\<forall>i<32. \<forall>x\<in>set (F i). blk_ok pool x \<and> SizeClass (snd x) = i) \<and>
      (\<forall>i<32. \<forall>j<32. \<forall>x\<in>set (F i). \<forall>y\<in>set (F j). x \<noteq> y \<longrightarrow> disjoint_blk x y))"

text \<open>The block \<open>x\<close> overlaps no tracked block.\<close>

definition fresh_blk :: "(nat \<Rightarrow> (addr \<times> size_t) list) \<Rightarrow> addr \<times> size_t \<Rightarrow> bool" where
  "fresh_blk F x = (\<forall>i<32. \<forall>y\<in>set (F i). disjoint_blk x y)"

text \<open>The memory \<open>mem'\<close> differs from \<open>mem\<close> at most inside the block \<open>x\<close> and in the link
  fields of the list records \<open>N\<close>.\<close>

definition frame :: "memory \<Rightarrow> memory \<Rightarrow> addr \<times> size_t \<Rightarrow> addr set \<Rightarrow> bool" where
  "frame mem mem' x N =
     (\<forall>a. mem' a \<noteq> mem a \<longrightarrow>
        (unat (fst x) \<le> a \<and> a < unat (fst x) + unat (snd x)) \<or>
        (\<exists>r\<in>N. a = unat r + 4 \<or> a = unat r + 8))"

text \<open>The block \<open>x\<close> is in the list of one of the classes.\<close>

definition tracked :: "(nat \<Rightarrow> (addr \<times> size_t) list) \<Rightarrow> addr \<times> size_t \<Rightarrow> bool" where
  "tracked F x = (\<exists>i<32. x \<in> set (F i))"

text \<open>What the two probes of \<open>Coalesce\<close> test: \<open>PrecedingBlock\<close> detects a free neighbour
  when \<open>p\<close> is not the start of the pool and the record before \<open>p\<close> carries the footer
  id and the magic; \<open>FollowingBlock\<close> when \<open>p + size\<close> is not the end of the pool and the
  record there carries the header id and the magic.\<close>

definition pre_free :: "Impl \<Rightarrow> addr \<Rightarrow> bool" where
  "pre_free st p =
     (p \<noteq> base (m_pool st) \<and> IsFreedBlock (heap st) (p - sizeof_FreedBlock) s_footerId)"

definition fol_free :: "Impl \<Rightarrow> addr \<Rightarrow> size_t \<Rightarrow> bool" where
  "fol_free st p sz =
     (p + sz \<noteq> base (m_pool st) + pos (m_pool st) \<and> IsFreedBlock (heap st) (p + sz) s_headerId)"

text \<open>The tags the probes detect around the block from \<open>p\<close> to \<open>p + sz\<close> are those of
  tracked free blocks (the memory of the neighbouring allocations holds no forged tag).\<close>

definition probes_sound :: "Impl \<Rightarrow> (nat \<Rightarrow> (addr \<times> size_t) list) \<Rightarrow> addr \<Rightarrow> size_t \<Rightarrow> bool" where
  "probes_sound st F p sz =
     ((pre_free st p \<longrightarrow> (\<exists>y. tracked F y \<and> fst y + snd y = p)) \<and>
      (fol_free st p sz \<longrightarrow> (\<exists>y. tracked F y \<and> fst y = p + sz)))"

text \<open>The counters of the statistics other than the two free tallies.\<close>

definition cum :: "Stats \<Rightarrow> size_t \<times> size_t \<times> size_t \<times> size_t \<times> size_t \<times> size_t" where
  "cum s = (m_totalAllocatedBlocks s, m_totalAllocatedBytes s, m_totalDeallocatedBlocks s,
            m_totalDeallocatedBytes s, m_currentExtantBlocks s, m_currentExtantBytes s)"

subsection \<open>A run of the allocator\<close>

text \<open>The states of a run on a pool of 4096 bytes at \<open>0x10000\<close>, with the array of range
  lists at \<open>0x100\<close> and all memory zero before the constructor: after the constructor,
  after \<open>Allocate(64)\<close>, after \<open>Allocate(128)\<close>, after \<open>Deallocate(0x10000, 64)\<close> and
  after \<open>Deallocate(0x10040, 128)\<close>.\<close>

definition stats_w :: Stats where
  "stats_w = \<lparr>m_totalAllocatedBlocks = 0, m_totalAllocatedBytes = 0,
     m_totalDeallocatedBlocks = 0, m_totalDeallocatedBytes = 0,
     m_currentExtantBlocks = 0, m_currentExtantBytes = 0,
     m_currentFreeBlocks = 0, m_currentFreeBytes = 0\<rparr>"

definition st_a :: Impl where
  "st_a = the (Impl_new 0x10000 0x100 stats_w (\<lambda>_. 0) 4096)"

definition st_b :: Impl where
  "st_b = snd (the (Allocate st_a 64))"

definition st_c :: Impl where
  "st_c = snd (the (Allocate st_b 128))"

definition st_d :: Impl where
  "st_d = the (Deallocate st_c 0x10000 64)"

definition st_e :: Impl where
  "st_e = the (Deallocate st_d 0x10040 128)"

text \<open>The free blocks of the last two states.\<close>

definition F_d :: "nat \<Rightarrow> (addr \<times> size_t) list" where
  "F_d = (\<lambda>_. [])(6 := [(0x10000, 64)])"

definition F_e :: "nat \<Rightarrow> (addr \<times> size_t) list" where
  "F_e = (\<lambda>_. [])(8 := [(0x10000, 192)])"

section \<open>Basic facts about the memory model\<close>

lemma debug_assert_simps:
  "debug_assert True = Some ()" "debug_assert False = None"
  by (simp_all add: debug_assert_def)

lemma nov_refl [simp]: "nov x x"
  by (simp add: nov_def)

lemma nov_sym: "nov x y \<Longrightarrow> nov y x"
  by (auto simp: nov_def)

lemma next_set_next: "next' (set_next mem a v) x = (if x = a then v else next' mem x)"
  by (simp add: next'_def set_next_def flip: word_unat_eq_iff)

lemma prev_set_prev: "prev (set_prev mem a v) x = (if x = a then v else prev mem x)"
  by (simp add: prev_def set_prev_def flip: word_unat_eq_iff)

lemma next_set_prev: "nov x a \<Longrightarrow> next' (set_prev mem a v) x = next' mem x"
  by (auto simp: next'_def set_prev_def nov_def)

lemma prev_set_next: "nov x a \<Longrightarrow> prev (set_next mem a v) x = prev mem x"
  by (auto simp: prev_def set_next_def nov_def)

lemma Size_set_next: "nov x a \<Longrightarrow> Size (set_next mem a v) x = Size mem x"
  by (auto simp: Size_def set_next_def nov_def)

lemma Size_set_prev: "nov x a \<Longrightarrow> Size (set_prev mem a v) x = Size mem x"
  by (auto simp: Size_def set_prev_def nov_def)

lemma chain_append: "chain mem (us @ v # vs) = (chain mem (us @ [v]) \<and> chain mem (v # vs))"
  by (induction mem us rule: chain.induct) auto

lemma chain_set_next:
  "a \<notin> set (butlast ys) \<Longrightarrow> \<forall>y\<in>set ys. nov y a \<Longrightarrow> chain (set_next mem a v) ys = chain mem ys"
  by (induction mem ys rule: chain.induct) (auto simp: next_set_next prev_set_next)

lemma chain_set_prev:
  "a \<notin> set (tl ys) \<Longrightarrow> \<forall>y\<in>set ys. nov y a \<Longrightarrow> chain (set_prev mem a v) ys = chain mem ys"
  by (induction mem ys rule: chain.induct) (auto simp: next_set_prev prev_set_prev)

lemma chain_npath: "chain mem (x # ys @ [s]) \<Longrightarrow> s \<notin> set ys \<Longrightarrow> npath mem (next' mem x) ys s"
  by (induction ys arbitrary: x) auto

lemma chain_ppath: "chain mem (s # ys @ [x]) \<Longrightarrow> s \<notin> set ys \<Longrightarrow> ppath mem (prev mem x) (rev ys) s"
proof (induction ys arbitrary: x rule: rev_induct)
  case Nil
  then show ?case by simp
next
  case (snoc y ys)
  from snoc.prems have c: "chain mem ((s # ys) @ y # [x])" by simp
  then have "chain mem ((s # ys) @ [y])" and "chain mem [y, x]"
    unfolding chain_append [of mem "s # ys" y "[x]"] by auto
  with snoc show ?case by auto
qed

lemma Insert_successor_npath:
  "npath mem a ys s \<Longrightarrow>
   Insert_successor mem s b a = Some (hd (dropWhile (\<lambda>x. \<not> b < x) ys @ [s]))"
proof (induction ys arbitrary: a)
  case Nil
  then show ?case by (subst Insert_successor.simps) simp
next
  case (Cons y ys)
  then show ?case
    by (subst Insert_successor.simps) (simp add: ShouldInsertBefore_def)
qed

lemma Find_walk_npath:
  "npath mem a ys s \<Longrightarrow> Find_walk mem s m a = Some (find (\<lambda>x. m \<le> Size mem x) ys)"
proof (induction ys arbitrary: a)
  case Nil
  then show ?case by (subst Find_walk.simps) simp
next
  case (Cons y ys)
  then show ?case
    by (subst Find_walk.simps) simp
qed

lemma Validate_forward_npath:
  "npath mem a ys s \<Longrightarrow> \<forall>y\<in>set ys. FreedBlock_Validate mem y ident = Some () \<Longrightarrow>
   Validate_forward mem s ident a acc =
     Some (fst acc + word_of_nat (length ys), snd acc + sum_list (map (Size mem) ys))"
proof (induction ys arbitrary: a acc)
  case Nil
  then show ?case by (subst Validate_forward.simps) simp
next
  case (Cons y ys)
  then show ?case
    by (subst Validate_forward.simps) (simp add: algebra_simps)
qed

lemma Validate_backward_ppath:
  "ppath mem a ys s \<Longrightarrow> \<forall>y\<in>set ys. FreedBlock_Validate mem y ident = Some () \<Longrightarrow>
   Validate_backward mem s ident a acc =
     Some (fst acc + word_of_nat (length ys), snd acc + sum_list (map (Size mem) ys))"
proof (induction ys arbitrary: a acc)
  case Nil
  then show ?case by (subst Validate_backward.simps) simp
next
  case (Cons y ys)
  then show ?case
    by (subst Validate_backward.simps) (simp add: algebra_simps)
qed

lemma dlist_npath: "dlist mem s xs \<Longrightarrow> npath mem (next' mem s) xs s"
  by (simp add: dlist_def chain_npath)

lemma dlist_ppath: "dlist mem s xs \<Longrightarrow> ppath mem (prev mem s) (rev xs) s"
  by (simp add: dlist_def chain_ppath)

lemma RangeList_Validate_dlist:
  assumes "dlist mem (sentinel rl) xs"
    and "\<forall>y\<in>set xs. FreedBlock_Validate mem y ident = Some ()"
    and "m_freeBlocks rl = word_of_nat (length xs)"
    and "m_freeBytes rl = sum_list (map (Size mem) xs)"
    and "m_freeBlocks rl = 0 \<longrightarrow> xs = []"
  shows "RangeList_Validate rl mem ident = Some ()"
proof -
  have e: "xs = [] \<Longrightarrow> next' mem (sentinel rl) = sentinel rl \<and> prev mem (sentinel rl) = sentinel rl"
    using assms(1) by (simp add: dlist_def)
  have r: "sum_list (map (Size mem) (rev xs)) = sum_list (map (Size mem) xs)"
    by (simp add: rev_map [symmetric])
  show ?thesis
    unfolding RangeList_Validate_def
    using assms(2-5) e
    by (simp add: Validate_forward_npath [OF dlist_npath [OF assms(1)]]
        Validate_backward_ppath [OF dlist_ppath [OF assms(1)]] r debug_assert_def IsEmpty_def)
qed

lemma chain_append2:
  "chain mem (ys @ zs) =
     (chain mem ys \<and> chain mem zs \<and>
      (ys \<noteq> [] \<and> zs \<noteq> [] \<longrightarrow> next' mem (last ys) = hd zs \<and> prev mem (hd zs) = last ys))"
proof (induction mem ys rule: chain.induct)
  case (1 mem x y ys)
  then show ?case by auto
next
  case (2 mem x)
  then show ?case by (cases zs) auto
next
  case (3 mem)
  then show ?case by simp
qed

lemma novsD: "novs N \<Longrightarrow> x \<in> N \<Longrightarrow> y \<in> N \<Longrightarrow> nov x y"
  by (simp add: novs_def)

lemma novs_subset: "novs N \<Longrightarrow> M \<subseteq> N \<Longrightarrow> novs M"
  by (auto simp: novs_def)

lemma in_set_tlD: "x \<in> set (tl ys) \<Longrightarrow> x \<in> set ys"
  by (cases ys) auto

lemma chain_link_in:
  assumes "chain mem ys" and "b \<notin> set ys" and "pred \<notin> set (butlast ys)" and "succ \<notin> set (tl ys)"
    and "\<forall>y\<in>set ys. nov y b \<and> nov y pred \<and> nov y succ"
  shows "chain (link_in mem pred b succ) ys"
proof -
  have "b \<notin> set (butlast ys)" "b \<notin> set (tl ys)"
    using assms(2) by (auto dest: in_set_butlastD in_set_tlD)
  then show ?thesis
    using assms unfolding link_in_def
    by (simp add: chain_set_next chain_set_prev)
qed

lemma chain_link_out:
  assumes "chain mem ys" and "pred \<notin> set (butlast ys)" and "succ \<notin> set (tl ys)"
    and "\<forall>y\<in>set ys. nov y pred \<and> nov y succ"
  shows "chain (link_out mem pred succ) ys"
  using assms unfolding link_out_def
  by (simp add: chain_set_next chain_set_prev)


lemma Size_link_in:
  "nov x b \<Longrightarrow> nov x pred \<Longrightarrow> nov x succ \<Longrightarrow> Size (link_in mem pred b succ) x = Size mem x"
  by (simp add: link_in_def Size_set_next Size_set_prev)

lemma Size_link_out:
  "nov x pred \<Longrightarrow> nov x succ \<Longrightarrow> Size (link_out mem pred succ) x = Size mem x"
  by (simp add: link_out_def Size_set_next Size_set_prev)

lemma RangeList_Insert_dlist:
  assumes d: "dlist mem (sentinel rl) xs"
    and b: "b \<notin> set (sentinel rl # xs)"
    and n: "novs (insert b (set (sentinel rl # xs)))"
  shows "\<exists>pred\<in>set (sentinel rl # xs). \<exists>succ\<in>set (sentinel rl # xs).
     RangeList_Insert rl mem b =
       Some (rl\<lparr>m_freeBlocks := m_freeBlocks rl + 1,
                m_freeBytes := m_freeBytes rl + Size mem b\<rparr>, link_in mem pred b succ)
     \<and> dlist (link_in mem pred b succ) (sentinel rl) (ins b xs)"
proof -
  define s where "s = sentinel rl"
  define as where "as = takeWhile (\<lambda>x. \<not> b < x) xs"
  define bs where "bs = dropWhile (\<lambda>x. \<not> b < x) xs"
  define ys where "ys = s # as"
  define zs where "zs = bs @ [s]"
  define pred where "pred = last ys"
  define succ where "succ = hd zs"
  have xs: "xs = as @ bs" by (simp add: as_def bs_def)
  have dist: "distinct (s # as @ bs)" and ch: "chain mem (ys @ zs)"
    using d by (simp_all add: dlist_def s_def xs ys_def zs_def)
  have pm: "pred \<in> set (s # xs)" "succ \<in> set (s # xs)"
    by (cases as rule: rev_cases; simp add: pred_def ys_def xs)
       (cases bs; simp add: succ_def zs_def xs)
  have py: "pred \<notin> set (butlast ys)" "pred \<notin> set (butlast zs)"
    using dist by (cases as rule: rev_cases; auto simp: pred_def ys_def zs_def butlast_append)+
  have sz: "succ \<notin> set (tl zs)" "succ \<notin> set (tl ys)"
    using dist by (cases bs; auto simp: succ_def ys_def zs_def)+
  have bn: "b \<notin> set ys" "b \<notin> set zs" "b \<noteq> pred" "b \<noteq> succ" "b \<noteq> s"
    using b pm by (auto simp: ys_def zs_def xs s_def)
  have nv: "\<And>x y. x \<in> insert b (set (s # xs)) \<Longrightarrow> y \<in> insert b (set (s # xs)) \<Longrightarrow> nov x y"
    using n unfolding s_def by (rule novsD)
  have nvy: "\<forall>y\<in>set ys. nov y b \<and> nov y pred \<and> nov y succ"
    using pm by (auto intro!: nv simp: ys_def xs)
  have nvz: "\<forall>y\<in>set zs. nov y b \<and> nov y pred \<and> nov y succ"
    using pm by (auto intro!: nv simp: zs_def xs)
  have nvb: "nov b pred" "nov b succ" "nov pred succ" "nov succ b" "nov pred b" "nov succ pred"
    using pm by (auto intro!: nv)
  have ne: "ys \<noteq> []" "zs \<noteq> []"
    by (simp_all add: ys_def zs_def)
  from ch ne have c1: "chain mem ys" and c2: "chain mem zs"
    and l: "next' mem pred = succ" "prev mem succ = pred"
    unfolding chain_append2 [of mem ys zs] pred_def succ_def by simp_all
  have fs: "Insert_successor mem s b (next' mem s) = Some succ"
    using Insert_successor_npath [OF dlist_npath [OF d], of b]
    by (simp add: s_def succ_def zs_def bs_def)
  let ?m = "link_in mem pred b succ"
  have p2: "prev (set_next (set_prev mem b pred) b succ) succ = pred"
    using nvb bn l by (simp add: prev_set_next prev_set_prev)
  have run: "RangeList_Insert rl mem b =
       Some (rl\<lparr>m_freeBlocks := m_freeBlocks rl + 1,
                m_freeBytes := m_freeBytes rl + Size mem b\<rparr>, ?m)"
    unfolding RangeList_Insert_def
    using fs nvb by (simp add: s_def [symmetric] Let_def l p2 link_in_def [symmetric] Size_link_in)
  have k1: "chain ?m ys"
    using c1 bn py sz nvy by (intro chain_link_in) auto
  have k2: "chain ?m zs"
    using c2 bn py sz nvz by (intro chain_link_in) auto
  have k3: "next' ?m pred = b" "prev ?m b = pred" "next' ?m b = succ" "prev ?m succ = b"
    using nvb bn by (simp_all add: link_in_def next_set_next next_set_prev prev_set_next prev_set_prev)
  have "chain ?m (b # zs)"
    using k2 k3 ne by (cases zs) (auto simp: succ_def)
  then have "chain ?m (ys @ b # zs)"
    using k1 k3 ne by (simp add: chain_append2 [of _ ys "b # zs"] pred_def)
  moreover have i: "ins b xs = as @ b # bs"
    by (simp add: ins_def as_def bs_def)
  moreover have "distinct (s # as @ b # bs)"
    using dist bn by (auto simp: ys_def zs_def)
  ultimately have "dlist ?m s (ins b xs)"
    by (simp add: dlist_def ys_def zs_def)
  with run pm show ?thesis
    unfolding s_def [symmetric] by blast
qed


lemma RangeList_Remove_dlist:
  assumes d: "dlist mem (sentinel rl) xs"
    and b: "b \<in> set xs"
    and n: "novs (set (sentinel rl # xs))"
    and k1: "m_freeBlocks rl \<noteq> 0"
    and k2: "Size mem b \<le> m_freeBytes rl"
  shows "\<exists>pred\<in>set (sentinel rl # xs) - {b}. \<exists>succ\<in>set (sentinel rl # xs) - {b}.
     RangeList_Remove rl mem b =
       Some (rl\<lparr>m_freeBlocks := m_freeBlocks rl - 1,
                m_freeBytes := m_freeBytes rl - Size mem b\<rparr>, link_out mem pred succ)
     \<and> dlist (link_out mem pred succ) (sentinel rl) (remove1 b xs)"
proof -
  define s where "s = sentinel rl"
  from b obtain as bs where xs: "xs = as @ b # bs"
    by (auto simp: in_set_conv_decomp)
  define ys where "ys = s # as"
  define zs where "zs = bs @ [s]"
  define pred where "pred = last ys"
  define succ where "succ = hd zs"
  have dist: "distinct (s # as @ b # bs)" and ch: "chain mem (ys @ b # zs)"
    using d by (simp_all add: dlist_def s_def xs ys_def zs_def)
  have ne: "ys \<noteq> []" "zs \<noteq> []"
    by (simp_all add: ys_def zs_def)
  have pm1: "pred \<in> set (s # xs) - {b}"
    using dist by (cases as rule: rev_cases; auto simp: pred_def ys_def xs)
  have pm2: "succ \<in> set (s # xs) - {b}"
    using dist by (cases bs; auto simp: succ_def zs_def xs)
  note pm = pm1 pm2
  have py: "pred \<notin> set (butlast ys)" "pred \<notin> set (butlast zs)"
    using dist by (cases as rule: rev_cases; auto simp: pred_def ys_def zs_def butlast_append)+
  have sz: "succ \<notin> set (tl zs)" "succ \<notin> set (tl ys)"
    using dist by (cases bs; auto simp: succ_def ys_def zs_def)+
  have nv: "\<And>x y. x \<in> set (s # xs) \<Longrightarrow> y \<in> set (s # xs) \<Longrightarrow> nov x y"
    using n unfolding s_def by (rule novsD)
  have bx: "b \<in> set (s # xs)" "b \<noteq> pred" "b \<noteq> succ"
    using pm by (auto simp: xs)
  have nvy: "\<forall>y\<in>set ys. nov y pred \<and> nov y succ"
    using pm by (auto intro!: nv simp: ys_def xs)
  have nvz: "\<forall>y\<in>set zs. nov y pred \<and> nov y succ"
    using pm by (auto intro!: nv simp: zs_def xs)
  have nvb: "nov b pred" "nov b succ" "nov pred succ" "nov succ pred"
    using pm bx by (auto intro!: nv)
  from ch ne have c1: "chain mem ys" and c2: "chain mem (b # zs)"
    and l1: "next' mem pred = b" "prev mem b = pred"
    unfolding chain_append2 [of mem ys "b # zs"] pred_def by simp_all
  from c2 ne have c3: "chain mem zs" and l2: "next' mem b = succ" "prev mem succ = b"
    by (cases zs; simp add: succ_def)+
  let ?m = "link_out mem pred succ"
  have run: "RangeList_Remove rl mem b =
       Some (rl\<lparr>m_freeBlocks := m_freeBlocks rl - 1,
                m_freeBytes := m_freeBytes rl - Size mem b\<rparr>, ?m)"
    unfolding RangeList_Remove_def
    using nvb bx k1 k2
    by (simp add: Let_def l1 l2 prev_set_prev next_set_prev link_out_def [symmetric]
        Size_link_out debug_assert_def)
  have h1: "chain ?m ys"
    using c1 py sz nvy by (intro chain_link_out) auto
  have h2: "chain ?m zs"
    using c3 py sz nvz by (intro chain_link_out) auto
  have h3: "next' ?m pred = succ" "prev ?m succ = pred"
    using nvb by (simp_all add: link_out_def next_set_next prev_set_next prev_set_prev)
  have "chain ?m (ys @ zs)"
    using h1 h2 h3 ne by (simp add: chain_append2 [of _ ys zs] pred_def succ_def)
  moreover have "remove1 b xs = as @ bs"
    using dist by (simp add: xs remove1_append)
  moreover have "distinct (s # as @ bs)"
    using dist by auto
  ultimately have "dlist ?m s (remove1 b xs)"
    by (simp add: dlist_def ys_def zs_def)
  with run pm show ?thesis
    unfolding s_def [symmetric] by blast
qed

lemma odd_and_minus:
  assumes oy: "odd y"
  shows "y AND - y = (1 :: 'a::len word)"
proof -
  have "- y = NOT y + 1"
    by (simp add: minus_eq_not_plus_1)
  also have "\<dots> = NOT y OR 1"
    using oy by (simp add: or_one_eq)
  finally have "y AND - y = (y AND NOT y) OR (y AND 1)"
    by (simp only: bit.conj_disj_distrib)
  also have "\<dots> = 1"
    using oy by (simp add: and_one_eq odd_iff_mod_2_eq_one)
  finally show ?thesis .
qed

lemma lsb_exp:
  assumes "x \<noteq> (0 :: 'a::len word)"
  shows "\<exists>k<LENGTH('a). x AND - x = 2 ^ k \<and> bit x k \<and> (\<forall>j<k. \<not> bit x j)"
proof -
  from assms obtain n where "bit x n"
    by (auto simp: bit_eq_iff)
  define k where "k = (LEAST n. bit x n)"
  have bk: "bit x k" and lk: "\<And>j. j < k \<Longrightarrow> \<not> bit x j"
    using \<open>bit x n\<close> unfolding k_def by (auto intro: LeastI dest: not_less_Least)
  have tz: "take_bit k x = 0"
    by (rule bit_word_eqI) (auto simp: bit_take_bit_iff lk)
  define y where "y = drop_bit k x"
  have xy: "x = push_bit k y"
    using bits_ident [of k x] tz by (simp add: y_def)
  have oy: "odd y"
    using bk by (simp add: y_def bit_iff_odd_drop_bit)
  have "x AND - x = push_bit k (y AND - y)"
    by (simp add: xy push_bit_and push_bit_minus)
  also have "\<dots> = 2 ^ k"
    by (simp add: odd_and_minus [OF oy] push_bit_eq_mult)
  finally show ?thesis
    using bk lk bit_imp_le_length [OF bk] by blast
qed

lemma ceil_log2_from_eq:
  "x \<le> 2 ^ c \<Longrightarrow> (l < c \<Longrightarrow> 2 ^ (c - 1) < x) \<Longrightarrow> l \<le> c \<Longrightarrow> c \<le> l + f \<Longrightarrow>
   ceil_log2_from f l x = c"
proof (induction f arbitrary: l)
  case 0
  then show ?case by simp
next
  case (Suc f)
  show ?case
  proof (cases "2 ^ l < x")
    case True
    with Suc.prems have "l < c"
      by (metis le_neq_implies_less not_less)
    with Suc True show ?thesis by simp
  next
    case False
    have "l = c"
    proof (rule ccontr)
      assume "l \<noteq> c"
      with Suc.prems have lc: "l < c" by simp
      then have "(2::nat) ^ l \<le> 2 ^ (c - 1)" by (intro power_increasing) auto
      with Suc.prems(2) [OF lc] False show False by linarith
    qed
    with False show ?thesis by simp
  qed
qed

lemma ceil_log2_from_props:
  "ceil_log2_from f l x = c \<Longrightarrow>
   l \<le> c \<and> c \<le> l + f \<and> (l < c \<longrightarrow> 2 ^ (c - 1) < x) \<and> (x \<le> 2 ^ (l + f) \<longrightarrow> x \<le> 2 ^ c)"
proof (induction f arbitrary: l)
  case 0
  then show ?case by simp
next
  case (Suc f)
  show ?case
  proof (cases "2 ^ l < x")
    case True
    with Suc.prems have "ceil_log2_from f (Suc l) x = c" by simp
    from Suc.IH [OF this] True show ?thesis
      by (cases "Suc l = c") auto
  next
    case False
    with Suc.prems show ?thesis by auto
  qed
qed

lemma SizeClass_props:
  "SizeClass n \<le> 32 \<and> unat n \<le> 2 ^ SizeClass n \<and> (0 < SizeClass n \<longrightarrow> 2 ^ (SizeClass n - 1) < unat n)"
proof -
  define c where "c = ceil_log2_from 32 0 (unat n)"
  have lt: "unat n < 2 ^ 32" using unsigned_less [of n] by simp
  have "0 \<le> c \<and> c \<le> 0 + 32 \<and> (0 < c \<longrightarrow> 2 ^ (c - 1) < unat n) \<and>
        (unat n \<le> 2 ^ (0 + 32) \<longrightarrow> unat n \<le> 2 ^ c)"
    by (rule ceil_log2_from_props) (simp add: c_def)
  with lt show ?thesis
    by (simp add: SizeClass_def ceil_log2_def c_def [symmetric])
qed

lemma SizeClass_exp: "k < 32 \<Longrightarrow> SizeClass (2 ^ k) = k"
proof -
  assume k: "k < 32"
  have "(2::nat) ^ k < 2 ^ 32"
    using k by (intro power_strict_increasing) auto
  moreover have "(2 ^ k :: 32 word) = word_of_nat (2 ^ k)" by simp
  ultimately have u: "unat (2 ^ k :: 32 word) = 2 ^ k"
    by (simp only: unat_of_nat) simp
  show ?thesis
    unfolding SizeClass_def ceil_log2_def
    using k by (simp add: u) (rule ceil_log2_from_eq; simp)
qed

lemma SizeClass_less_imp_le:
  assumes "SizeClass n < SizeClass s" shows "n < s"
proof -
  from assms have p: "0 < SizeClass s" by simp
  from assms have "SizeClass n \<le> SizeClass s - 1" by simp
  then have "(2::nat) ^ SizeClass n \<le> 2 ^ (SizeClass s - 1)"
    by (intro power_increasing) auto
  with SizeClass_props [of n] SizeClass_props [of s] p have "unat n < unat s" by linarith
  then show ?thesis by (simp add: word_less_nat_alt)
qed

lemma find_map_fst:
  "\<forall>x\<in>set xs. Size mem (fst x) = snd x \<Longrightarrow>
   find (\<lambda>b. m \<le> Size mem b) (map fst xs) = map_option fst (find (\<lambda>x. m \<le> snd x) xs)"
  by (induction xs) auto

lemma sum_list_less_bound:
  assumes a: "\<forall>x\<in>set xs. f x < (m::nat)" and ne: "xs \<noteq> []"
  shows "sum_list (map f xs) div length xs < m"
proof -
  have "sum_list (map f xs) + length xs \<le> m * length xs"
    using a by (induction xs) (auto simp: algebra_simps)
  with ne have "sum_list (map f xs) < m * length xs"
    by (cases xs) auto
  with ne show ?thesis
    by (simp add: div_less_iff_less_mult)
qed

lemma RangeList_Find_ok:
  assumes ok: "rl_ok mem rl xs" and ne: "xs \<noteq> []"
  shows "RangeList_Find rl mem m =
     Some (case find (\<lambda>x. m \<le> snd x) xs of Some x \<Rightarrow> fst x | None \<Rightarrow> 0)"
proof -
  have w: "Find_walk mem (sentinel rl) m (next' mem (sentinel rl)) =
           Some (map_option fst (find (\<lambda>x. m \<le> snd x) xs))"
  proof -
    from ok have d: "dlist mem (sentinel rl) (map fst xs)"
      and z: "\<forall>x\<in>set xs. Size mem (fst x) = snd x"
      by (simp_all add: rl_ok_def)
    show ?thesis
      by (simp add: Find_walk_npath [OF dlist_npath [OF d]] find_map_fst [OF z])
  qed
  show ?thesis
  proof (cases "find (\<lambda>x. m \<le> snd x) xs")
    case (Some x)
    then show ?thesis by (simp add: RangeList_Find_def w)
  next
    case None
    then have all: "\<forall>x\<in>set xs. unat (snd x) < unat m"
      by (auto simp: find_None_iff word_le_nat_alt not_le)
    have nz: "m_freeBlocks rl \<noteq> 0"
      using ok ne by (auto simp: rl_ok_def unat_eq_0 [symmetric] simp del: unat_eq_0)
    have "unat (m_freeBytes rl div m_freeBlocks rl) < unat m"
      using sum_list_less_bound [OF all ne] ok by (simp add: unat_div rl_ok_def)
    then have "m_freeBytes rl div m_freeBlocks rl < m"
      by (simp add: word_less_nat_alt)
    with None nz show ?thesis
      by (simp add: RangeList_Find_def w debug_assert_def)
  qed
qed

lemma filter_upt_least:
  assumes "k < n" and "P k" and "\<forall>j<k. \<not> P j"
  shows "filter P [0..<n] = k # filter (\<lambda>j. P j \<and> j \<noteq> k) [0..<n]"
proof -
  have u: "[0..<n] = [0..<k] @ k # [Suc k..<n]"
    using assms(1) by (metis less_imp_add_positive upt_add_eq_append upt_conv_Cons zero_le le_add1 add.left_neutral less_or_eq_imp_le)
  have a: "filter P [0..<k] = []" "filter (\<lambda>j. P j \<and> j \<noteq> k) [0..<k] = []"
    using assms(3) by (auto simp: filter_empty_conv)
  have b: "filter P [Suc k..<n] = filter (\<lambda>j. P j \<and> j \<noteq> k) [Suc k..<n]"
    by (rule filter_cong) auto
  show ?thesis
    using assms(2) by (simp add: u a b)
qed

lemma Find_classes_ok:
  assumes "length rls = 32"
    and "\<forall>i<32. bit bits i \<longrightarrow> rl_ok mem (rls ! i) (F i) \<and> F i \<noteq> [] \<and> (\<forall>x\<in>set (F i). fst x \<noteq> 0)"
  shows "Find_classes rls mem m bits = Some (fit_in F m (filter (bit bits) [0..<32]))"
  using assms
proof (induction rls mem m bits rule: Find_classes.induct)
  case (1 rls mem m bits)
  show ?case
  proof (cases "bits = 0")
    case True
    then show ?thesis by (subst Find_classes.simps) (simp add: filter_empty_conv)
  next
    case False
    from lsb_exp [OF False] obtain k where k: "k < 32" "bits AND - bits = 2 ^ k" "bit bits k"
      "\<forall>j<k. \<not> bit bits j"
      by auto
    let ?bits' = "bits AND NOT (2 ^ k)"
    have b': "\<And>j. bit ?bits' j = (bit bits j \<and> j \<noteq> k)"
      by (auto simp: bit_simps dest: bit_imp_le_length)
    have be: "bit ?bits' = (\<lambda>j. bit bits j \<and> j \<noteq> k)"
      by (rule ext) (rule b')
    then have fl: "filter (bit bits) [0..<32] = k # filter (bit ?bits') [0..<32]"
      using filter_upt_least [of k 32 "bit bits"] k by simp
    from "1.prems" k have okk: "rl_ok mem (rls ! k) (F k)" "F k \<noteq> []" "\<forall>x\<in>set (F k). fst x \<noteq> 0"
      by auto
    have v: "ValueOfLeastSignificantOneBit bits = 2 ^ k"
      using k by (simp add: ValueOfLeastSignificantOneBit_def)
    have step: "Find_classes rls mem m bits =
       (case RangeList_Find (rls ! k) mem m of
          None \<Rightarrow> None
        | Some freedBlock \<Rightarrow>
            if freedBlock \<noteq> 0 then Some (Some freedBlock)
            else Find_classes rls mem m ?bits')"
      using False k(1) "1.prems"(1)
      by (subst Find_classes.simps, unfold v) (simp add: SizeClass_exp debug_assert_def)
    note rf = RangeList_Find_ok [OF okk(1,2), of m]
    show ?thesis
    proof (cases "find (\<lambda>x. m \<le> snd x) (F k)")
      case (Some x)
      then have "x \<in> set (F k)"
        by (auto simp: find_Some_iff)
      with okk have "fst x \<noteq> 0" by auto
      with Some show ?thesis
        by (simp add: step rf fl)
    next
      case None
      have ih: "Find_classes rls mem m ?bits' = Some (fit_in F m (filter (bit ?bits') [0..<32]))"
        using "1.IH" [of "()" 0] False k "1.prems" None
        by (simp add: SizeClass_exp debug_assert_def v be rf)
      from None show ?thesis
        by (simp add: step rf fl ih)
    qed
  qed
qed

lemma fit_in_filter:
  "\<forall>j\<in>set js. \<not> P j \<longrightarrow> F j = [] \<Longrightarrow> fit_in F m (filter P js) = fit_in F m js"
  by (induction js) (auto split: option.splits)

lemma find_SomeD: "find P xs = Some x \<Longrightarrow> x \<in> set xs \<and> P x"
  by (induction xs) (auto split: if_splits)

lemma fit_in_None: "fit_in F m js = None \<longleftrightarrow> (\<forall>j\<in>set js. \<forall>x\<in>set (F j). \<not> m \<le> snd x)"
  by (induction js) (auto simp: find_None_iff split: option.splits dest: find_SomeD)

lemma filter_upt_from:
  "c \<le> n \<Longrightarrow> filter (\<lambda>j. P j \<and> c \<le> j) [0..<n] = filter P [c..<n]"
proof -
  assume c: "c \<le> n"
  then have u: "[0..<n] = [0..<c] @ [c..<n]"
    by (metis le_add_diff_inverse upt_add_eq_append zero_le)
  have "filter (\<lambda>j. P j \<and> c \<le> j) [0..<c] = []"
    by (auto simp: filter_empty_conv)
  moreover have "filter (\<lambda>j. P j \<and> c \<le> j) [c..<n] = filter P [c..<n]"
    by (rule filter_cong) auto
  ultimately show ?thesis by (simp add: u)
qed

lemma unat_less_exp_if_no_high_bits:
  assumes "\<forall>j. c < j \<longrightarrow> \<not> bit w j"
  shows "unat (w :: 'a::len word) < 2 ^ Suc c"
proof -
  have "w = take_bit (Suc c) w"
    using assms by (intro bit_word_eqI) (auto simp: bit_take_bit_iff not_less less_Suc_eq_le)
  then have "unat w = take_bit (Suc c) (unat w)"
    by (metis unsigned_take_bit_eq)
  then show ?thesis
    by (metis take_bit_nat_less_exp)
qed

lemma srl_no_class_above:
  assumes ok: "srl_ok mem srl F"
    and miss: "fit_in F m [SizeClass m..<32] = None"
    and i: "SizeClass m < i" "i < 32"
  shows "F i = []"
proof (rule ccontr)
  assume "F i \<noteq> []"
  then obtain x where x: "x \<in> set (F i)" by (cases "F i") auto
  with ok i have "SizeClass (snd x) = i" by (auto simp: srl_ok_def)
  with i have "m < snd x" by (simp add: SizeClass_less_imp_le)
  moreover from miss i x have "\<not> m \<le> snd x"
    by (auto simp: fit_in_None)
  ultimately show False by simp
qed

lemma srl_miss_bitmap:
  assumes ok: "srl_ok mem srl F"
    and miss: "fit_in F m [SizeClass m..<32] = None"
  shows "unat (m_bitmap srl) < BIT (SizeClass m + 1)"
proof -
  have "\<forall>j. SizeClass m < j \<longrightarrow> \<not> bit (m_bitmap srl) j"
  proof (intro allI impI)
    fix j assume j: "SizeClass m < j"
    show "\<not> bit (m_bitmap srl) j"
    proof (cases "j < 32")
      case True
      with srl_no_class_above [OF ok miss j] ok show ?thesis
        by (simp add: srl_ok_def)
    next
      case False
      then show ?thesis by (auto dest: bit_imp_le_length)
    qed
  qed
  then show ?thesis
    using unat_less_exp_if_no_high_bits [of "SizeClass m" "m_bitmap srl"] by (simp add: BIT_def)
qed

lemma SegregatedRangeLists_Find_ok:
  assumes ok: "srl_ok mem srl F" and c: "SizeClass m < 32"
  shows "SegregatedRangeLists_Find srl mem m =
     Some (case fit_in F m [SizeClass m..<32] of Some b \<Rightarrow> b | None \<Rightarrow> 0)"
proof -
  let ?c = "SizeClass m"
  let ?bits = "m_bitmap srl AND push_bit ?c (NOT 0)"
  have b1: "\<And>j. bit ?bits j = (bit (m_bitmap srl) j \<and> ?c \<le> j)"
    by (auto simp: bit_simps dest: bit_imp_le_length)
  have b: "bit ?bits = (\<lambda>j. bit (m_bitmap srl) j \<and> ?c \<le> j)"
    by (rule ext) (rule b1)
  have pre: "\<forall>i<32. bit ?bits i \<longrightarrow>
      rl_ok mem (m_rangeLists srl ! i) (F i) \<and> F i \<noteq> [] \<and> (\<forall>x\<in>set (F i). fst x \<noteq> 0)"
    unfolding b1 using ok by (auto simp: srl_ok_def)
  have "Find_classes (m_rangeLists srl) mem m ?bits = Some (fit_in F m (filter (bit ?bits) [0..<32]))"
    using ok pre by (intro Find_classes_ok) (simp_all add: srl_ok_def)
  also have "filter (bit ?bits) [0..<32] = filter (bit (m_bitmap srl)) [?c..<32]"
    unfolding b using c by (simp add: filter_upt_from)
  also have "fit_in F m (filter (bit (m_bitmap srl)) [?c..<32]) = fit_in F m [?c..<32]"
    using ok by (intro fit_in_filter) (auto simp: srl_ok_def)
  finally have fc: "Find_classes (m_rangeLists srl) mem m ?bits = Some (fit_in F m [?c..<32])" .
  show ?thesis
  proof (cases "fit_in F m [?c..<32]")
    case None
    with srl_miss_bitmap [OF ok None] c fc show ?thesis
      by (simp add: SegregatedRangeLists_Find_def Let_def debug_assert_def)
  next
    case (Some b)
    with c fc show ?thesis
      by (simp add: SegregatedRangeLists_Find_def Let_def debug_assert_def)
  qed
qed



lemma word_mod16_unat: "((n :: 32 word) mod 16 = 0) = (unat n mod 16 = 0)"
proof -
  have "unat (n mod 16) = unat n mod 16"
    by (simp add: unat_mod)
  moreover have "(n mod 16 = 0) = (unat (n mod 16) = 0)"
    by (simp only: unat_eq_0)
  ultimately show ?thesis by simp
qed

lemma IsValidSize_unat: "IsValidSize n = (20 \<le> unat n \<and> unat n mod 16 = 0)"
  unfolding IsValidSize_def sizeof_FreedBlock_def minAlignment_def word_mod16_unat
  by (simp add: word_less_nat_alt not_less)

lemma Footer_apart:
  assumes v: "IsValidSize n" and sz: "mem (unat b + 12) = n"
    and mg: "mem (unat (b + n - 20)) = s_magic"
  shows "unat (b + n - 20) + 20 \<le> unat b \<or> unat b + 20 \<le> unat (b + n - 20)"
proof -
  from v have n20: "20 \<le> unat n" and n16: "unat n mod 16 = 0"
    by (simp_all add: IsValidSize_unat)
  have d: "unat (n - 20) = unat n - 20"
    using n20 by (simp add: unat_sub word_le_nat_alt)
  have f: "b + n - 20 = b + (n - 20)" by simp
  have nlt: "unat n < 2 ^ 32" "unat b < 2 ^ 32"
    using unsigned_less [of n] unsigned_less [of b] by simp_all
  have uf: "unat (b + n - 20) = (if unat b + (unat n - 20) < 2 ^ 32 then unat b + (unat n - 20)
      else unat b + (unat n - 20) - 2 ^ 32)"
    unfolding f using unat_plus_if' [of b "n - 20"] by (simp add: d)
  have n32: "unat n = 32 \<Longrightarrow> unat b + 12 < 2 ^ 32 \<Longrightarrow> False"
  proof -
    assume e: "unat n = 32" and w: "unat b + 12 < 2 ^ 32"
    then have "unat (b + n - 20) = unat b + 12" by (simp add: uf)
    with mg sz have "n = s_magic" by simp
    with e show False by (simp add: s_magic_def)
  qed
  have "unat n = 32 \<or> 48 \<le> unat n"
    using n20 n16 by presburger
  then show ?thesis
    using n32 nlt n20 by (auto simp: uf split: if_splits)
qed

lemma byt_le_pos:
  assumes d: "\<forall>i<32. distinct (F i)"
    and cl: "\<forall>i<32. \<forall>x\<in>set (F i). SizeClass (snd x) = i"
    and ok: "\<forall>i<32. \<forall>x\<in>set (F i). blk_ok pool x"
    and dj: "\<forall>i<32. \<forall>j<32. \<forall>x\<in>set (F i). \<forall>y\<in>set (F j). x \<noteq> y \<longrightarrow> disjoint_blk x y"
  shows "byt F \<le> unat (pos pool)"
proof -
  define B where "B = (\<Union>i\<in>{..<32::nat}. set (F i))"
  define I where "I = (\<lambda>x :: addr \<times> size_t. {unat (fst x) ..< unat (fst x) + unat (snd x)})"
  have fB: "finite B" by (simp add: B_def)
  have "byt F = (\<Sum>i<32. \<Sum>x\<in>set (F i). unat (snd x))"
    unfolding byt_def using d by (intro sum.cong refl) (simp add: sum_list_distinct_conv_sum_set)
  also have "\<dots> = (\<Sum>x\<in>B. unat (snd x))"
    unfolding B_def
  proof (rule sum.UNION_disjoint [symmetric])
    show "\<forall>i\<in>{..<32}. \<forall>j\<in>{..<32}. i \<noteq> j \<longrightarrow> set (F i) \<inter> set (F j) = {}"
    proof (intro ballI impI)
      fix i j :: nat assume i: "i \<in> {..<32}" and j: "j \<in> {..<32}" and ne: "i \<noteq> j"
      show "set (F i) \<inter> set (F j) = {}"
      proof (rule ccontr)
        assume "set (F i) \<inter> set (F j) \<noteq> {}"
        then obtain x where x: "x \<in> set (F i)" "x \<in> set (F j)" by auto
        from i j have lt: "i < 32" "j < 32" by simp_all
        from cl lt(1) x(1) have "SizeClass (snd x) = i" by blast
        moreover from cl lt(2) x(2) have "SizeClass (snd x) = j" by blast
        ultimately show False using ne by simp
      qed
    qed
  qed simp_all
  also have "\<dots> = (\<Sum>x\<in>B. card (I x))"
    by (simp add: I_def)
  also have "\<dots> = card (\<Union>x\<in>B. I x)"
  proof (rule card_UN_disjoint [symmetric])
    show "\<forall>x\<in>B. \<forall>y\<in>B. x \<noteq> y \<longrightarrow> I x \<inter> I y = {}"
      using dj by (fastforce simp: B_def I_def disjoint_blk_def)
  qed (simp_all add: fB I_def)
  also have "\<dots> \<le> card {unat (base pool) ..< unat (base pool) + unat (pos pool)}"
  proof (rule card_mono)
    show "(\<Union>x\<in>B. I x) \<subseteq> {unat (base pool) ..< unat (base pool) + unat (pos pool)}"
      using ok by (fastforce simp: B_def I_def blk_ok_def)
  qed simp
  finally show ?thesis by simp
qed

lemma sum_upd_lessThan:
  fixes g :: "nat \<Rightarrow> nat"
  assumes "c < n"
  shows "(\<Sum>i<n. (g(c := v)) i) + g c = (\<Sum>i<n. g i) + v"
proof -
  have 1: "(\<Sum>i<n. (g(c := v)) i) = v + (\<Sum>i\<in>{..<n} - {c}. (g(c := v)) i)"
    using assms by (subst sum.remove [of _ c]) simp_all
  have 2: "(\<Sum>i<n. g i) = g c + (\<Sum>i\<in>{..<n} - {c}. g i)"
    using assms by (subst sum.remove [of _ c]) simp_all
  have 3: "(\<Sum>i\<in>{..<n} - {c}. (g(c := v)) i) = (\<Sum>i\<in>{..<n} - {c}. g i)"
    by (rule sum.cong) simp_all
  show ?thesis unfolding 1 3 2 by simp
qed

lemma cnt_upd: "c < 32 \<Longrightarrow> cnt (F(c := ys)) + length (F c) = cnt F + length ys"
  using sum_upd_lessThan [of c 32 "\<lambda>i. length (F i)" "length ys"]
  by (simp add: cnt_def fun_upd_def if_distrib [of length] cong: if_cong)

lemma byt_upd:
  "c < 32 \<Longrightarrow> byt (F(c := ys)) + sum_list (map (\<lambda>x. unat (snd x)) (F c)) =
     byt F + sum_list (map (\<lambda>x. unat (snd x)) ys)"
  using sum_upd_lessThan [of c 32 "\<lambda>i. sum_list (map (\<lambda>x. unat (snd x)) (F i))"
      "sum_list (map (\<lambda>x. unat (snd x)) ys)"]
  by (simp add: byt_def fun_upd_def if_distrib [of "\<lambda>xs. sum_list (map (\<lambda>x. unat (snd x)) xs)"] cong: if_cong)

lemma length_le_cnt: "c < 32 \<Longrightarrow> length (F c) \<le> cnt F"
  unfolding cnt_def by (rule member_le_sum) simp_all

lemma sum_le_byt: "c < 32 \<Longrightarrow> sum_list (map (\<lambda>x. unat (snd x)) (F c)) \<le> byt F"
  unfolding byt_def
  by (rule member_le_sum [of c _ "\<lambda>i. sum_list (map (\<lambda>x. unat (snd x)) (F i))"]) simp_all

lemma split_insert_facts:
  fixes f :: "'a \<Rightarrow> nat"
  assumes "ts @ ds = xs"
  shows "set (ts @ x # ds) = insert x (set xs)"
    and "length (ts @ x # ds) = Suc (length xs)"
    and "sum_list (map f (ts @ x # ds)) = f x + sum_list (map f xs)"
  using assms by auto

lemma set_ins_blk [simp]: "set (ins_blk x xs) = insert x (set xs)"
  unfolding ins_blk_def by (rule split_insert_facts [OF takeWhile_dropWhile_id])

lemma length_ins_blk [simp]: "length (ins_blk x xs) = Suc (length xs)"
  unfolding ins_blk_def by (rule split_insert_facts [OF takeWhile_dropWhile_id])

lemma sum_ins_blk [simp]:
  fixes f :: "addr \<times> size_t \<Rightarrow> nat"
  shows "sum_list (map f (ins_blk x xs)) = f x + sum_list (map f xs)"
  unfolding ins_blk_def by (rule split_insert_facts [OF takeWhile_dropWhile_id])

lemma map_fst_ins_blk: "map fst (ins_blk x xs) = ins (fst x) (map fst xs)"
  by (simp add: ins_blk_def ins_def takeWhile_map dropWhile_map comp_def)

lemma map_fst_remove1:
  "distinct (map fst xs) \<Longrightarrow> x \<in> set xs \<Longrightarrow> map fst (remove1 x xs) = remove1 (fst x) (map fst xs)"
proof (induction xs)
  case Nil
  then show ?case by simp
next
  case (Cons y ys)
  show ?case
  proof (cases "x = y")
    case True
    then show ?thesis by simp
  next
    case False
    with Cons.prems have "fst x \<noteq> fst y"
      by (metis distinct.simps(2) image_eqI list.simps(9) set_ConsD set_map)
    with Cons False show ?thesis by simp
  qed
qed

lemma length_remove1_blk: "x \<in> set xs \<Longrightarrow> Suc (length (remove1 x xs)) = length xs"
  by (induction xs) auto

lemma sum_remove1_blk:
  fixes f :: "'a \<Rightarrow> nat"
  shows "x \<in> set xs \<Longrightarrow> f x + sum_list (map f (remove1 x xs)) = sum_list (map f xs)"
  by (induction xs) auto

lemma unat_add_no_wrap:
  "unat (p :: 32 word) + unat n < 2 ^ 32 \<Longrightarrow> unat (p + n) = unat p + unat n"
  using unat_add_lem [of p n] by simp

lemma unat_footer:
  assumes "blk_ok pool x" and "pool_ok pool"
  shows "unat (fst x + snd x - sizeof_FreedBlock) = unat (fst x) + unat (snd x) - 20"
proof -
  from assms have b: "unat (fst x) + unat (snd x) < 2 ^ 32" and n: "40 \<le> unat (snd x)"
    by (auto simp: blk_ok_def pool_ok_def)
  have s: "unat (fst x + snd x) = unat (fst x) + unat (snd x)"
    using b by (rule unat_add_no_wrap)
  have "(20 :: 32 word) \<le> fst x + snd x"
    using n by (simp add: word_le_nat_alt s)
  then have "unat (fst x + snd x - 20) = unat (fst x + snd x) - unat (20 :: 32 word)"
    by (rule unat_sub)
  then show ?thesis by (simp add: s sizeof_FreedBlock_def)
qed

lemma IsValidSize_blk: "blk_ok pool x \<Longrightarrow> IsValidSize (snd x)"
  by (simp add: blk_ok_def IsValidSize_unat)

lemma same_outside_fields:
  assumes "same_outside mem mem' lo hi" and "unat x + 20 \<le> lo \<or> hi \<le> unat x"
  shows "next' mem' x = next' mem x" "prev mem' x = prev mem x" "Size mem' x = Size mem x"
    "m_magic mem' x = m_magic mem x" "m_id mem' x = m_id mem x"
  using assms by (auto simp: same_outside_def next'_def prev_def Size_def m_magic_def m_id_def)

lemma same_outside_refl [simp]: "same_outside mem mem lo hi"
  by (simp add: same_outside_def)

lemma same_outside_trans:
  "same_outside m1 m2 lo hi \<Longrightarrow> same_outside m2 m3 lo hi \<Longrightarrow> same_outside m1 m3 lo hi"
  by (simp add: same_outside_def)

lemma same_outside_mono:
  "same_outside m1 m2 lo hi \<Longrightarrow> lo' \<le> lo \<Longrightarrow> hi \<le> hi' \<Longrightarrow> same_outside m1 m2 lo' hi'"
  by (auto simp: same_outside_def)

lemma chain_same_outside:
  "same_outside mem mem' lo hi \<Longrightarrow> \<forall>y\<in>set ys. unat y + 20 \<le> lo \<or> hi \<le> unat y \<Longrightarrow>
   chain mem' ys = chain mem ys"
  by (induction mem ys rule: chain.induct) (auto simp: same_outside_fields)

lemma tagged_same_outside:
  assumes so: "same_outside mem mem' lo hi" and b: "blk_ok pool x" and p: "pool_ok pool"
    and out: "unat (fst x) + unat (snd x) \<le> lo \<or> hi \<le> unat (fst x)"
  shows "tagged mem' x = tagged mem x"
proof -
  let ?f = "fst x + snd x - sizeof_FreedBlock"
  have uf: "unat ?f = unat (fst x) + unat (snd x) - 20"
    using b p by (rule unat_footer)
  from b have n: "40 \<le> unat (snd x)" by (simp add: blk_ok_def)
  have h: "unat (fst x) + 20 \<le> lo \<or> hi \<le> unat (fst x)"
    using out n by auto
  have f: "unat ?f + 20 \<le> lo \<or> hi \<le> unat ?f"
    using out n by (auto simp: uf)
  show ?thesis
    by (simp add: tagged_def IsFreedBlock_def same_outside_fields [OF so h] same_outside_fields [OF so f])
qed

lemma IsFreedBlock_iff:
  "IsFreedBlock mem b i = (mem (unat b + 16) = i \<and> mem (unat b) = s_magic)"
  by (simp add: IsFreedBlock_def m_id_def m_magic_def)

lemma tagged_iff:
  "tagged mem x =
     (mem (unat (fst x)) = s_magic \<and> mem (unat (fst x) + 12) = snd x \<and>
      mem (unat (fst x) + 16) = s_headerId \<and>
      mem (unat (fst x + snd x - sizeof_FreedBlock)) = s_magic \<and>
      mem (unat (fst x + snd x - sizeof_FreedBlock) + 12) = snd x \<and>
      mem (unat (fst x + snd x - sizeof_FreedBlock) + 16) = s_footerId)"
  by (auto simp: tagged_def IsFreedBlock_iff Size_def)

lemma tagged_set_link:
  assumes t: "tagged mem x" and b: "blk_ok pool x" and p: "pool_ok pool"
    and c: "a = fst x \<or> unat a + 20 \<le> unat (fst x) \<or> unat (fst x) + unat (snd x) \<le> unat a"
  shows "tagged (set_next mem a v) x" and "tagged (set_prev mem a v) x"
proof -
  define X N A where "X = unat (fst x)" and "N = unat (snd x)" and "A = unat a"
  have uf: "unat (fst x + snd x - sizeof_FreedBlock) = X + N - 20"
    unfolding X_def N_def using b p by (rule unat_footer)
  from b have n: "40 \<le> N" by (simp add: blk_ok_def N_def)
  from c have c': "A = X \<or> A + 20 \<le> X \<or> X + N \<le> A"
    by (auto simp: X_def N_def A_def)
  have d: "X \<noteq> A + 4" "X \<noteq> A + 8" "X + 12 \<noteq> A + 4" "X + 12 \<noteq> A + 8"
    "X + 16 \<noteq> A + 4" "X + 16 \<noteq> A + 8"
    "X + N - 20 \<noteq> A + 4" "X + N - 20 \<noteq> A + 8" "X + N - 20 + 12 \<noteq> A + 4"
    "X + N - 20 + 12 \<noteq> A + 8" "X + N - 20 + 16 \<noteq> A + 4" "X + N - 20 + 16 \<noteq> A + 8"
    using c' n by linarith+
  show "tagged (set_next mem a v) x" and "tagged (set_prev mem a v) x"
    using t d
    by (simp_all add: tagged_iff set_next_def set_prev_def uf X_def [symmetric] A_def [symmetric])
qed

lemma FreedBlock_Validate_iff:
  "FreedBlock_Validate mem b i = Some () \<longleftrightarrow> IsValidSize (Size mem b) \<and> IsFreedBlock mem b i"
  by (auto simp: FreedBlock_Validate_def debug_assert_def split: if_splits Option.bind_splits)

lemma BoundaryTagManager_Validate_tagged:
  assumes "tagged mem (b, n)" and "IsValidSize n"
    and "tag_freeBlocks btm \<noteq> 0" and "n \<le> tag_freeBytes btm"
  shows "BoundaryTagManager_Validate btm mem b = Some ()"
  using assms
  by (simp add: BoundaryTagManager_Validate_def debug_assert_def tagged_def Footer_def
      FreedBlock_Validate_iff [THEN iffD2])

lemma WriteTags_ok:
  assumes b: "blk_ok pool (p, n)" and pl: "pool_ok pool"
    and c1: "unat (tag_freeBlocks btm) + 1 < 2 ^ 32"
    and c2: "unat (tag_freeBytes btm) + unat n < 2 ^ 32"
  shows "\<exists>mem'. WriteTags btm mem p n =
       Some (p, btm\<lparr>tag_freeBlocks := tag_freeBlocks btm + 1,
                     tag_freeBytes := tag_freeBytes btm + n\<rparr>, mem')
     \<and> tagged mem' (p, n) \<and> same_outside mem mem' (unat p) (unat p + unat n)"
proof -
  define f where "f = p + n - sizeof_FreedBlock"
  have uf: "unat f = unat p + unat n - 20"
    using unat_footer [OF b pl] by (simp add: f_def)
  from b have n: "40 \<le> unat n" and v: "IsValidSize n"
    by (simp_all add: blk_ok_def IsValidSize_unat)
  define mem1 where "mem1 = FreedBlock_new mem p s_headerId n"
  define mem2 where "mem2 = FreedBlock_new mem1 f s_footerId n"
  have s1: "Size mem1 p = n"
    by (simp add: mem1_def FreedBlock_new_def Size_def)
  have ft: "Footer mem1 p = f"
    by (simp add: Footer_def s1 f_def)
  define X N where "X = unat p" and "N = unat n"
  have ufx: "unat f = X + N - 20" by (simp add: uf X_def N_def)
  have n': "40 \<le> N" using n by (simp add: N_def)
  have d: "X + N - 20 \<noteq> X" "X + N - 20 \<noteq> X + 12" "X + N - 20 \<noteq> X + 16"
    "X + N - 20 + 12 \<noteq> X" "X + N - 20 + 12 \<noteq> X + 12" "X + N - 20 + 12 \<noteq> X + 16"
    "X + N - 20 + 16 \<noteq> X" "X + N - 20 + 16 \<noteq> X + 12" "X + N - 20 + 16 \<noteq> X + 16"
    "X + N - 20 + 12 \<noteq> X + N - 20" "X + N - 20 + 16 \<noteq> X + N - 20"
    "X + N - 20 + 16 \<noteq> X + N - 20 + 12" "X + 12 \<noteq> X" "X + 16 \<noteq> X"
    using n' by linarith+
  have tg: "tagged mem2 (p, n)"
    using d by (simp add: tagged_iff mem2_def mem1_def FreedBlock_new_def f_def [symmetric] ufx
        X_def [symmetric])
  have so: "same_outside mem mem2 (unat p) (unat p + unat n)"
    unfolding same_outside_def mem2_def mem1_def FreedBlock_new_def ufx X_def [symmetric] N_def [symmetric]
    using n' by auto
  have k1: "tag_freeBlocks btm + 1 \<noteq> 0"
    using c1 unat_add_no_wrap [of "tag_freeBlocks btm" 1] by (auto simp: unat_eq_0 [symmetric] simp del: unat_eq_0)
  have k2: "n \<le> tag_freeBytes btm + n"
    using c2 unat_add_no_wrap [of "tag_freeBytes btm" n] by (simp add: word_le_nat_alt)
  have val: "BoundaryTagManager_Validate
      (btm\<lparr>tag_freeBlocks := tag_freeBlocks btm + 1, tag_freeBytes := tag_freeBytes btm + n\<rparr>)
      mem2 p = Some ()"
    using tg v k1 k2 by (intro BoundaryTagManager_Validate_tagged) simp_all
  have "WriteTags btm mem p n =
       Some (p, btm\<lparr>tag_freeBlocks := tag_freeBlocks btm + 1,
                     tag_freeBytes := tag_freeBytes btm + n\<rparr>, mem2)"
    by (simp add: WriteTags_def Let_def mem1_def [symmetric] ft mem2_def [symmetric] val)
  with tg so show ?thesis by blast
qed

lemma RemoveTags_ok:
  assumes t: "tagged mem (b, n)" and bk: "blk_ok pool (b, n)" and pl: "pool_ok pool"
    and c1: "tag_freeBlocks btm \<noteq> 0" and c2: "n \<le> tag_freeBytes btm"
  shows "\<exists>mem'. RemoveTags btm mem b =
       Some (btm\<lparr>tag_freeBlocks := tag_freeBlocks btm - 1,
                  tag_freeBytes := tag_freeBytes btm - n\<rparr>, mem')
     \<and> same_outside mem mem' (unat b) (unat b + unat n)"
proof -
  define f where "f = b + n - sizeof_FreedBlock"
  have uf: "unat f = unat b + unat n - 20"
    using unat_footer [OF bk pl] by (simp add: f_def)
  from bk have n: "40 \<le> unat n" and v: "IsValidSize n"
    by (simp_all add: blk_ok_def IsValidSize_unat)
  from t have s: "Size mem b = n" by (simp add: tagged_def)
  have ft: "Footer mem b = f" by (simp add: Footer_def s f_def)
  define mem' where "mem' = FreedBlock_delete (FreedBlock_delete mem b) f"
  define X N where "X = unat b" and "N = unat n"
  have ufx: "unat f = X + N - 20" by (simp add: uf X_def N_def)
  have n': "40 \<le> N" using n by (simp add: N_def)
  have so: "same_outside mem mem' (unat b) (unat b + unat n)"
    unfolding same_outside_def mem'_def FreedBlock_delete_def ufx X_def [symmetric] N_def [symmetric]
    using n' by auto
  have val: "BoundaryTagManager_Validate btm mem b = Some ()"
    using t v c1 c2 by (rule BoundaryTagManager_Validate_tagged)
  have "RemoveTags btm mem b =
       Some (btm\<lparr>tag_freeBlocks := tag_freeBlocks btm - 1,
                  tag_freeBytes := tag_freeBytes btm - n\<rparr>, mem')"
    using c1 c2 by (simp add: RemoveTags_def Let_def val s ft mem'_def debug_assert_def)
  with so show ?thesis by blast
qed

lemma FreedBlock_delete_fields:
  "prev (FreedBlock_delete mem r) r = 0" "next' (FreedBlock_delete mem r) r = 0"
  "m_id (FreedBlock_delete mem r) r = 0" "m_magic (FreedBlock_delete mem r) r = 0"
  "Size (FreedBlock_delete mem r) r = NOT 0"
  by (simp_all add: FreedBlock_delete_def prev_def next'_def m_id_def m_magic_def Size_def)

lemma FreedBlock_delete_other:
  assumes "unat f + 20 \<le> unat b \<or> unat b + 20 \<le> unat f"
  shows "prev (FreedBlock_delete mem f) b = prev mem b" "next' (FreedBlock_delete mem f) b = next' mem b"
  "m_id (FreedBlock_delete mem f) b = m_id mem b" "m_magic (FreedBlock_delete mem f) b = m_magic mem b"
  "Size (FreedBlock_delete mem f) b = Size mem b"
  using assms
  by (auto simp: FreedBlock_delete_def prev_def next'_def m_id_def m_magic_def Size_def)

lemma heap_w1_tagged: "tagged heap_w1 (0x10000, 64)"
  by (simp add: tagged_iff heap_w1_def FreedBlock_new_def sizeof_FreedBlock_def)

lemma sorted_ins:
  assumes s: "sorted_wrt (<) xs" and b: "b \<notin> set xs"
  shows "sorted_wrt (<) (ins b (xs :: addr list))"
proof -
  define as where "as = takeWhile (\<lambda>x. \<not> b < x) xs"
  define bs where "bs = dropWhile (\<lambda>x. \<not> b < x) xs"
  have xs: "xs = as @ bs" by (simp add: as_def bs_def)
  have i: "ins b xs = as @ b # bs" by (simp add: ins_def as_def bs_def)
  have a: "\<forall>x\<in>set as. x < b"
  proof
    fix x assume x: "x \<in> set as"
    then have "\<not> b < x" unfolding as_def by (rule set_takeWhileD [THEN conjunct2])
    moreover from x b have "x \<noteq> b" by (auto simp: xs)
    ultimately show "x < b" by auto
  qed
  have h: "bs \<noteq> [] \<Longrightarrow> b < hd bs"
    unfolding bs_def using hd_dropWhile [of "\<lambda>x. \<not> b < x" xs] by simp
  have sb: "sorted_wrt (<) bs" using s by (simp add: xs sorted_wrt_append)
  have c: "\<forall>x\<in>set bs. b < x"
  proof (cases bs)
    case Nil then show ?thesis by simp
  next
    case (Cons z zs)
    with h have "b < z" by simp
    with sb Cons show ?thesis by auto
  qed
  show ?thesis
    unfolding i using s a c by (auto simp: xs sorted_wrt_append)
qed

lemma sorted_remove1_addr: "sorted_wrt (<) xs \<Longrightarrow> sorted_wrt (<) (remove1 b (xs :: addr list))"
  by (induction xs) (auto dest: notin_set_remove1)

lemma next_after_ins:
  assumes d: "dlist mem s (ins b xs)"
  shows "next' mem b = hd (dropWhile (\<lambda>x. \<not> b < x) xs @ [s])"
proof -
  define as where "as = takeWhile (\<lambda>x. \<not> b < x) xs"
  define bs where "bs = dropWhile (\<lambda>x. \<not> b < x) xs"
  have "chain mem ((s # as @ [b]) @ (bs @ [s]))"
    using d by (simp add: dlist_def ins_def as_def bs_def)
  then have "next' mem (last (s # as @ [b])) = hd (bs @ [s])"
    unfolding chain_append2 [of mem "s # as @ [b]" "bs @ [s]"] by simp
  then show ?thesis
    by (simp add: bs_def)
qed

lemma cnodes_set: "set (sentinel (rls ! i) # map fst (F i)) = cnodes rls F i"
  by (simp add: cnodes_def)

lemma sep_nov:
  "sep rls F \<Longrightarrow> i < 32 \<Longrightarrow> j < 32 \<Longrightarrow> x \<in> cnodes rls F i \<Longrightarrow> y \<in> cnodes rls F j \<Longrightarrow> nov x y"
  unfolding sep_def novs_def by blast

lemma sep_novs: "sep rls F \<Longrightarrow> i < 32 \<Longrightarrow> novs (cnodes rls F i)"
  unfolding novs_def by (blast intro: sep_nov)

lemma sep_notin:
  "sep rls F \<Longrightarrow> i < 32 \<Longrightarrow> j < 32 \<Longrightarrow> i \<noteq> j \<Longrightarrow> x \<in> cnodes rls F i \<Longrightarrow> x \<notin> cnodes rls F j"
  unfolding sep_def by blast

lemma rl_ok_same_outside:
  assumes ok: "rl_ok mem rl xs" and so: "same_outside mem mem' lo hi"
    and out: "\<forall>y\<in>set (sentinel rl # map fst xs). unat y + 20 \<le> lo \<or> hi \<le> unat y"
  shows "rl_ok mem' rl xs"
proof -
  have "chain mem' (sentinel rl # map fst xs @ [sentinel rl]) =
        chain mem (sentinel rl # map fst xs @ [sentinel rl])"
    using so by (rule chain_same_outside) (use out in auto)
  moreover have "\<forall>x\<in>set xs. Size mem' (fst x) = Size mem (fst x)"
    using out by (auto intro!: same_outside_fields [OF so])
  ultimately show ?thesis
    using ok by (simp add: rl_ok_def dlist_def)
qed

lemma rl_ok_link_out:
  assumes ok: "rl_ok mem rl xs"
    and p: "pred \<notin> set (sentinel rl # map fst xs)" and s: "succ \<notin> set (sentinel rl # map fst xs)"
    and n: "\<forall>y\<in>set (sentinel rl # map fst xs). nov y pred \<and> nov y succ"
  shows "rl_ok (link_out mem pred succ) rl xs"
proof -
  have "chain (link_out mem pred succ) (sentinel rl # map fst xs @ [sentinel rl])"
    using ok p s n
    by (intro chain_link_out) (auto simp: rl_ok_def dlist_def dest: in_set_butlastD)
  moreover have "\<forall>x\<in>set xs. Size (link_out mem pred succ) (fst x) = Size mem (fst x)"
    using n by (auto intro!: Size_link_out)
  ultimately show ?thesis
    using ok by (simp add: rl_ok_def dlist_def)
qed

lemma rl_ok_link_in:
  assumes ok: "rl_ok mem rl xs"
    and b: "b \<notin> set (sentinel rl # map fst xs)"
    and p: "pred \<notin> set (sentinel rl # map fst xs)" and s: "succ \<notin> set (sentinel rl # map fst xs)"
    and n: "\<forall>y\<in>set (sentinel rl # map fst xs). nov y b \<and> nov y pred \<and> nov y succ"
  shows "rl_ok (link_in mem pred b succ) rl xs"
proof -
  have "chain (link_in mem pred b succ) (sentinel rl # map fst xs @ [sentinel rl])"
    using ok b p s n
    by (intro chain_link_in) (auto simp: rl_ok_def dlist_def dest: in_set_butlastD)
  moreover have "\<forall>x\<in>set xs. Size (link_in mem pred b succ) (fst x) = Size mem (fst x)"
    using n by (auto intro!: Size_link_in)
  ultimately show ?thesis
    using ok by (simp add: rl_ok_def dlist_def)
qed

lemma rl_ok_counts:
  assumes "rl_ok mem rl xs" and "x \<in> set xs"
  shows "m_freeBlocks rl \<noteq> 0" and "snd x \<le> m_freeBytes rl"
    and "unat (m_freeBlocks rl - 1) = length (remove1 x xs)"
    and "unat (m_freeBytes rl - snd x) = sum_list (map (\<lambda>x. unat (snd x)) (remove1 x xs))"
proof -
  from assms have l: "unat (m_freeBlocks rl) = length xs"
    and s: "unat (m_freeBytes rl) = sum_list (map (\<lambda>x. unat (snd x)) xs)"
    by (simp_all add: rl_ok_def)
  from assms(2) have l1: "Suc (length (remove1 x xs)) = length xs"
    by (rule length_remove1_blk)
  from assms(2) have s1: "unat (snd x) + sum_list (map (\<lambda>x. unat (snd x)) (remove1 x xs)) =
      sum_list (map (\<lambda>x. unat (snd x)) xs)"
    by (rule sum_remove1_blk)
  from l l1 show n0: "m_freeBlocks rl \<noteq> 0" by (auto simp: unat_eq_0 [symmetric] simp del: unat_eq_0)
  from s s1 show le: "snd x \<le> m_freeBytes rl" by (simp add: word_le_nat_alt)
  from n0 have "1 \<le> m_freeBlocks rl" by (simp add: word_le_nat_alt unat_gt_0 Suc_le_eq)
  then have "unat (m_freeBlocks rl - 1) = unat (m_freeBlocks rl) - 1"
    by (simp add: unat_sub)
  with l l1 show "unat (m_freeBlocks rl - 1) = length (remove1 x xs)" by simp
  from le have "unat (m_freeBytes rl - snd x) = unat (m_freeBytes rl) - unat (snd x)"
    by (simp add: unat_sub)
  with s s1 show "unat (m_freeBytes rl - snd x) = sum_list (map (\<lambda>x. unat (snd x)) (remove1 x xs))"
    by simp
qed

lemma rl_ok_Remove:
  assumes ok: "rl_ok mem rl xs" and x: "x \<in> set xs"
    and n: "novs (set (sentinel rl # map fst xs))"
  shows "\<exists>pred\<in>set (sentinel rl # map fst xs) - {fst x}.
         \<exists>succ\<in>set (sentinel rl # map fst xs) - {fst x}. \<exists>rl'.
     RangeList_Remove rl mem (fst x) = Some (rl', link_out mem pred succ) \<and>
     sentinel rl' = sentinel rl \<and> (m_freeBlocks rl' = 0) = (remove1 x xs = []) \<and>
     rl_ok (link_out mem pred succ) rl' (remove1 x xs)"
proof -
  from ok have d: "dlist mem (sentinel rl) (map fst xs)"
    and z: "\<forall>x\<in>set xs. Size mem (fst x) = snd x"
    by (simp_all add: rl_ok_def)
  from x have b: "fst x \<in> set (map fst xs)" by simp
  from z x have sx: "Size mem (fst x) = snd x" by simp
  note c = rl_ok_counts [OF ok x]
  from c(2) have k2: "Size mem (fst x) \<le> m_freeBytes rl" by (simp add: sx)
  from RangeList_Remove_dlist [OF d b n c(1) k2]
  obtain pred succ where pm: "pred \<in> set (sentinel rl # map fst xs) - {fst x}"
      "succ \<in> set (sentinel rl # map fst xs) - {fst x}"
    and run: "RangeList_Remove rl mem (fst x) =
       Some (rl\<lparr>m_freeBlocks := m_freeBlocks rl - 1,
                m_freeBytes := m_freeBytes rl - Size mem (fst x)\<rparr>, link_out mem pred succ)"
    and d': "dlist (link_out mem pred succ) (sentinel rl) (remove1 (fst x) (map fst xs))"
    by blast
  let ?rl = "rl\<lparr>m_freeBlocks := m_freeBlocks rl - 1, m_freeBytes := m_freeBytes rl - Size mem (fst x)\<rparr>"
  from d have dist: "distinct (map fst xs)" by (simp add: dlist_def)
  have m: "map fst (remove1 x xs) = remove1 (fst x) (map fst xs)"
    using dist x by (rule map_fst_remove1)
  have nv: "\<And>u v. u \<in> set (sentinel rl # map fst xs) \<Longrightarrow> v \<in> set (sentinel rl # map fst xs) \<Longrightarrow> nov u v"
    using n by (rule novsD)
  have sz: "\<forall>y\<in>set (remove1 x xs). Size (link_out mem pred succ) (fst y) = snd y"
  proof
    fix y assume "y \<in> set (remove1 x xs)"
    then have y: "y \<in> set xs" using set_remove1_subset [of x xs] by blast
    then have fy: "fst y \<in> set (sentinel rl # map fst xs)" by simp
    from pm have "pred \<in> set (sentinel rl # map fst xs)" "succ \<in> set (sentinel rl # map fst xs)"
      by blast+
    with fy have "nov (fst y) pred" "nov (fst y) succ"
      by (blast intro: nv)+
    then show "Size (link_out mem pred succ) (fst y) = snd y"
      using z y by (simp add: Size_link_out)
  qed
  have e: "(m_freeBlocks ?rl = 0) = (remove1 x xs = [])"
    using c(3) by (simp add: unat_eq_0 [symmetric] del: unat_eq_0)
  have "rl_ok (link_out mem pred succ) ?rl (remove1 x xs)"
    using d' sz c(3,4) by (simp add: rl_ok_def m sx)
  with pm run e show ?thesis by (intro bexI [of _ pred] bexI [of _ succ] exI [of _ ?rl]) simp_all
qed

lemma rl_ok_Insert:
  assumes ok: "rl_ok mem rl xs" and b: "fst x \<notin> set (sentinel rl # map fst xs)"
    and n: "novs (insert (fst x) (set (sentinel rl # map fst xs)))"
    and sx: "Size mem (fst x) = snd x"
    and k1: "length xs + 1 < 2 ^ 32"
    and k2: "sum_list (map (\<lambda>x. unat (snd x)) xs) + unat (snd x) < 2 ^ 32"
  shows "\<exists>pred\<in>set (sentinel rl # map fst xs).
         \<exists>succ\<in>set (sentinel rl # map fst xs). \<exists>rl'.
     RangeList_Insert rl mem (fst x) = Some (rl', link_in mem pred (fst x) succ) \<and>
     sentinel rl' = sentinel rl \<and>
     rl_ok (link_in mem pred (fst x) succ) rl' (ins_blk x xs)"
proof -
  from ok have d: "dlist mem (sentinel rl) (map fst xs)"
    and z: "\<forall>x\<in>set xs. Size mem (fst x) = snd x"
    and l: "unat (m_freeBlocks rl) = length xs"
    and s: "unat (m_freeBytes rl) = sum_list (map (\<lambda>x. unat (snd x)) xs)"
    by (simp_all add: rl_ok_def)
  from RangeList_Insert_dlist [OF d b n]
  obtain pred succ where pm: "pred \<in> set (sentinel rl # map fst xs)"
      "succ \<in> set (sentinel rl # map fst xs)"
    and run: "RangeList_Insert rl mem (fst x) =
       Some (rl\<lparr>m_freeBlocks := m_freeBlocks rl + 1,
                m_freeBytes := m_freeBytes rl + Size mem (fst x)\<rparr>, link_in mem pred (fst x) succ)"
    and d': "dlist (link_in mem pred (fst x) succ) (sentinel rl) (ins (fst x) (map fst xs))"
    by blast
  let ?rl = "rl\<lparr>m_freeBlocks := m_freeBlocks rl + 1, m_freeBytes := m_freeBytes rl + Size mem (fst x)\<rparr>"
  let ?N = "insert (fst x) (set (sentinel rl # map fst xs))"
  have nv: "\<And>u v. u \<in> ?N \<Longrightarrow> v \<in> ?N \<Longrightarrow> nov u v"
    using n by (rule novsD)
  have pN: "pred \<in> ?N" "succ \<in> ?N" "fst x \<in> ?N" using pm by blast+
  have sz: "\<forall>y\<in>set (ins_blk x xs). Size (link_in mem pred (fst x) succ) (fst y) = snd y"
  proof
    fix y assume "y \<in> set (ins_blk x xs)"
    then have y: "y = x \<or> y \<in> set xs" by simp
    then have "fst y \<in> ?N" by auto
    with pN have "nov (fst y) (fst x)" "nov (fst y) pred" "nov (fst y) succ"
      by (blast intro: nv)+
    then have "Size (link_in mem pred (fst x) succ) (fst y) = Size mem (fst y)"
      by (rule Size_link_in)
    with y z sx show "Size (link_in mem pred (fst x) succ) (fst y) = snd y" by auto
  qed
  have c1: "unat (m_freeBlocks rl + 1) = Suc (length xs)"
    using k1 l unat_add_no_wrap [of "m_freeBlocks rl" 1] by simp
  have c2: "unat (m_freeBytes rl + snd x) = unat (snd x) + sum_list (map (\<lambda>x. unat (snd x)) xs)"
    using k2 s unat_add_no_wrap [of "m_freeBytes rl" "snd x"] by simp
  have "rl_ok (link_in mem pred (fst x) succ) ?rl (ins_blk x xs)"
    using d' sz c1 c2 by (simp add: rl_ok_def map_fst_ins_blk sx)
  with pm run show ?thesis by (intro bexI [of _ pred] bexI [of _ succ] exI [of _ ?rl]) simp_all
qed

lemma BIT_word: "c < 32 \<Longrightarrow> (word_of_nat (BIT c) :: 32 word) = 2 ^ c"
  by (simp add: BIT_def)

lemma bit_or_BIT:
  "c < 32 \<Longrightarrow> bit (w OR (word_of_nat (BIT c) :: 32 word)) i = (bit w i \<or> i = c)"
  by (auto simp: BIT_word bit_simps)

lemma bit_and_not_BIT:
  "c < 32 \<Longrightarrow> bit (w AND NOT (word_of_nat (BIT c) :: 32 word)) i = (bit w i \<and> i \<noteq> c)"
  by (auto simp: BIT_word bit_simps dest: bit_imp_le_length)

lemma and_BIT_eq_0:
  "c < 32 \<Longrightarrow> (w AND (word_of_nat (BIT c) :: 32 word) = 0) = (\<not> bit w c)"
  by (simp add: BIT_word and_exp_eq_0_iff_not_bit)

lemma SizeClass_le_31:
  assumes "unat n \<le> 2 ^ 31" shows "SizeClass n < 32"
proof (rule ccontr)
  assume "\<not> SizeClass n < 32"
  then have c: "32 \<le> SizeClass n" by simp
  then have "(2::nat) ^ 31 \<le> 2 ^ (SizeClass n - 1)"
    by (intro power_increasing) auto
  moreover from c SizeClass_props [of n] have "2 ^ (SizeClass n - 1) < unat n" by auto
  ultimately show False using assms by linarith
qed

lemma inv_geo: "inv st F \<Longrightarrow> geo (m_pool st) (m_rangeLists (m_segregatedRangeLists st)) F"
  by (simp add: inv_def geo_def srl_ok_def)

lemma geoD:
  assumes "geo pool rls F"
  shows "pool_ok pool" and "sent_ok pool rls"
    and "\<And>i x. i < 32 \<Longrightarrow> x \<in> set (F i) \<Longrightarrow> blk_ok pool x"
    and "\<And>i x. i < 32 \<Longrightarrow> x \<in> set (F i) \<Longrightarrow> SizeClass (snd x) = i"
    and "\<And>i j x y. i < 32 \<Longrightarrow> j < 32 \<Longrightarrow> x \<in> set (F i) \<Longrightarrow> y \<in> set (F j) \<Longrightarrow> x \<noteq> y \<Longrightarrow> disjoint_blk x y"
  using assms unfolding geo_def by blast+

text \<open>A sentinel lies outside every block of the pool.\<close>

lemma sent_out_blk:
  assumes "pool_ok pool" and "sent_ok pool rls" and "i < 32" and "blk_ok pool y"
  shows "unat (sentinel (rls ! i)) + 20 \<le> unat (fst y) \<or>
         unat (fst y) + unat (snd y) \<le> unat (sentinel (rls ! i))"
proof -
  from assms(2,3) have "unat (sentinel (rls ! i)) + 20 \<le> unat (base pool) \<or>
      unat (base pool) + unat (max_size pool) \<le> unat (sentinel (rls ! i))"
    by (simp add: sent_ok_def)
  moreover from assms(1) have "unat (pos pool) \<le> unat (max_size pool)" by (simp add: pool_ok_def)
  moreover from assms(4) have "unat (base pool) \<le> unat (fst y)"
    "unat (fst y) + unat (snd y) \<le> unat (base pool) + unat (pos pool)"
    by (simp_all add: blk_ok_def)
  ultimately show ?thesis by linarith
qed

text \<open>The header of a block lies outside every block disjoint from it.\<close>

lemma blk_out_blk:
  assumes "blk_ok pool z" and "disjoint_blk z y"
  shows "unat (fst z) + 20 \<le> unat (fst y) \<or> unat (fst y) + unat (snd y) \<le> unat (fst z)"
  using assms by (auto simp: blk_ok_def disjoint_blk_def)

lemma disjoint_blk_sym: "disjoint_blk x y = disjoint_blk y x"
  by (auto simp: disjoint_blk_def)

lemma not_disjoint_self: "blk_ok pool x \<Longrightarrow> \<not> disjoint_blk x x"
  by (simp add: blk_ok_def disjoint_blk_def)

lemma disjoint_fst_neq: "blk_ok pool x \<Longrightarrow> blk_ok pool y \<Longrightarrow> disjoint_blk x y \<Longrightarrow> fst x \<noteq> fst y"
  by (auto simp: blk_ok_def disjoint_blk_def)

lemma geo_node_blk:
  assumes g: "geo pool rls F" and i: "i < 32" and a: "a \<in> cnodes rls F i"
    and y: "blk_ok pool y"
    and d: "\<forall>j<32. \<forall>z\<in>set (F j). z \<noteq> y \<longrightarrow> disjoint_blk z y"
  shows "a = fst y \<or> unat a + 20 \<le> unat (fst y) \<or> unat (fst y) + unat (snd y) \<le> unat a"
proof (cases "a = sentinel (rls ! i)")
  case True
  then show ?thesis
    using sent_out_blk [OF geoD(1,2) [OF g] i y] by simp
next
  case False
  with a obtain z where z: "z \<in> set (F i)" and az: "a = fst z"
    by (auto simp: cnodes_def)
  show ?thesis
  proof (cases "z = y")
    case True with az show ?thesis by simp
  next
    case False
    with d i z have "disjoint_blk z y" by blast
    with geoD(3) [OF g i z] show ?thesis
      unfolding az by (blast dest: blk_out_blk)
  qed
qed

lemma geo_node_fresh:
  assumes g: "geo pool rls F" and i: "i < 32" and a: "a \<in> cnodes rls F i"
    and y: "blk_ok pool y" and f: "fresh_blk F y"
  shows "unat a + 20 \<le> unat (fst y) \<or> unat (fst y) + unat (snd y) \<le> unat a"
proof (cases "a = sentinel (rls ! i)")
  case True
  then show ?thesis
    using sent_out_blk [OF geoD(1,2) [OF g] i y] by simp
next
  case False
  with a obtain z where z: "z \<in> set (F i)" and az: "a = fst z"
    by (auto simp: cnodes_def)
  from f i z have "disjoint_blk y z" by (simp add: fresh_blk_def)
  then have "disjoint_blk z y" by (simp only: disjoint_blk_sym)
  with geoD(3) [OF g i z] show ?thesis
    unfolding az by (blast dest: blk_out_blk)
qed

lemma geo_node_tracked:
  assumes g: "geo pool rls F" and i: "i < 32" and a: "a \<in> cnodes rls F i"
    and j: "j < 32" and y: "y \<in> set (F j)"
  shows "a = fst y \<or> unat a + 20 \<le> unat (fst y) \<or> unat (fst y) + unat (snd y) \<le> unat a"
  using g i a geoD(3) [OF g j y]
proof (rule geo_node_blk)
  show "\<forall>k<32. \<forall>z\<in>set (F k). z \<noteq> y \<longrightarrow> disjoint_blk z y"
    using geoD(5) [OF g _ j _ y] by blast
qed

lemma out_nov:
  "unat a + 20 \<le> unat (fst y) \<or> unat (fst y) + unat (snd y) \<le> unat a \<Longrightarrow> blk_ok pool y \<Longrightarrow>
   nov a (fst y) \<and> a \<noteq> fst y"
  by (auto simp: nov_def blk_ok_def)

lemma geo_sent_sent:
  assumes g: "geo pool rls F" and i: "i < 32" and j: "j < 32"
  shows "nov (sentinel (rls ! i)) (sentinel (rls ! j))"
    and "i \<noteq> j \<Longrightarrow> sentinel (rls ! i) \<noteq> sentinel (rls ! j)"
proof -
  from geoD(2) [OF g] i j
  have s: "i \<noteq> j \<Longrightarrow> unat (sentinel (rls ! i)) + 20 \<le> unat (sentinel (rls ! j)) \<or>
          unat (sentinel (rls ! j)) + 20 \<le> unat (sentinel (rls ! i))"
    by (simp add: sent_ok_def)
  then show "nov (sentinel (rls ! i)) (sentinel (rls ! j))"
    by (cases "i = j") (auto simp: nov_def)
  from s show "i \<noteq> j \<Longrightarrow> sentinel (rls ! i) \<noteq> sentinel (rls ! j)" by auto
qed

lemma geo_fst_class:
  assumes g: "geo pool rls F" and i: "i < 32" and j: "j < 32"
    and x: "x \<in> set (F i)" and y: "y \<in> set (F j)" and e: "fst x = fst y"
  shows "x = y" and "i = j"
proof -
  show xy: "x = y"
  proof (rule ccontr)
    assume "x \<noteq> y"
    then have "disjoint_blk x y" using geoD(5) [OF g i j x y] by simp
    with geoD(3) [OF g i x] geoD(3) [OF g j y] e show False
      by (simp add: disjoint_fst_neq)
  qed
  from geoD(4) [OF g i x] geoD(4) [OF g j y] xy show "i = j" by simp
qed

lemma geo_nov:
  assumes g: "geo pool rls F" and i: "i < 32" and j: "j < 32"
    and a: "a \<in> cnodes rls F i" and b: "b \<in> cnodes rls F j"
  shows "nov a b" and "i \<noteq> j \<Longrightarrow> a \<noteq> b"
proof -
  have "nov a b \<and> (i \<noteq> j \<longrightarrow> a \<noteq> b)"
  proof (cases "b = sentinel (rls ! j)")
    case bs: True
    show ?thesis
    proof (cases "a = sentinel (rls ! i)")
      case True
      with bs geo_sent_sent [OF g i j] show ?thesis by simp
    next
      case False
      with a obtain z where z: "z \<in> set (F i)" and az: "a = fst z"
        by (auto simp: cnodes_def)
      from sent_out_blk [OF geoD(1,2) [OF g] j geoD(3) [OF g i z]]
      have "nov b (fst z) \<and> b \<noteq> fst z"
        unfolding bs by (rule out_nov) (rule geoD(3) [OF g i z])
      then show ?thesis by (auto simp: az dest: nov_sym)
    qed
  next
    case False
    with b obtain y where y: "y \<in> set (F j)" and bf: "b = fst y"
      by (auto simp: cnodes_def)
    from geo_node_tracked [OF g i a j y]
    have c: "a = fst y \<or> unat a + 20 \<le> unat (fst y) \<or> unat (fst y) + unat (snd y) \<le> unat a" .
    show ?thesis
    proof (cases "a = fst y")
      case True
      have "i \<noteq> j \<Longrightarrow> False"
      proof -
        assume ij: "i \<noteq> j"
        show False
        proof (cases "a = sentinel (rls ! i)")
          case s: True
          from sent_out_blk [OF geoD(1,2) [OF g] i geoD(3) [OF g j y]]
          have "a \<noteq> fst y" unfolding s [symmetric] using geoD(3) [OF g j y] by (auto simp: blk_ok_def)
          with True show False by simp
        next
          case False
          with a obtain z where z: "z \<in> set (F i)" and az: "a = fst z"
            by (auto simp: cnodes_def)
          from geo_fst_class(2) [OF g i j z y] az True ij show False by simp
        qed
      qed
      with True show ?thesis by (auto simp: bf)
    next
      case False
      with c have "unat a + 20 \<le> unat (fst y) \<or> unat (fst y) + unat (snd y) \<le> unat a" by simp
      then have "nov a (fst y) \<and> a \<noteq> fst y"
        by (rule out_nov) (rule geoD(3) [OF g j y])
      then show ?thesis by (simp add: bf)
    qed
  qed
  then show "nov a b" and "i \<noteq> j \<Longrightarrow> a \<noteq> b" by simp_all
qed

lemma geo_sep: "geo pool rls F \<Longrightarrow> sep rls F"
  unfolding sep_def novs_def
  by (auto dest: geo_nov)

lemma geo_sentinels:
  assumes "geo pool rls F" and "\<forall>i<32. sentinel (rls' ! i) = sentinel (rls ! i)"
  shows "geo pool rls' F"
  using assms by (simp add: geo_def sent_ok_def)

lemma geo_remove:
  assumes g: "geo pool rls F"
  shows "geo pool rls (F(c := remove1 x (F c)))"
proof -
  have s: "\<And>i. set ((F(c := remove1 x (F c))) i) \<subseteq> set (F i)"
    using set_remove1_subset [of x "F c"] by auto
  show ?thesis
    unfolding geo_def
  proof (intro conjI allI impI ballI)
    show "pool_ok pool" "sent_ok pool rls" using g by (simp_all add: geo_def)
  next
    fix i y assume "i < 32" "y \<in> set ((F(c := remove1 x (F c))) i)"
    with s have "i < 32" "y \<in> set (F i)" by blast+
    then show "blk_ok pool y" "SizeClass (snd y) = i" using geoD(3,4) [OF g] by blast+
  next
    fix i j y z assume "i < 32" "j < 32" "y \<in> set ((F(c := remove1 x (F c))) i)"
      "z \<in> set ((F(c := remove1 x (F c))) j)" "y \<noteq> z"
    with s have "i < 32" "j < 32" "y \<in> set (F i)" "z \<in> set (F j)" "y \<noteq> z" by blast+
    then show "disjoint_blk y z" by (rule geoD(5) [OF g])
  qed
qed

lemma geo_ins:
  assumes g: "geo pool rls F" and x: "blk_ok pool x" and f: "fresh_blk F x"
    and c: "c = SizeClass (snd x)"
  shows "geo pool rls (F(c := ins_blk x (F c)))"
proof -
  have s: "\<And>i y. y \<in> set ((F(c := ins_blk x (F c))) i) \<Longrightarrow> (y = x \<and> i = c) \<or> y \<in> set (F i)"
    by (auto split: if_splits)
  have fx: "\<And>i y. i < 32 \<Longrightarrow> y \<in> set (F i) \<Longrightarrow> disjoint_blk x y \<and> disjoint_blk y x"
    using f by (simp add: fresh_blk_def disjoint_blk_sym [of x])
  show ?thesis
    unfolding geo_def
  proof (intro conjI allI impI ballI)
    show "pool_ok pool" "sent_ok pool rls" using g by (simp_all add: geo_def)
  next
    fix i y assume i: "i < 32" and "y \<in> set ((F(c := ins_blk x (F c))) i)"
    then have "(y = x \<and> i = c) \<or> y \<in> set (F i)" by (blast dest: s)
    then show "blk_ok pool y" "SizeClass (snd y) = i"
      using geoD(3,4) [OF g i] x c by blast+
  next
    fix i j y z assume i: "i < 32" and j: "j < 32" and "y \<in> set ((F(c := ins_blk x (F c))) i)"
      and "z \<in> set ((F(c := ins_blk x (F c))) j)" and ne: "y \<noteq> z"
    then have "(y = x \<and> i = c) \<or> y \<in> set (F i)" "(z = x \<and> j = c) \<or> z \<in> set (F j)"
      by (blast dest: s)+
    then show "disjoint_blk y z"
      using geoD(5) [OF g i j] fx i j ne by blast
  qed
qed

lemma fresh_notin: "fresh_blk F x \<Longrightarrow> blk_ok pool x \<Longrightarrow> i < 32 \<Longrightarrow> x \<notin> set (F i)"
  using not_disjoint_self [of pool x] by (auto simp: fresh_blk_def)

lemma geo_fresh_node:
  assumes g: "geo pool rls F" and x: "blk_ok pool x" and f: "fresh_blk F x" and i: "i < 32"
  shows "fst x \<notin> cnodes rls F i"
proof
  assume "fst x \<in> cnodes rls F i"
  from geo_node_fresh [OF g i this x f] x show False by (simp add: blk_ok_def)
qed

lemma cnodes_upd_other: "i \<noteq> c \<Longrightarrow> cnodes rls (F(c := ys)) i = cnodes rls F i"
  by (simp add: cnodes_def)

lemma cnodes_list_upd:
  "\<forall>i<32. sentinel (rls' ! i) = sentinel (rls ! i) \<Longrightarrow> i < 32 \<Longrightarrow> cnodes rls' F i = cnodes rls F i"
  by (simp add: cnodes_def)

lemma srl_ok_same_outside:
  assumes ok: "srl_ok mem srl F" and so: "same_outside mem mem' lo hi"
    and out: "\<forall>i<32. \<forall>y\<in>cnodes (m_rangeLists srl) F i. unat y + 20 \<le> lo \<or> hi \<le> unat y"
  shows "srl_ok mem' srl F"
proof -
  have "\<And>i. i < 32 \<Longrightarrow> rl_ok mem' (m_rangeLists srl ! i) (F i)"
  proof -
    fix i :: nat assume i: "i < 32"
    with ok have "rl_ok mem (m_rangeLists srl ! i) (F i)" by (simp add: srl_ok_def)
    then show "rl_ok mem' (m_rangeLists srl ! i) (F i)"
      using so
    proof (rule rl_ok_same_outside)
      show "\<forall>y\<in>set (sentinel (m_rangeLists srl ! i) # map fst (F i)). unat y + 20 \<le> lo \<or> hi \<le> unat y"
        using out i unfolding cnodes_set by blast
    qed
  qed
  with ok show ?thesis by (simp add: srl_ok_def)
qed

lemma tagged_link_out:
  assumes t: "tagged mem x" and b: "blk_ok pool x" and p: "pool_ok pool"
    and c1: "pred = fst x \<or> unat pred + 20 \<le> unat (fst x) \<or> unat (fst x) + unat (snd x) \<le> unat pred"
    and c2: "succ = fst x \<or> unat succ + 20 \<le> unat (fst x) \<or> unat (fst x) + unat (snd x) \<le> unat succ"
  shows "tagged (link_out mem pred succ) x"
  unfolding link_out_def
  by (intro tagged_set_link(1) [OF _ b p c1] tagged_set_link(2) [OF _ b p c2] t)

lemma tagged_link_in:
  assumes t: "tagged mem x" and b: "blk_ok pool x" and p: "pool_ok pool"
    and c0: "a = fst x \<or> unat a + 20 \<le> unat (fst x) \<or> unat (fst x) + unat (snd x) \<le> unat a"
    and c1: "pred = fst x \<or> unat pred + 20 \<le> unat (fst x) \<or> unat (fst x) + unat (snd x) \<le> unat pred"
    and c2: "succ = fst x \<or> unat succ + 20 \<le> unat (fst x) \<or> unat (fst x) + unat (snd x) \<le> unat succ"
  shows "tagged (link_in mem pred a succ) x"
  unfolding link_in_def
  by (intro tagged_set_link(1) [OF _ b p c1] tagged_set_link(1) [OF _ b p c0]
      tagged_set_link(2) [OF _ b p c2] tagged_set_link(2) [OF _ b p c0] t)

lemma srl_ok_Remove:
  assumes ok: "srl_ok mem srl F" and sp: "sep (m_rangeLists srl) F"
    and x: "x \<in> set (F c)" and c: "c < 32"
  shows "\<exists>pred\<in>cnodes (m_rangeLists srl) F c - {fst x}.
         \<exists>succ\<in>cnodes (m_rangeLists srl) F c - {fst x}. \<exists>srl'.
     SegregatedRangeLists_Remove srl mem (fst x) = Some (srl', link_out mem pred succ) \<and>
     (\<forall>i<32. sentinel (m_rangeLists srl' ! i) = sentinel (m_rangeLists srl ! i)) \<and>
     srl_ok (link_out mem pred succ) srl' (F(c := remove1 x (F c)))"
proof -
  let ?rls = "m_rangeLists srl"
  let ?rl = "?rls ! c"
  from ok c have len: "length ?rls = 32" and rc: "rl_ok mem ?rl (F c)"
    and cl: "\<forall>y\<in>set (F c). fst y \<noteq> 0 \<and> SizeClass (snd y) = c"
    and bc: "bit (m_bitmap srl) c = (F c \<noteq> [])"
    by (simp_all add: srl_ok_def)
  from rc x have sx: "Size mem (fst x) = snd x" by (simp add: rl_ok_def)
  from cl x have scx: "SizeClass (snd x) = c" by simp
  have n: "novs (set (sentinel ?rl # map fst (F c)))"
    unfolding cnodes_set using sp c by (rule sep_novs)
  from rl_ok_Remove [OF rc x n]
  obtain pred succ rl' where pm: "pred \<in> cnodes ?rls F c - {fst x}" "succ \<in> cnodes ?rls F c - {fst x}"
    and run: "RangeList_Remove ?rl mem (fst x) = Some (rl', link_out mem pred succ)"
    and s': "sentinel rl' = sentinel ?rl"
    and e: "(m_freeBlocks rl' = 0) = (remove1 x (F c) = [])"
    and r': "rl_ok (link_out mem pred succ) rl' (remove1 x (F c))"
    unfolding cnodes_set by blast
  let ?m = "link_out mem pred succ"
  let ?F = "F(c := remove1 x (F c))"
  define bm where "bm = (if IsEmpty rl' then m_bitmap srl AND NOT (word_of_nat (BIT c)) else m_bitmap srl)"
  let ?srl = "srl\<lparr>m_rangeLists := ?rls[c := rl'], m_bitmap := bm\<rparr>"
  have run2: "SegregatedRangeLists_Remove srl mem (fst x) = Some (?srl, ?m)"
    using c by (simp add: SegregatedRangeLists_Remove_def sx scx len debug_assert_def run bm_def Let_def)
  have sent: "\<forall>i<32. sentinel (m_rangeLists ?srl ! i) = sentinel (?rls ! i)"
    using s' len c by (auto simp: nth_list_update)
  have bits: "\<And>i. i < 32 \<Longrightarrow> bit bm i = (?F i \<noteq> [])"
  proof -
    fix i :: nat assume i: "i < 32"
    from ok i have bi: "bit (m_bitmap srl) i = (F i \<noteq> [])" by (simp add: srl_ok_def)
    from x have ne: "F c \<noteq> []" by auto
    show "bit bm i = (?F i \<noteq> [])"
      using bi bc ne e c by (auto simp: bm_def IsEmpty_def bit_and_not_BIT)
  qed
  have others: "\<And>i. i < 32 \<Longrightarrow> i \<noteq> c \<Longrightarrow> rl_ok ?m (?rls ! i) (F i)"
  proof -
    fix i :: nat assume i: "i < 32" and ic: "i \<noteq> c"
    from ok i have ri: "rl_ok mem (?rls ! i) (F i)" by (simp add: srl_ok_def)
    from pm have pc: "pred \<in> cnodes ?rls F c" "succ \<in> cnodes ?rls F c" by blast+
    show "rl_ok ?m (?rls ! i) (F i)"
      using ri
    proof (rule rl_ok_link_out)
      show "pred \<notin> set (sentinel (?rls ! i) # map fst (F i))"
        unfolding cnodes_set using sep_notin [OF sp c i _ pc(1)] ic by blast
      show "succ \<notin> set (sentinel (?rls ! i) # map fst (F i))"
        unfolding cnodes_set using sep_notin [OF sp c i _ pc(2)] ic by blast
      show "\<forall>y\<in>set (sentinel (?rls ! i) # map fst (F i)). nov y pred \<and> nov y succ"
        unfolding cnodes_set using sep_nov [OF sp i c _ pc(1)] sep_nov [OF sp i c _ pc(2)] by blast
    qed
  qed
  have "srl_ok ?m ?srl ?F"
    unfolding srl_ok_def
  proof (intro conjI allI impI)
    show "length (m_rangeLists ?srl) = 32" using len by simp
  next
    fix i :: nat assume i: "i < 32"
    show "rl_ok ?m (m_rangeLists ?srl ! i) (?F i)"
      using r' others [OF i] len c by (cases "i = c") simp_all
    show "\<forall>y\<in>set (?F i). fst y \<noteq> 0 \<and> SizeClass (snd y) = i"
      using ok i set_remove1_subset [of x "F c"] by (auto simp: srl_ok_def)
    show "bit (m_bitmap ?srl) i = (?F i \<noteq> [])"
      using bits [OF i] by simp
  qed
  with pm run2 sent show ?thesis by blast
qed

lemma srl_ok_Insert:
  assumes ok: "srl_ok mem srl F" and sp: "sep (m_rangeLists srl) (F(c := ins_blk x (F c)))"
    and nx: "fst x \<notin> cnodes (m_rangeLists srl) F c"
    and sx: "Size mem (fst x) = snd x" and cx: "SizeClass (snd x) = c" and c: "c < 32"
    and x0: "fst x \<noteq> 0"
    and k1: "length (F c) + 1 < 2 ^ 32"
    and k2: "sum_list (map (\<lambda>x. unat (snd x)) (F c)) + unat (snd x) < 2 ^ 32"
  shows "\<exists>pred\<in>cnodes (m_rangeLists srl) F c.
         \<exists>succ\<in>cnodes (m_rangeLists srl) F c. \<exists>srl'.
     SegregatedRangeLists_Insert srl mem (fst x) = Some (srl', link_in mem pred (fst x) succ) \<and>
     (\<forall>i<32. sentinel (m_rangeLists srl' ! i) = sentinel (m_rangeLists srl ! i)) \<and>
     srl_ok (link_in mem pred (fst x) succ) srl' (F(c := ins_blk x (F c)))"
proof -
  let ?rls = "m_rangeLists srl"
  let ?rl = "?rls ! c"
  let ?F = "F(c := ins_blk x (F c))"
  from ok c have len: "length ?rls = 32" and rc: "rl_ok mem ?rl (F c)"
    by (simp_all add: srl_ok_def)
  have cn: "cnodes ?rls ?F c = insert (fst x) (cnodes ?rls F c)"
    by (auto simp: cnodes_def)
  have n: "novs (insert (fst x) (set (sentinel ?rl # map fst (F c))))"
    unfolding cnodes_set cn [symmetric] using sp c by (rule sep_novs)
  have b: "fst x \<notin> set (sentinel ?rl # map fst (F c))"
    unfolding cnodes_set by (rule nx)
  from rl_ok_Insert [OF rc b n sx k1 k2]
  obtain pred succ rl' where pm: "pred \<in> cnodes ?rls F c" "succ \<in> cnodes ?rls F c"
    and run: "RangeList_Insert ?rl mem (fst x) = Some (rl', link_in mem pred (fst x) succ)"
    and s': "sentinel rl' = sentinel ?rl"
    and r': "rl_ok (link_in mem pred (fst x) succ) rl' (ins_blk x (F c))"
    unfolding cnodes_set by blast
  let ?m = "link_in mem pred (fst x) succ"
  let ?srl = "srl\<lparr>m_rangeLists := ?rls[c := rl'],
                   m_bitmap := m_bitmap srl OR word_of_nat (BIT c)\<rparr>"
  have run2: "SegregatedRangeLists_Insert srl mem (fst x) = Some (?srl, ?m)"
    using c by (simp add: SegregatedRangeLists_Insert_def sx cx len debug_assert_def run Let_def)
  have sent: "\<forall>i<32. sentinel (m_rangeLists ?srl ! i) = sentinel (?rls ! i)"
    using s' len c by (auto simp: nth_list_update)
  have pc: "pred \<in> cnodes ?rls ?F c" "succ \<in> cnodes ?rls ?F c" "fst x \<in> cnodes ?rls ?F c"
    using pm by (simp_all add: cn)
  have others: "\<And>i. i < 32 \<Longrightarrow> i \<noteq> c \<Longrightarrow> rl_ok ?m (?rls ! i) (F i)"
  proof -
    fix i :: nat assume i: "i < 32" and ic: "i \<noteq> c"
    from ok i have ri: "rl_ok mem (?rls ! i) (F i)" by (simp add: srl_ok_def)
    have ci: "cnodes ?rls ?F i = cnodes ?rls F i" using ic by (rule cnodes_upd_other)
    show "rl_ok ?m (?rls ! i) (F i)"
      using ri
    proof (rule rl_ok_link_in)
      show "fst x \<notin> set (sentinel (?rls ! i) # map fst (F i))"
        unfolding cnodes_set ci [symmetric] using sep_notin [OF sp c i _ pc(3)] ic by blast
      show "pred \<notin> set (sentinel (?rls ! i) # map fst (F i))"
        unfolding cnodes_set ci [symmetric] using sep_notin [OF sp c i _ pc(1)] ic by blast
      show "succ \<notin> set (sentinel (?rls ! i) # map fst (F i))"
        unfolding cnodes_set ci [symmetric] using sep_notin [OF sp c i _ pc(2)] ic by blast
      show "\<forall>y\<in>set (sentinel (?rls ! i) # map fst (F i)).
          nov y (fst x) \<and> nov y pred \<and> nov y succ"
        unfolding cnodes_set ci [symmetric]
        using sep_nov [OF sp i c _ pc(1)] sep_nov [OF sp i c _ pc(2)] sep_nov [OF sp i c _ pc(3)]
        by blast
    qed
  qed
  have "srl_ok ?m ?srl ?F"
    unfolding srl_ok_def
  proof (intro conjI allI impI)
    show "length (m_rangeLists ?srl) = 32" using len by simp
  next
    fix i :: nat assume i: "i < 32"
    show "rl_ok ?m (m_rangeLists ?srl ! i) (?F i)"
      using r' others [OF i] len c by (cases "i = c") simp_all
    show "\<forall>y\<in>set (?F i). fst y \<noteq> 0 \<and> SizeClass (snd y) = i"
      using ok i x0 cx by (auto simp: srl_ok_def)
    from ok i have "bit (m_bitmap srl) i = (F i \<noteq> [])" by (simp add: srl_ok_def)
    then show "bit (m_bitmap ?srl) i = (?F i \<noteq> [])"
      using c by (auto simp: bit_or_BIT ins_blk_def)
  qed
  with pm run2 sent show ?thesis by blast
qed

lemma invI:
  assumes "srl_ok (heap st) (m_segregatedRangeLists st) F"
    and "geo (m_pool st) (m_rangeLists (m_segregatedRangeLists st)) F"
    and "\<And>i x. i < 32 \<Longrightarrow> x \<in> set (F i) \<Longrightarrow> tagged (heap st) x"
    and "unat (tag_freeBlocks (m_boundaryTagManager st)) = cnt F"
    and "unat (tag_freeBytes (m_boundaryTagManager st)) = byt F"
    and "unat (m_currentFreeBlocks (m_stats st)) = cnt F"
    and "unat (m_currentFreeBytes (m_stats st)) = byt F"
    and "stats_ok (m_stats st)"
  shows "inv st F"
  using assms unfolding inv_def geo_def by blast

lemma invD:
  assumes "inv st F"
  shows "srl_ok (heap st) (m_segregatedRangeLists st) F"
    and "pool_ok (m_pool st)"
    and "\<And>i x. i < 32 \<Longrightarrow> x \<in> set (F i) \<Longrightarrow> blk_ok (m_pool st) x"
    and "\<And>i x. i < 32 \<Longrightarrow> x \<in> set (F i) \<Longrightarrow> tagged (heap st) x"
    and "unat (tag_freeBlocks (m_boundaryTagManager st)) = cnt F"
    and "unat (tag_freeBytes (m_boundaryTagManager st)) = byt F"
    and "unat (m_currentFreeBlocks (m_stats st)) = cnt F"
    and "unat (m_currentFreeBytes (m_stats st)) = byt F"
    and "stats_ok (m_stats st)"
  using assms unfolding inv_def by blast+

lemma srl_distinct:
  "srl_ok mem srl F \<Longrightarrow> i < 32 \<Longrightarrow> distinct (map fst (F i))"
  by (simp add: srl_ok_def rl_ok_def dlist_def)

lemma fst_notin_remove1:
  assumes "distinct (map fst xs)" and "x \<in> set xs"
  shows "fst x \<notin> fst ` set (remove1 x xs)"
proof -
  have "fst ` set (remove1 x xs) = set (map fst (remove1 x xs))" by simp
  also have "\<dots> = set (remove1 (fst x) (map fst xs))"
    using assms by (simp only: map_fst_remove1)
  finally show ?thesis using assms(1) by simp
qed

lemma length_le_sum_list:
  fixes f :: "'a \<Rightarrow> nat"
  shows "\<forall>x\<in>set xs. 1 \<le> f x \<Longrightarrow> length xs \<le> sum_list (map f xs)"
  by (induction xs) auto

lemma cnt_le_byt:
  assumes "\<forall>i<32. \<forall>x\<in>set (F i). 1 \<le> unat (snd x)"
  shows "cnt F \<le> byt F"
  unfolding cnt_def byt_def
  using assms by (intro sum_mono length_le_sum_list) auto

lemma geo_bounds:
  assumes g: "geo pool rls F" and d: "\<forall>i<32. distinct (F i)"
  shows "cnt F \<le> byt F" and "byt F \<le> unat (pos pool)" and "byt F < 2 ^ 32"
proof -
  have "\<forall>i<32. \<forall>x\<in>set (F i). 1 \<le> unat (snd x)"
  proof (intro allI impI ballI)
    fix i x assume "i < 32" "x \<in> set (F i)"
    then have "blk_ok pool x" by (rule geoD(3) [OF g])
    then show "1 \<le> unat (snd x)" by (simp add: blk_ok_def)
  qed
  then show "cnt F \<le> byt F" by (rule cnt_le_byt)
  show b: "byt F \<le> unat (pos pool)"
    using d
  proof (rule byt_le_pos)
    show "\<forall>i<32. \<forall>x\<in>set (F i). SizeClass (snd x) = i" using geoD(4) [OF g] by blast
    show "\<forall>i<32. \<forall>x\<in>set (F i). blk_ok pool x" using geoD(3) [OF g] by blast
    show "\<forall>i<32. \<forall>j<32. \<forall>x\<in>set (F i). \<forall>y\<in>set (F j). x \<noteq> y \<longrightarrow> disjoint_blk x y"
      using geoD(5) [OF g] by blast
  qed
  from geoD(1) [OF g] have "unat (pos pool) \<le> 2 ^ 31" by (simp add: pool_ok_def)
  with b show "byt F < 2 ^ 32" by simp
qed

lemma frame_link_out:
  "pred \<in> N \<Longrightarrow> succ \<in> N \<Longrightarrow> frame mem (link_out mem pred succ) x N"
  by (auto simp: frame_def link_out_def set_next_def set_prev_def)

lemma frame_link_in:
  "pred \<in> N \<Longrightarrow> succ \<in> N \<Longrightarrow> 12 \<le> unat (snd x) \<Longrightarrow>
   frame mem (link_in mem pred (fst x) succ) x N"
  by (auto simp: frame_def link_in_def set_next_def set_prev_def)

lemma frame_same_outside:
  "same_outside mem mem' (unat (fst x)) (unat (fst x) + unat (snd x)) \<Longrightarrow> frame mem mem' x N"
  by (auto simp: frame_def same_outside_def)

lemma frame_trans:
  "frame m1 m2 x N \<Longrightarrow> frame m2 m3 x N \<Longrightarrow> frame m1 m3 x N"
  unfolding frame_def by metis

lemma frame_mono: "frame mem mem' x N \<Longrightarrow> N \<subseteq> N' \<Longrightarrow> frame mem mem' x N'"
  unfolding frame_def by blast

lemma unat_minus_one_word: "(w :: 32 word) \<noteq> 0 \<Longrightarrow> unat (w - 1) = unat w - 1"
  by (simp add: unat_minus_one)

lemma word_neq_0_unat: "0 < unat (w :: 32 word) \<Longrightarrow> w \<noteq> 0"
  by auto

lemma RemoveFromFreelist_inv:
  assumes iv: "inv st F" and x: "x \<in> set (F c)" and c: "c < 32"
  shows "\<exists>st'. RemoveFromFreelist st (fst x) = Some st' \<and>
      inv st' (F(c := remove1 x (F c))) \<and> m_pool st' = m_pool st \<and>
      m_stats st' = (m_stats st)\<lparr>m_currentFreeBlocks := m_currentFreeBlocks (m_stats st) - 1,
                                  m_currentFreeBytes := m_currentFreeBytes (m_stats st) - snd x\<rparr> \<and>
      (\<forall>i<32. sentinel (m_rangeLists (m_segregatedRangeLists st') ! i) =
               sentinel (m_rangeLists (m_segregatedRangeLists st) ! i)) \<and>
      frame (heap st) (heap st') x (cnodes (m_rangeLists (m_segregatedRangeLists st)) F c)"
proof -
  let ?mem = "heap st" and ?srl = "m_segregatedRangeLists st" and ?btm = "m_boundaryTagManager st"
  let ?pool = "m_pool st" and ?rls = "m_rangeLists (m_segregatedRangeLists st)"
  let ?F = "F(c := remove1 x (F c))"
  let ?N = "cnodes ?rls F c"
  note g = inv_geo [OF iv]
  note sp = geo_sep [OF g]
  note ok = invD(1) [OF iv]
  note pl = invD(2) [OF iv]
  note bx = invD(3) [OF iv c x]
  note tx = invD(4) [OF iv c x]
  from tx have szx: "Size ?mem (fst x) = snd x" by (simp add: tagged_def)
  have l1: "Suc (length (remove1 x (F c))) = length (F c)"
    using x by (rule length_remove1_blk)
  have s1: "unat (snd x) + sum_list (map (\<lambda>x. unat (snd x)) (remove1 x (F c))) =
      sum_list (map (\<lambda>x. unat (snd x)) (F c))"
    using x by (rule sum_remove1_blk)
  have cn: "cnt ?F + 1 = cnt F"
    using cnt_upd [OF c, of F "remove1 x (F c)"] l1 by simp
  have bn: "byt ?F + unat (snd x) = byt F"
    using byt_upd [OF c, of F "remove1 x (F c)"] s1 by simp
  have w1: "\<And>w :: 32 word. unat w = cnt F \<Longrightarrow> w \<noteq> 0 \<and> unat (w - 1) = cnt ?F"
  proof -
    fix w :: "32 word" assume u: "unat w = cnt F"
    with cn have "0 < unat w" by simp
    then have "w \<noteq> 0" by (rule word_neq_0_unat)
    moreover from this have "unat (w - 1) = unat w - 1" by (rule unat_minus_one_word)
    ultimately show "w \<noteq> 0 \<and> unat (w - 1) = cnt ?F" using u cn by simp
  qed
  have w2: "\<And>w :: 32 word. unat w = byt F \<Longrightarrow> snd x \<le> w \<and> unat (w - snd x) = byt ?F"
  proof -
    fix w :: "32 word" assume u: "unat w = byt F"
    with bn have le: "snd x \<le> w" by (simp add: word_le_nat_alt)
    then have "unat (w - snd x) = unat w - unat (snd x)" by (simp add: unat_sub)
    with le u bn show "snd x \<le> w \<and> unat (w - snd x) = byt ?F" by simp
  qed
  note t1 = w1 [OF invD(5) [OF iv]] and t2 = w2 [OF invD(6) [OF iv]]
  note f1 = w1 [OF invD(7) [OF iv]] and f2 = w2 [OF invD(8) [OF iv]]
  define stats where "stats = (m_stats st)\<lparr>m_currentFreeBlocks := m_currentFreeBlocks (m_stats st) - 1,
                                  m_currentFreeBytes := m_currentFreeBytes (m_stats st) - snd x\<rparr>"
  have r1: "OnRemoveFromFreelist (m_stats st) (Size ?mem (fst x)) = Some stats"
    using f1 f2 by (simp add: OnRemoveFromFreelist_def szx debug_assert_def stats_def)
  from srl_ok_Remove [OF ok sp x c]
  obtain pred succ srl' where pm: "pred \<in> ?N - {fst x}" "succ \<in> ?N - {fst x}"
    and r2: "SegregatedRangeLists_Remove ?srl ?mem (fst x) = Some (srl', link_out ?mem pred succ)"
    and sent: "\<forall>i<32. sentinel (m_rangeLists srl' ! i) = sentinel (?rls ! i)"
    and ok1: "srl_ok (link_out ?mem pred succ) srl' ?F"
    by blast
  let ?m1 = "link_out ?mem pred succ"
  from pm have pN: "pred \<in> ?N" "succ \<in> ?N" by blast+
  have tg1: "\<And>j y. j < 32 \<Longrightarrow> y \<in> set (F j) \<Longrightarrow> tagged ?m1 y"
  proof -
    fix j y assume j: "j < 32" and y: "y \<in> set (F j)"
    show "tagged ?m1 y"
      using invD(4) [OF iv j y] invD(3) [OF iv j y] pl
      by (rule tagged_link_out) (rule geo_node_tracked [OF g c pN(1) j y],
          rule geo_node_tracked [OF g c pN(2) j y])
  qed
  have "tagged ?m1 (fst x, snd x)" "blk_ok ?pool (fst x, snd x)"
    using tg1 [OF c x] bx by simp_all
  from RemoveTags_ok [OF this pl conjunct1 [OF t1] conjunct1 [OF t2]]
  obtain m2 where r3: "RemoveTags ?btm ?m1 (fst x) =
       Some (?btm\<lparr>tag_freeBlocks := tag_freeBlocks ?btm - 1,
                  tag_freeBytes := tag_freeBytes ?btm - snd x\<rparr>, m2)"
    and so: "same_outside ?m1 m2 (unat (fst x)) (unat (fst x) + unat (snd x))"
    by blast
  let ?btm' = "?btm\<lparr>tag_freeBlocks := tag_freeBlocks ?btm - 1,
                  tag_freeBytes := tag_freeBytes ?btm - snd x\<rparr>"
  define st' where "st' = st\<lparr>m_segregatedRangeLists := srl', m_boundaryTagManager := ?btm',
              m_stats := stats, heap := m2\<rparr>"
  have run: "RemoveFromFreelist st (fst x) = Some st'"
    by (simp add: RemoveFromFreelist_def r1 r2 r3 st'_def)
  have g': "geo ?pool (m_rangeLists srl') ?F"
    using geo_remove [OF g] sent by (rule geo_sentinels)
  have dm: "distinct (map fst (F c))" using ok c by (rule srl_distinct)
  have out: "\<And>i a. i < 32 \<Longrightarrow> a \<in> cnodes ?rls ?F i \<Longrightarrow>
      unat a + 20 \<le> unat (fst x) \<or> unat (fst x) + unat (snd x) \<le> unat a"
  proof -
    fix i a assume i: "i < 32" and a: "a \<in> cnodes ?rls ?F i"
    have sub: "a \<in> cnodes ?rls F i"
      using a set_remove1_subset [of x "F c"] by (auto simp: cnodes_def split: if_splits)
    have ne: "a \<noteq> fst x"
    proof (cases "i = c")
      case True
      have "fst x \<notin> fst ` set (remove1 x (F c))" using dm x by (rule fst_notin_remove1)
      moreover have "sentinel (?rls ! c) \<noteq> fst x"
        using sent_out_blk [OF pl geoD(2) [OF g] c bx] bx by (auto simp: blk_ok_def)
      ultimately show ?thesis using a True by (auto simp: cnodes_def)
    next
      case False
      have "fst x \<in> cnodes ?rls F c" using x by (simp add: cnodes_def)
      from sep_notin [OF sp c i _ this] False sub show ?thesis by blast
    qed
    from geo_node_tracked [OF g i sub c x] ne
    show "unat a + 20 \<le> unat (fst x) \<or> unat (fst x) + unat (snd x) \<le> unat a" by simp
  qed
  have ok2: "srl_ok m2 srl' ?F"
    using ok1 so
  proof (rule srl_ok_same_outside)
    show "\<forall>i<32. \<forall>y\<in>cnodes (m_rangeLists srl') ?F i.
        unat y + 20 \<le> unat (fst x) \<or> unat (fst x) + unat (snd x) \<le> unat y"
      using out by (simp add: cnodes_list_upd [OF sent])
  qed
  have tg2: "\<And>i y. i < 32 \<Longrightarrow> y \<in> set (?F i) \<Longrightarrow> tagged m2 y"
  proof -
    fix i y assume i: "i < 32" and y: "y \<in> set (?F i)"
    have yF: "y \<in> set (F i)"
      using y set_remove1_subset [of x "F c"] by (auto split: if_splits)
    have "fst y \<in> cnodes ?rls ?F i" using y by (simp add: cnodes_def)
    from out [OF i this] have "fst y \<noteq> fst x" using bx by (auto simp: blk_ok_def)
    then have "y \<noteq> x" by auto
    then have "disjoint_blk y x" using geoD(5) [OF g i c yF x] by simp
    then have o: "unat (fst y) + unat (snd y) \<le> unat (fst x) \<or>
        unat (fst x) + unat (snd x) \<le> unat (fst y)"
      by (simp add: disjoint_blk_def)
    have "tagged m2 y = tagged ?m1 y"
      using so invD(3) [OF iv i yF] pl o by (rule tagged_same_outside)
    with tg1 [OF i yF] show "tagged m2 y" by simp
  qed
  have so': "stats_ok stats"
    using invD(9) [OF iv] by (simp add: stats_ok_def stats_def)
  have iv': "inv st' ?F"
  proof (rule invI)
    show "srl_ok (heap st') (m_segregatedRangeLists st') ?F" using ok2 by (simp add: st'_def)
    show "geo (m_pool st') (m_rangeLists (m_segregatedRangeLists st')) ?F"
      using g' by (simp add: st'_def)
    show "\<And>i y. i < 32 \<Longrightarrow> y \<in> set (?F i) \<Longrightarrow> tagged (heap st') y"
      using tg2 by (simp add: st'_def)
    show "unat (tag_freeBlocks (m_boundaryTagManager st')) = cnt ?F" using t1 by (simp add: st'_def)
    show "unat (tag_freeBytes (m_boundaryTagManager st')) = byt ?F" using t2 by (simp add: st'_def)
    show "unat (m_currentFreeBlocks (m_stats st')) = cnt ?F" using f1 by (simp add: st'_def stats_def)
    show "unat (m_currentFreeBytes (m_stats st')) = byt ?F" using f2 by (simp add: st'_def stats_def)
    show "stats_ok (m_stats st')" using so' by (simp add: st'_def)
  qed
  have fr: "frame ?mem (heap st') x ?N"
  proof -
    have "frame ?mem ?m1 x ?N" using pN by (rule frame_link_out)
    moreover have "frame ?m1 m2 x ?N" using so by (rule frame_same_outside)
    ultimately show ?thesis unfolding st'_def by (simp add: frame_trans)
  qed
  show ?thesis
    using run iv' sent fr by (intro exI [of _ st']) (simp add: st'_def stats_def)
qed

lemma distinct_split_insert:
  "ts @ ds = xs \<Longrightarrow> distinct xs \<Longrightarrow> x \<notin> set xs \<Longrightarrow> distinct (ts @ x # ds)"
  by auto

lemma distinct_ins_blk: "distinct xs \<Longrightarrow> x \<notin> set xs \<Longrightarrow> distinct (ins_blk x xs)"
  unfolding ins_blk_def by (rule distinct_split_insert [OF takeWhile_dropWhile_id])

lemma AddToFreelist_inv:
  assumes iv: "inv st F" and bx: "blk_ok (m_pool st) x" and fx: "fresh_blk F x"
    and c: "c = SizeClass (snd x)"
  shows "\<exists>st'. AddToFreelist st (fst x) (snd x) = Some st' \<and>
      inv st' (F(c := ins_blk x (F c))) \<and> m_pool st' = m_pool st \<and>
      m_stats st' = OnAddToFreelist (m_stats st) (snd x) \<and>
      (\<forall>i<32. sentinel (m_rangeLists (m_segregatedRangeLists st') ! i) =
               sentinel (m_rangeLists (m_segregatedRangeLists st) ! i)) \<and>
      frame (heap st) (heap st') x (cnodes (m_rangeLists (m_segregatedRangeLists st)) F c) \<and>
      c < 32"
proof -
  let ?mem = "heap st" and ?srl = "m_segregatedRangeLists st" and ?btm = "m_boundaryTagManager st"
  let ?pool = "m_pool st" and ?rls = "m_rangeLists (m_segregatedRangeLists st)"
  let ?F = "F(c := ins_blk x (F c))"
  let ?N = "cnodes ?rls F c"
  note g = inv_geo [OF iv]
  note ok = invD(1) [OF iv]
  note pl = invD(2) [OF iv]
  from bx pl have "unat (snd x) \<le> 2 ^ 31" by (simp add: blk_ok_def pool_ok_def)
  then have c32: "c < 32" unfolding c by (rule SizeClass_le_31)
  from bx pl have x0: "fst x \<noteq> 0" by (auto simp: blk_ok_def pool_ok_def)
  from bx have n12: "12 \<le> unat (snd x)" by (simp add: blk_ok_def)
  note g' = geo_ins [OF g bx fx c]
  note sp' = geo_sep [OF g']
  have d: "\<And>i. i < 32 \<Longrightarrow> distinct (F i)"
    using srl_distinct [OF ok] by (simp add: distinct_map)
  have d': "\<forall>i<32. distinct (?F i)"
    using d fresh_notin [OF fx bx c32] c32 by (simp add: distinct_ins_blk)
  note bd = geo_bounds [OF g' d']
  have cn: "cnt ?F = cnt F + 1"
    using cnt_upd [OF c32, of F "ins_blk x (F c)"] by simp
  have bn: "byt ?F = byt F + unat (snd x)"
    using byt_upd [OF c32, of F "ins_blk x (F c)"] by simp
  have w1: "\<And>w :: 32 word. unat w = cnt F \<Longrightarrow> unat w + 1 < 2 ^ 32 \<and> unat (w + 1) = cnt ?F"
  proof -
    fix w :: "32 word" assume u: "unat w = cnt F"
    from bd(1,3) cn have "cnt F + 1 < 2 ^ 32" by linarith
    with u have l: "unat w + unat (1 :: 32 word) < 2 ^ 32" by simp
    from unat_add_no_wrap [OF l] l u cn show "unat w + 1 < 2 ^ 32 \<and> unat (w + 1) = cnt ?F" by simp
  qed
  have w2: "\<And>w :: 32 word. unat w = byt F \<Longrightarrow>
      unat w + unat (snd x) < 2 ^ 32 \<and> unat (w + snd x) = byt ?F"
  proof -
    fix w :: "32 word" assume u: "unat w = byt F"
    from bd(3) bn have "byt F + unat (snd x) < 2 ^ 32" by linarith
    with u have l: "unat w + unat (snd x) < 2 ^ 32" by simp
    from unat_add_no_wrap [OF l] l u bn
    show "unat w + unat (snd x) < 2 ^ 32 \<and> unat (w + snd x) = byt ?F" by simp
  qed
  note t1 = w1 [OF invD(5) [OF iv]] and t2 = w2 [OF invD(6) [OF iv]]
  note f1 = w1 [OF invD(7) [OF iv]] and f2 = w2 [OF invD(8) [OF iv]]
  have bx': "blk_ok ?pool (fst x, snd x)" using bx by simp
  from WriteTags_ok [OF bx' pl conjunct1 [OF t1] conjunct1 [OF t2]]
  obtain m1 where r1: "WriteTags ?btm ?mem (fst x) (snd x) =
       Some (fst x, ?btm\<lparr>tag_freeBlocks := tag_freeBlocks ?btm + 1,
                     tag_freeBytes := tag_freeBytes ?btm + snd x\<rparr>, m1)"
    and tx1: "tagged m1 x"
    and so: "same_outside ?mem m1 (unat (fst x)) (unat (fst x) + unat (snd x))"
    by auto
  let ?btm' = "?btm\<lparr>tag_freeBlocks := tag_freeBlocks ?btm + 1,
                     tag_freeBytes := tag_freeBytes ?btm + snd x\<rparr>"
  have ok1: "srl_ok m1 ?srl F"
    using ok so
  proof (rule srl_ok_same_outside)
    show "\<forall>i<32. \<forall>y\<in>cnodes ?rls F i.
        unat y + 20 \<le> unat (fst x) \<or> unat (fst x) + unat (snd x) \<le> unat y"
      using geo_node_fresh [OF g _ _ bx fx] by blast
  qed
  from tx1 have sx: "Size m1 (fst x) = snd x" by (simp add: tagged_def)
  have k1: "length (F c) + 1 < 2 ^ 32"
    using length_le_cnt [OF c32, of F] bd(1,3) cn by linarith
  have k2: "sum_list (map (\<lambda>x. unat (snd x)) (F c)) + unat (snd x) < 2 ^ 32"
    using sum_le_byt [OF c32, of F] bd(3) bn by linarith
  from srl_ok_Insert [OF ok1 sp' geo_fresh_node [OF g bx fx c32] sx c [symmetric] c32 x0 k1 k2]
  obtain pred succ srl' where pN: "pred \<in> ?N" "succ \<in> ?N"
    and r2: "SegregatedRangeLists_Insert ?srl m1 (fst x) = Some (srl', link_in m1 pred (fst x) succ)"
    and sent: "\<forall>i<32. sentinel (m_rangeLists srl' ! i) = sentinel (?rls ! i)"
    and ok2: "srl_ok (link_in m1 pred (fst x) succ) srl' ?F"
    by blast
  let ?m2 = "link_in m1 pred (fst x) succ"
  define st' where "st' = st\<lparr>m_segregatedRangeLists := srl', m_boundaryTagManager := ?btm',
              m_stats := OnAddToFreelist (m_stats st) (snd x), heap := ?m2\<rparr>"
  have run: "AddToFreelist st (fst x) (snd x) = Some st'"
    by (simp add: AddToFreelist_def r1 r2 st'_def)
  have g2: "geo ?pool (m_rangeLists srl') ?F"
    using g' sent by (rule geo_sentinels)
  have px: "pred = fst x \<or> unat pred + 20 \<le> unat (fst x) \<or> unat (fst x) + unat (snd x) \<le> unat pred"
    "succ = fst x \<or> unat succ + 20 \<le> unat (fst x) \<or> unat (fst x) + unat (snd x) \<le> unat succ"
    using geo_node_fresh [OF g c32 pN(1) bx fx] geo_node_fresh [OF g c32 pN(2) bx fx] by simp_all
  have tg2: "\<And>i y. i < 32 \<Longrightarrow> y \<in> set (?F i) \<Longrightarrow> tagged ?m2 y"
  proof -
    fix i y assume i: "i < 32" and y: "y \<in> set (?F i)"
    show "tagged ?m2 y"
    proof (cases "y = x")
      case True
      show ?thesis unfolding True
        using tx1 bx pl by (rule tagged_link_in) (simp, rule px(1), rule px(2))
    next
      case False
      with y have yF: "y \<in> set (F i)" by (auto split: if_splits)
      note yb = invD(3) [OF iv i yF]
      from fx i yF have dj: "disjoint_blk x y" by (simp add: fresh_blk_def)
      then have o: "unat (fst y) + unat (snd y) \<le> unat (fst x) \<or>
          unat (fst x) + unat (snd x) \<le> unat (fst y)"
        by (auto simp: disjoint_blk_def)
      have "tagged m1 y = tagged ?mem y"
        using so yb pl o by (rule tagged_same_outside)
      with invD(4) [OF iv i yF] have t1: "tagged m1 y" by simp
      have xo: "fst x = fst y \<or> unat (fst x) + 20 \<le> unat (fst y) \<or>
          unat (fst y) + unat (snd y) \<le> unat (fst x)"
        using blk_out_blk [OF bx dj] by simp
      show ?thesis
        using t1 yb pl xo
        by (rule tagged_link_in) (rule geo_node_tracked [OF g c32 pN(1) i yF],
            rule geo_node_tracked [OF g c32 pN(2) i yF])
    qed
  qed
  have so': "stats_ok (OnAddToFreelist (m_stats st) (snd x))"
    using invD(9) [OF iv] by (simp add: stats_ok_def OnAddToFreelist_def)
  have iv': "inv st' ?F"
  proof (rule invI)
    show "srl_ok (heap st') (m_segregatedRangeLists st') ?F" using ok2 by (simp add: st'_def)
    show "geo (m_pool st') (m_rangeLists (m_segregatedRangeLists st')) ?F"
      using g2 by (simp add: st'_def)
    show "\<And>i y. i < 32 \<Longrightarrow> y \<in> set (?F i) \<Longrightarrow> tagged (heap st') y"
      using tg2 by (simp add: st'_def)
    show "unat (tag_freeBlocks (m_boundaryTagManager st')) = cnt ?F" using t1 by (simp add: st'_def)
    show "unat (tag_freeBytes (m_boundaryTagManager st')) = byt ?F" using t2 by (simp add: st'_def)
    show "unat (m_currentFreeBlocks (m_stats st')) = cnt ?F"
      using f1 by (simp add: st'_def OnAddToFreelist_def)
    show "unat (m_currentFreeBytes (m_stats st')) = byt ?F"
      using f2 by (simp add: st'_def OnAddToFreelist_def)
    show "stats_ok (m_stats st')" using so' by (simp add: st'_def)
  qed
  have fr: "frame ?mem (heap st') x ?N"
  proof -
    have "frame ?mem m1 x ?N" using so by (rule frame_same_outside)
    moreover have "frame m1 ?m2 x ?N" using pN n12 by (rule frame_link_in)
    ultimately show ?thesis unfolding st'_def by (simp add: frame_trans)
  qed
  show ?thesis
    using run iv' sent fr c32 by (intro exI [of _ st']) (simp add: st'_def)
qed

lemma word_sum_list_unat:
  fixes f :: "'a \<Rightarrow> 32 word"
  shows "sum_list (map f xs) = word_of_nat (sum_list (map (\<lambda>x. unat (f x)) xs))"
  by (induction xs) simp_all

lemma tagged_Validate:
  assumes "tagged mem x" and "IsValidSize (snd x)"
  shows "FreedBlock_Validate mem (fst x) s_headerId = Some ()"
  using assms by (simp add: FreedBlock_Validate_iff tagged_def)

lemma rl_ok_Validate:
  assumes ok: "rl_ok mem rl xs" and t: "\<forall>x\<in>set xs. tagged mem x \<and> IsValidSize (snd x)"
  shows "RangeList_Validate rl mem s_headerId = Some ()"
proof (rule RangeList_Validate_dlist)
  from ok show "dlist mem (sentinel rl) (map fst xs)" by (simp add: rl_ok_def)
  from t show "\<forall>y\<in>set (map fst xs). FreedBlock_Validate mem y s_headerId = Some ()"
    by (auto intro: tagged_Validate)
  from ok have l: "unat (m_freeBlocks rl) = length xs" by (simp add: rl_ok_def)
  then have "word_of_nat (unat (m_freeBlocks rl)) = (word_of_nat (length xs) :: 32 word)" by simp
  then show "m_freeBlocks rl = word_of_nat (length (map fst xs))" by simp
  from l show "m_freeBlocks rl = 0 \<longrightarrow> map fst xs = []" by auto
  from ok have z: "\<forall>x\<in>set xs. Size mem (fst x) = snd x"
    and s: "unat (m_freeBytes rl) = sum_list (map (\<lambda>x. unat (snd x)) xs)"
    by (simp_all add: rl_ok_def)
  from z have "map (Size mem) (map fst xs) = map snd xs" by simp
  then have "sum_list (map (Size mem) (map fst xs)) = sum_list (map snd xs)" by (simp only:)
  also have "\<dots> = word_of_nat (sum_list (map (\<lambda>x. unat (snd x)) xs))"
    by (rule word_sum_list_unat)
  also have "\<dots> = word_of_nat (unat (m_freeBytes rl))" by (simp only: s)
  finally show "m_freeBytes rl = sum_list (map (Size mem) (map fst xs))" by simp
qed

lemma Validate_lists_ok:
  "\<forall>k<length rls. RangeList_Validate (rls ! k) mem ident = Some () \<and>
       ((bitmap AND word_of_nat (BIT (i + k)) = 0) = IsEmpty (rls ! k)) \<Longrightarrow>
   Validate_lists rls bitmap mem ident i = Some ()"
proof (induction rls arbitrary: i)
  case Nil
  show ?case by simp
next
  case (Cons rl rls)
  from Cons.prems have h: "RangeList_Validate rl mem ident = Some ()"
    "(bitmap AND word_of_nat (BIT i) = 0) = IsEmpty rl"
    by force+
  have "\<forall>k<length rls. RangeList_Validate (rls ! k) mem ident = Some () \<and>
       ((bitmap AND word_of_nat (BIT (Suc i + k)) = 0) = IsEmpty (rls ! k))"
  proof (intro allI impI)
    fix k assume "k < length rls"
    then have "Suc k < length (rl # rls)" by simp
    with Cons.prems have "RangeList_Validate ((rl # rls) ! Suc k) mem ident = Some () \<and>
       ((bitmap AND word_of_nat (BIT (i + Suc k)) = 0) = IsEmpty ((rl # rls) ! Suc k))"
      by blast
    then show "RangeList_Validate (rls ! k) mem ident = Some () \<and>
       ((bitmap AND word_of_nat (BIT (Suc i + k)) = 0) = IsEmpty (rls ! k))" by simp
  qed
  then have "Validate_lists rls bitmap mem ident (Suc i) = Some ()" by (rule Cons.IH)
  with h show ?case by (simp add: debug_assert_def)
qed

lemma fold_plus_sum_list:
  fixes f :: "'a \<Rightarrow> 32 word"
  shows "fold (\<lambda>x acc. acc + f x) xs a = a + sum_list (map f xs)"
  by (induction xs arbitrary: a) (simp_all add: add.assoc)

lemma sum_list_nth_32:
  fixes g :: "'a \<Rightarrow> nat"
  assumes "length xs = 32"
  shows "sum_list (map g xs) = (\<Sum>i<32. g (xs ! i))"
proof -
  have "sum_list (map g xs) = (\<Sum>i = 0..<length (map g xs). map g xs ! i)"
    by (rule sum_list_sum_nth)
  also have "\<dots> = (\<Sum>i = 0..<32. g (xs ! i))"
    using assms by simp
  finally show ?thesis by (simp add: atLeast0LessThan)
qed

lemma srl_ok_totals:
  assumes ok: "srl_ok mem srl F"
  shows "SegregatedRangeLists_FreeBlocks srl = word_of_nat (cnt F)"
    and "SegregatedRangeLists_FreeBytes srl = word_of_nat (byt F)"
proof -
  from ok have len: "length (m_rangeLists srl) = 32"
    and r: "\<And>i. i < 32 \<Longrightarrow> rl_ok mem (m_rangeLists srl ! i) (F i)"
    by (simp_all add: srl_ok_def)
  have "sum_list (map (\<lambda>rl. unat (m_freeBlocks rl)) (m_rangeLists srl)) =
      (\<Sum>i<32. unat (m_freeBlocks (m_rangeLists srl ! i)))"
    using len by (rule sum_list_nth_32)
  also have "\<dots> = cnt F"
    unfolding cnt_def using r by (intro sum.cong) (simp_all add: rl_ok_def)
  finally show "SegregatedRangeLists_FreeBlocks srl = word_of_nat (cnt F)"
    by (simp add: SegregatedRangeLists_FreeBlocks_def fold_plus_sum_list
        word_sum_list_unat [of m_freeBlocks])
  have "sum_list (map (\<lambda>rl. unat (m_freeBytes rl)) (m_rangeLists srl)) =
      (\<Sum>i<32. unat (m_freeBytes (m_rangeLists srl ! i)))"
    using len by (rule sum_list_nth_32)
  also have "\<dots> = byt F"
    unfolding byt_def using r by (intro sum.cong) (simp_all add: rl_ok_def)
  finally show "SegregatedRangeLists_FreeBytes srl = word_of_nat (byt F)"
    by (simp add: SegregatedRangeLists_FreeBytes_def fold_plus_sum_list
        word_sum_list_unat [of m_freeBytes])
qed

lemma word_eq_of_unat: "unat (w :: 32 word) = n \<Longrightarrow> w = word_of_nat n"
  by auto

lemma Validate_inv:
  assumes iv: "inv st F"
  shows "Validate st = Some ()"
proof -
  let ?srl = "m_segregatedRangeLists st" and ?mem = "heap st"
  note ok = invD(1) [OF iv]
  from ok have len: "length (m_rangeLists ?srl) = 32"
    and r: "\<And>i. i < 32 \<Longrightarrow> rl_ok ?mem (m_rangeLists ?srl ! i) (F i)"
    and b: "\<And>i. i < 32 \<Longrightarrow> bit (m_bitmap ?srl) i = (F i \<noteq> [])"
    by (simp_all add: srl_ok_def)
  have v1: "SegregatedRangeLists_Validate ?srl ?mem s_headerId = Some ()"
    unfolding SegregatedRangeLists_Validate_def
  proof (rule Validate_lists_ok, intro allI impI conjI)
    fix k assume "k < length (m_rangeLists ?srl)"
    then have k: "k < 32" by (simp add: len)
    show "RangeList_Validate (m_rangeLists ?srl ! k) ?mem s_headerId = Some ()"
      using r [OF k]
    proof (rule rl_ok_Validate)
      show "\<forall>x\<in>set (F k). tagged ?mem x \<and> IsValidSize (snd x)"
        using invD(3,4) [OF iv k] by (blast intro: IsValidSize_blk)
    qed
    from r [OF k] have "unat (m_freeBlocks (m_rangeLists ?srl ! k)) = length (F k)"
      by (simp add: rl_ok_def)
    then have "IsEmpty (m_rangeLists ?srl ! k) = (F k = [])"
      unfolding IsEmpty_def unsigned_eq_0_iff [symmetric, where ?'a = nat] by simp
    then show "(m_bitmap ?srl AND word_of_nat (BIT (0 + k)) = 0) = IsEmpty (m_rangeLists ?srl ! k)"
      using b [OF k] k by (simp add: and_BIT_eq_0)
  qed
  have v2: "Stats_Validate (m_stats st) = Some ()"
    using invD(9) [OF iv] by (simp add: Stats_Validate_def stats_ok_def debug_assert_def)
  note tot = srl_ok_totals [OF ok]
  have v3: "AssertEqual (m_currentFreeBlocks (m_stats st)) (SegregatedRangeLists_FreeBlocks ?srl)
       (tag_freeBlocks (m_boundaryTagManager st)) = Some ()"
    using word_eq_of_unat [OF invD(5) [OF iv]] word_eq_of_unat [OF invD(7) [OF iv]]
    by (simp add: AssertEqual_def tot debug_assert_def)
  have v4: "AssertEqual (m_currentFreeBytes (m_stats st)) (SegregatedRangeLists_FreeBytes ?srl)
       (tag_freeBytes (m_boundaryTagManager st)) = Some ()"
    using word_eq_of_unat [OF invD(6) [OF iv]] word_eq_of_unat [OF invD(8) [OF iv]]
    by (simp add: AssertEqual_def tot debug_assert_def)
  show ?thesis
    by (simp add: Validate_def v1 v2 v3 v4)
qed

lemma Reset_lists_ok:
  assumes "novs (sentinel ` set rls)"
  shows "fst (Reset_lists rls mem) = map (\<lambda>rl. rl\<lparr>m_freeBlocks := 0, m_freeBytes := 0\<rparr>) rls \<and>
     (\<forall>rl\<in>set rls. next' (snd (Reset_lists rls mem)) (sentinel rl) = sentinel rl \<and>
                    prev (snd (Reset_lists rls mem)) (sentinel rl) = sentinel rl) \<and>
     (\<forall>a. (\<forall>rl\<in>set rls. a \<noteq> unat (sentinel rl) + 4 \<and> a \<noteq> unat (sentinel rl) + 8) \<longrightarrow>
          snd (Reset_lists rls mem) a = mem a)"
  using assms
proof (induction rls arbitrary: mem)
  case Nil
  show ?case by simp
next
  case (Cons rl rls)
  let ?s = "sentinel rl"
  define mem1 where "mem1 = set_next (set_prev mem ?s ?s) ?s ?s"
  from Cons.prems have n': "novs (sentinel ` set rls)"
    by (rule novs_subset) auto
  note IH = Cons.IH [OF n', of mem1]
  let ?r = "Reset_lists rls mem1"
  have e: "Reset_lists (rl # rls) mem = (rl\<lparr>m_freeBlocks := 0, m_freeBytes := 0\<rparr> # fst ?r, snd ?r)"
    by (simp add: RangeList_Reset_def Let_def mem1_def split: prod.splits)
  have h1: "next' mem1 ?s = ?s" "prev mem1 ?s = ?s"
    by (simp_all add: mem1_def next_set_next prev_set_next prev_set_prev)
  have hd: "next' (snd ?r) ?s = ?s \<and> prev (snd ?r) ?s = ?s"
  proof (cases "?s \<in> sentinel ` set rls")
    case True
    then show ?thesis using IH by auto
  next
    case False
    have "\<forall>rl'\<in>set rls. unat ?s + 8 \<noteq> unat (sentinel rl') + 4 \<and> unat ?s + 8 \<noteq> unat (sentinel rl') + 8
        \<and> unat ?s + 4 \<noteq> unat (sentinel rl') + 4 \<and> unat ?s + 4 \<noteq> unat (sentinel rl') + 8"
    proof
      fix rl' assume r: "rl' \<in> set rls"
      with False have ne: "?s \<noteq> sentinel rl'" by auto
      from Cons.prems r have "nov ?s (sentinel rl')" by (auto simp: novs_def)
      with ne show "unat ?s + 8 \<noteq> unat (sentinel rl') + 4 \<and> unat ?s + 8 \<noteq> unat (sentinel rl') + 8
        \<and> unat ?s + 4 \<noteq> unat (sentinel rl') + 4 \<and> unat ?s + 4 \<noteq> unat (sentinel rl') + 8"
        by (auto simp: nov_def)
    qed
    with IH have "snd ?r (unat ?s + 8) = mem1 (unat ?s + 8)" "snd ?r (unat ?s + 4) = mem1 (unat ?s + 4)"
      by auto
    with h1 show ?thesis by (simp add: next'_def prev_def)
  qed
  have fr: "\<forall>a. (\<forall>rl'\<in>set (rl # rls). a \<noteq> unat (sentinel rl') + 4 \<and> a \<noteq> unat (sentinel rl') + 8) \<longrightarrow>
          snd ?r a = mem a"
  proof (intro allI impI)
    fix a assume a: "\<forall>rl'\<in>set (rl # rls). a \<noteq> unat (sentinel rl') + 4 \<and> a \<noteq> unat (sentinel rl') + 8"
    then have "snd ?r a = mem1 a" using IH by auto
    also have "mem1 a = mem a" using a by (simp add: mem1_def set_next_def set_prev_def)
    finally show "snd ?r a = mem a" .
  qed
  show ?case
    unfolding e using IH hd fr by simp
qed

lemma cnt_empty [simp]: "cnt (\<lambda>_. []) = 0"
  by (simp add: cnt_def)

lemma byt_empty [simp]: "byt (\<lambda>_. []) = 0"
  by (simp add: byt_def)

lemma sent_ok_novs:
  assumes s: "sent_ok pool rls" and len: "length rls = 32"
  shows "novs (sentinel ` set rls)"
  unfolding novs_def
proof (intro ballI)
  fix x y assume "x \<in> sentinel ` set rls" "y \<in> sentinel ` set rls"
  then obtain i j where i: "i < 32" "x = sentinel (rls ! i)" and j: "j < 32" "y = sentinel (rls ! j)"
    using len by (auto simp: in_set_conv_nth)
  show "nov x y"
  proof (cases "i = j")
    case True with i j show ?thesis by simp
  next
    case False
    with s i j show ?thesis by (auto simp: sent_ok_def nov_def)
  qed
qed

lemma Reset_ok:
  assumes len: "length (m_rangeLists (m_segregatedRangeLists st)) = 32"
    and pl: "pool_ok ((m_pool st)\<lparr>pos := 0\<rparr>)"
    and so: "sent_ok (m_pool st) (m_rangeLists (m_segregatedRangeLists st))"
    and t0: "tag_freeBlocks (m_boundaryTagManager st) = 0" "tag_freeBytes (m_boundaryTagManager st) = 0"
  shows "\<exists>st'. Reset st = Some st' \<and> inv st' (\<lambda>_. []) \<and>
      m_pool st' = (m_pool st)\<lparr>pos := 0\<rparr> \<and> m_stats st' = OnReset (m_stats st) \<and>
      (\<forall>i<32. sentinel (m_rangeLists (m_segregatedRangeLists st') ! i) =
               sentinel (m_rangeLists (m_segregatedRangeLists st) ! i)) \<and>
      heap st' = snd (Reset_lists (m_rangeLists (m_segregatedRangeLists st)) (heap st))"
proof -
  let ?rls = "m_rangeLists (m_segregatedRangeLists st)"
  let ?r = "Reset_lists ?rls (heap st)"
  note R = Reset_lists_ok [OF sent_ok_novs [OF so len], of "heap st"]
  define rls' where "rls' = map (\<lambda>rl. rl\<lparr>m_freeBlocks := 0, m_freeBytes := 0\<rparr>) ?rls"
  define srl' where "srl' = (m_segregatedRangeLists st)\<lparr>m_rangeLists := rls', m_bitmap := 0\<rparr>"
  define st' where "st' = st\<lparr>m_pool := (m_pool st)\<lparr>pos := 0\<rparr>, m_segregatedRangeLists := srl',
      m_stats := OnReset (m_stats st), heap := snd ?r\<rparr>"
  from R have f: "fst ?r = rls'" by (simp add: rls'_def)
  have sr: "SegregatedRangeLists_Reset (m_segregatedRangeLists st) (heap st) = (srl', snd ?r)"
    by (simp add: SegregatedRangeLists_Reset_def srl'_def f [symmetric] split: prod.splits)
  have nth: "\<And>i. i < 32 \<Longrightarrow> rls' ! i = (?rls ! i)\<lparr>m_freeBlocks := 0, m_freeBytes := 0\<rparr>"
    using len by (simp add: rls'_def)
  have sent: "\<forall>i<32. sentinel (rls' ! i) = sentinel (?rls ! i)"
    by (simp add: nth)
  have ok: "srl_ok (snd ?r) srl' (\<lambda>_. [])"
    unfolding srl_ok_def
  proof (intro conjI allI impI)
    show "length (m_rangeLists srl') = 32" using len by (simp add: srl'_def rls'_def)
  next
    fix i :: nat assume i: "i < 32"
    then have "?rls ! i \<in> set ?rls" using len by simp
    with R have "next' (snd ?r) (sentinel (?rls ! i)) = sentinel (?rls ! i)"
      "prev (snd ?r) (sentinel (?rls ! i)) = sentinel (?rls ! i)" by blast+
    then show "rl_ok (snd ?r) (m_rangeLists srl' ! i) []"
      using i by (simp add: srl'_def nth rl_ok_def dlist_def)
    show "\<forall>x\<in>set []. fst x \<noteq> 0 \<and> SizeClass (snd x) = i" by simp
    show "bit (m_bitmap srl') i = ([] \<noteq> [])" by (simp add: srl'_def)
  qed
  have g: "geo (m_pool st') (m_rangeLists (m_segregatedRangeLists st')) (\<lambda>_. [])"
    using pl so sent by (simp add: geo_def st'_def srl'_def sent_ok_def)
  have iv: "inv st' (\<lambda>_. [])"
  proof (rule invI)
    show "srl_ok (heap st') (m_segregatedRangeLists st') (\<lambda>_. [])" using ok by (simp add: st'_def)
    show "geo (m_pool st') (m_rangeLists (m_segregatedRangeLists st')) (\<lambda>_. [])" by (rule g)
    show "\<And>i x. i < 32 \<Longrightarrow> x \<in> set [] \<Longrightarrow> tagged (heap st') x" by simp
    show "unat (tag_freeBlocks (m_boundaryTagManager st')) = cnt (\<lambda>_. [])"
      "unat (tag_freeBytes (m_boundaryTagManager st')) = byt (\<lambda>_. [])"
      using t0 by (simp_all add: st'_def)
    show "unat (m_currentFreeBlocks (m_stats st')) = cnt (\<lambda>_. [])"
      "unat (m_currentFreeBytes (m_stats st')) = byt (\<lambda>_. [])"
      "stats_ok (m_stats st')"
      by (simp_all add: st'_def OnReset_def stats_ok_def)
  qed
  have "Reset st = Some st'"
    using Validate_inv [OF iv]
    by (simp add: Reset_def sr pool_free_all_def Let_def st'_def)
  with iv sent show ?thesis
    by (intro exI [of _ st']) (simp add: st'_def srl'_def)
qed

lemma unat_sentinel_new:
  assumes "unat arr + 896 < 2 ^ 32" and "i < 32"
  shows "unat (arr + 28 * word_of_nat i :: 32 word) = unat arr + 28 * i"
proof -
  have "unat (28 * word_of_nat i :: 32 word) = 28 * i"
    using assms(2) by (simp add: unat_word_ariths unat_of_nat)
  moreover from this assms have "unat arr + unat (28 * word_of_nat i :: 32 word) < 2 ^ 32" by simp
  ultimately show ?thesis by (simp add: unat_add_no_wrap)
qed

lemma Impl_new_ok:
  assumes b0: "0 < unat b" and al: "unat b mod 16 = 0"
    and fit: "unat b + unat poolSize < 2 ^ 32" and sz: "unat poolSize \<le> 2 ^ 31"
    and nw: "unat arr + 896 < 2 ^ 32"
    and place: "unat arr + 896 \<le> unat b \<or> unat b + unat poolSize \<le> unat arr"
  shows "\<exists>st. Impl_new b arr stats mem poolSize = Some st \<and> inv st (\<lambda>_. []) \<and>
      m_pool st = \<lparr>base = b, pos = 0, max_size = poolSize\<rparr> \<and> m_stats st = OnReset stats \<and>
      (\<forall>a. unat b \<le> a \<and> a < unat b + unat poolSize \<longrightarrow> heap st a = mem a)"
proof -
  define rls0 where "rls0 = map (\<lambda>i. \<lparr>sentinel = arr + 28 * word_of_nat i,
                                  m_freeBlocks = 0, m_freeBytes = 0\<rparr>) [0..<32]"
  define r where "r = Reset_lists rls0 mem"
  define srl1 where "srl1 = \<lparr>m_rangeLists = fst r, m_bitmap = 0\<rparr>"
  define st0 where "st0 = \<lparr>m_pool = pool_create b poolSize, m_segregatedRangeLists = srl1,
                m_boundaryTagManager = BoundaryTagManager_new, m_stats = stats, heap = snd r\<rparr>"
  have new: "Impl_new b arr stats mem poolSize = Reset st0"
    by (simp add: Impl_new_def SegregatedRangeLists_new_def SegregatedRangeLists_Reset_def
        numRangeLists_def rls0_def [symmetric] r_def [symmetric] st0_def srl1_def split: prod.splits)
  have n0: "\<And>i. i < 32 \<Longrightarrow> sentinel (rls0 ! i) = arr + 28 * word_of_nat i"
    by (simp add: rls0_def)
  have u: "\<And>i. i < 32 \<Longrightarrow> unat (sentinel (rls0 ! i)) = unat arr + 28 * i"
    by (simp add: n0 unat_sentinel_new [OF nw])
  have len0: "length rls0 = 32" by (simp add: rls0_def)
  have so0: "sent_ok (pool_create b poolSize) rls0"
    unfolding sent_ok_def
  proof (intro conjI allI impI)
    fix i :: nat assume i: "i < 32"
    show "unat (sentinel (rls0 ! i)) + 20 \<le> unat (base (pool_create b poolSize)) \<or>
        unat (base (pool_create b poolSize)) + unat (max_size (pool_create b poolSize))
          \<le> unat (sentinel (rls0 ! i))"
      using place i by (auto simp: u pool_create_def)
    fix j :: nat assume j: "j < 32" and ij: "i \<noteq> j"
    show "unat (sentinel (rls0 ! i)) + 20 \<le> unat (sentinel (rls0 ! j)) \<or>
        unat (sentinel (rls0 ! j)) + 20 \<le> unat (sentinel (rls0 ! i))"
      using i j ij by (simp add: u) linarith
  qed
  note R = Reset_lists_ok [OF sent_ok_novs [OF so0 len0], of mem]
  from R have f: "fst r = map (\<lambda>rl. rl\<lparr>m_freeBlocks := 0, m_freeBytes := 0\<rparr>) rls0"
    by (simp add: r_def)
  have len1: "length (fst r) = 32" by (simp add: f len0)
  have s1: "\<And>i. i < 32 \<Longrightarrow> sentinel (fst r ! i) = sentinel (rls0 ! i)"
    by (simp add: f len0)
  have so1: "sent_ok (pool_create b poolSize) (fst r)"
    using so0 by (simp add: sent_ok_def s1)
  have pl: "pool_ok ((pool_create b poolSize)\<lparr>pos := 0\<rparr>)"
    using b0 al fit sz by (simp add: pool_ok_def pool_create_def)
  have "\<exists>st'. Reset st0 = Some st' \<and> inv st' (\<lambda>_. []) \<and>
      m_pool st' = (m_pool st0)\<lparr>pos := 0\<rparr> \<and> m_stats st' = OnReset (m_stats st0) \<and>
      (\<forall>i<32. sentinel (m_rangeLists (m_segregatedRangeLists st') ! i) =
               sentinel (m_rangeLists (m_segregatedRangeLists st0) ! i)) \<and>
      heap st' = snd (Reset_lists (m_rangeLists (m_segregatedRangeLists st0)) (heap st0))"
    by (rule Reset_ok) (simp_all add: st0_def srl1_def len1 so1 pl BoundaryTagManager_new_def)
  then obtain st' where rs: "Reset st0 = Some st'" and iv: "inv st' (\<lambda>_. [])"
    and pp: "m_pool st' = (m_pool st0)\<lparr>pos := 0\<rparr>" and ss: "m_stats st' = OnReset (m_stats st0)"
    and hp: "heap st' = snd (Reset_lists (fst r) (snd r))"
    by (auto simp: st0_def srl1_def)
  note R1 = Reset_lists_ok [OF sent_ok_novs [OF so1 len1], of "snd r"]
  have cell: "\<And>a i. unat b \<le> a \<Longrightarrow> a < unat b + unat poolSize \<Longrightarrow> i < 32 \<Longrightarrow>
      a \<noteq> unat (sentinel (rls0 ! i)) + 4 \<and> a \<noteq> unat (sentinel (rls0 ! i)) + 8"
  proof -
    fix a i assume a: "unat b \<le> a" "a < unat b + unat poolSize" and i: "i < (32 :: nat)"
    from so0 i have "unat (sentinel (rls0 ! i)) + 20 \<le> unat b \<or>
        unat b + unat poolSize \<le> unat (sentinel (rls0 ! i))"
      by (simp add: sent_ok_def pool_create_def)
    with a show "a \<noteq> unat (sentinel (rls0 ! i)) + 4 \<and> a \<noteq> unat (sentinel (rls0 ! i)) + 8"
      by linarith
  qed
  have hv: "\<forall>a. unat b \<le> a \<and> a < unat b + unat poolSize \<longrightarrow> heap st' a = mem a"
  proof (intro allI impI)
    fix a assume a: "unat b \<le> a \<and> a < unat b + unat poolSize"
    have c0: "\<forall>rl\<in>set rls0. a \<noteq> unat (sentinel rl) + 4 \<and> a \<noteq> unat (sentinel rl) + 8"
    proof
      fix rl assume "rl \<in> set rls0"
      then obtain i where "i < 32" "rl = rls0 ! i" using len0 by (auto simp: in_set_conv_nth)
      with cell [of a i] a show "a \<noteq> unat (sentinel rl) + 4 \<and> a \<noteq> unat (sentinel rl) + 8" by simp
    qed
    have c1: "\<forall>rl\<in>set (fst r). a \<noteq> unat (sentinel rl) + 4 \<and> a \<noteq> unat (sentinel rl) + 8"
    proof
      fix rl assume "rl \<in> set (fst r)"
      then obtain i where "i < 32" "rl = fst r ! i" using len1 by (auto simp: in_set_conv_nth)
      with cell [of a i] a s1 show "a \<noteq> unat (sentinel rl) + 4 \<and> a \<noteq> unat (sentinel rl) + 8" by simp
    qed
    from R1 c1 have "snd (Reset_lists (fst r) (snd r)) a = snd r a" by blast
    moreover from R c0 have "snd r a = mem a" unfolding r_def by blast
    ultimately show "heap st' a = mem a" by (simp add: hp)
  qed
  show ?thesis
    unfolding new using rs iv pp ss hv by (auto simp: st0_def pool_create_def)
qed

lemma inv_stats_upd:
  assumes "inv st F" and "stats_ok s"
    and "m_currentFreeBlocks s = m_currentFreeBlocks (m_stats st)"
    and "m_currentFreeBytes s = m_currentFreeBytes (m_stats st)"
  shows "inv (st\<lparr>m_stats := s\<rparr>) F"
  using assms by (simp add: inv_def)

lemma blk_ok_pos_mono:
  "blk_ok pool x \<Longrightarrow> unat (pos pool) \<le> unat q \<Longrightarrow> blk_ok (pool\<lparr>pos := q\<rparr>) x"
  by (simp add: blk_ok_def)

lemma inv_pool_upd:
  assumes iv: "inv st F" and le: "unat (pos (m_pool st)) + unat sz \<le> unat (max_size (m_pool st))"
    and al: "unat sz mod 16 = 0"
  shows "inv (st\<lparr>m_pool := (m_pool st)\<lparr>pos := pos (m_pool st) + sz\<rparr>\<rparr>) F"
proof -
  note pl = invD(2) [OF iv]
  from pl le have "unat (pos (m_pool st)) + unat sz < 2 ^ 32" by (simp add: pool_ok_def)
  then have u: "unat (pos (m_pool st) + sz) = unat (pos (m_pool st)) + unat sz"
    by (rule unat_add_no_wrap)
  from pl al have "(unat (pos (m_pool st)) + unat sz) mod 16 = 0"
    unfolding pool_ok_def by presburger
  then have p': "pool_ok ((m_pool st)\<lparr>pos := pos (m_pool st) + sz\<rparr>)"
    using pl le by (simp add: pool_ok_def u)
  have b': "\<And>i x. i < 32 \<Longrightarrow> x \<in> set (F i) \<Longrightarrow>
      blk_ok ((m_pool st)\<lparr>pos := pos (m_pool st) + sz\<rparr>) x"
    using invD(3) [OF iv] by (intro blk_ok_pos_mono) (simp_all add: u)
  show ?thesis
    using iv p' b' by (simp add: inv_def sent_ok_def)
qed

lemma fit_in_SomeD:
  "fit_in F m js = Some p \<Longrightarrow> \<exists>j\<in>set js. \<exists>x\<in>set (F j). fst x = p \<and> m \<le> snd x"
  by (induction js) (auto split: option.splits dest: find_SomeD)

lemma TakeAndSplit_miss:
  assumes iv: "inv st F" and c: "SizeClass sz < 32"
    and miss: "fit_in F sz [SizeClass sz..<32] = None"
  shows "TakeAndSplitFreeBlock st sz = Some (0, st)"
  using SegregatedRangeLists_Find_ok [OF invD(1) [OF iv] c, of ] miss
  by (simp add: TakeAndSplitFreeBlock_def)

lemma Allocate_fail:
  assumes iv: "inv st F" and v: "IsValidSize sz" and c: "SizeClass sz < 32"
    and miss: "fit_in F sz [SizeClass sz..<32] = None"
    and full: "\<not> unat (pos (m_pool st)) + unat sz \<le> unat (max_size (m_pool st))"
  shows "Allocate st sz = Some (0, st)"
  using v full
  by (simp add: Allocate_def debug_assert_def Validate_inv [OF iv]
      TakeAndSplit_miss [OF iv c miss] pool_alloc_def)

lemma stats_ok_OnAllocate:
  assumes s: "stats_ok s" and k1: "unat (m_totalAllocatedBlocks s) + 1 < 2 ^ 32"
    and k2: "unat (m_totalAllocatedBytes s) + unat sz < 2 ^ 32"
  shows "stats_ok (OnAllocate s sz)"
proof -
  from k1 have k1': "unat (m_totalAllocatedBlocks s) + unat (1 :: 32 word) < 2 ^ 32" by simp
  have u1: "unat (m_totalAllocatedBlocks s + 1) = unat (m_totalAllocatedBlocks s) + 1"
    using unat_add_no_wrap [OF k1'] by simp
  have u2: "unat (m_totalAllocatedBytes s + sz) = unat (m_totalAllocatedBytes s) + unat sz"
    using k2 by (rule unat_add_no_wrap)
  from s have "unat (m_totalDeallocatedBlocks s) \<le> unat (m_totalAllocatedBlocks s)"
    "unat (m_totalDeallocatedBytes s) \<le> unat (m_totalAllocatedBytes s)"
    by (simp_all add: stats_ok_def word_le_nat_alt)
  then have "m_totalDeallocatedBlocks s \<le> m_totalAllocatedBlocks s + 1"
    "m_totalDeallocatedBytes s \<le> m_totalAllocatedBytes s + sz"
    by (simp_all add: word_le_nat_alt u1 u2)
  with s show ?thesis
    by (simp add: stats_ok_def OnAllocate_def)
qed

lemma Allocate_pool:
  assumes iv: "inv st F" and v: "IsValidSize sz" and c: "SizeClass sz < 32"
    and miss: "fit_in F sz [SizeClass sz..<32] = None"
    and room: "unat (pos (m_pool st)) + unat sz \<le> unat (max_size (m_pool st))"
    and k1: "unat (m_totalAllocatedBlocks (m_stats st)) + 1 < 2 ^ 32"
    and k2: "unat (m_totalAllocatedBytes (m_stats st)) + unat sz < 2 ^ 32"
  shows "Allocate st sz =
      Some (base (m_pool st) + pos (m_pool st),
            st\<lparr>m_pool := (m_pool st)\<lparr>pos := pos (m_pool st) + sz\<rparr>,
               m_stats := OnAllocate (m_stats st) sz\<rparr>) \<and>
    inv (st\<lparr>m_pool := (m_pool st)\<lparr>pos := pos (m_pool st) + sz\<rparr>,
            m_stats := OnAllocate (m_stats st) sz\<rparr>) F"
proof -
  note pl = invD(2) [OF iv]
  from v have al: "unat sz mod 16 = 0" by (simp add: IsValidSize_unat)
  let ?st1 = "st\<lparr>m_pool := (m_pool st)\<lparr>pos := pos (m_pool st) + sz\<rparr>\<rparr>"
  have i1: "inv ?st1 F" using iv room al by (rule inv_pool_upd)
  have "inv (?st1\<lparr>m_stats := OnAllocate (m_stats ?st1) sz\<rparr>) F"
    using i1
  proof (rule inv_stats_upd)
    show "stats_ok (OnAllocate (m_stats ?st1) sz)"
      using invD(9) [OF iv] k1 k2 by (simp add: stats_ok_OnAllocate)
  qed (simp_all add: OnAllocate_def)
  then have i2: "inv (st\<lparr>m_pool := (m_pool st)\<lparr>pos := pos (m_pool st) + sz\<rparr>,
            m_stats := OnAllocate (m_stats st) sz\<rparr>) F" by simp
  from pl have "unat (base (m_pool st)) + unat (pos (m_pool st)) < 2 ^ 32" "0 < unat (base (m_pool st))"
    by (simp_all add: pool_ok_def)
  then have "0 < unat (base (m_pool st) + pos (m_pool st))"
    by (simp add: unat_add_no_wrap)
  then have nz: "base (m_pool st) + pos (m_pool st) \<noteq> 0" by (rule word_neq_0_unat)
  have "Allocate st sz =
      Some (base (m_pool st) + pos (m_pool st),
            st\<lparr>m_pool := (m_pool st)\<lparr>pos := pos (m_pool st) + sz\<rparr>,
               m_stats := OnAllocate (m_stats st) sz\<rparr>)"
    using v room nz
    by (simp add: Allocate_def debug_assert_def Validate_inv [OF iv]
      TakeAndSplit_miss [OF iv c miss] pool_alloc_def Validate_inv [OF i2])
  with i2 show ?thesis by simp
qed

lemma frame_cell:
  assumes g: "geo pool rls F" and fr: "frame mem mem' x N"
    and sub: "N \<subseteq> (\<Union>i\<in>{..<32}. cnodes rls F i)"
    and al: "a mod 16 = 0 \<or> a mod 16 = 12"
    and lo: "unat (base pool) \<le> a + 4" and hi: "a \<le> unat (base pool) + unat (max_size pool)"
    and out: "a < unat (fst x) \<or> unat (fst x) + unat (snd x) \<le> a"
  shows "mem' a = mem a"
proof (rule ccontr)
  assume ne: "mem' a \<noteq> mem a"
  from fr have "mem' a \<noteq> mem a \<longrightarrow>
        (unat (fst x) \<le> a \<and> a < unat (fst x) + unat (snd x)) \<or>
        (\<exists>r\<in>N. a = unat r + 4 \<or> a = unat r + 8)"
    unfolding frame_def by (rule spec)
  with ne have "(unat (fst x) \<le> a \<and> a < unat (fst x) + unat (snd x)) \<or>
        (\<exists>r\<in>N. a = unat r + 4 \<or> a = unat r + 8)" by simp
  moreover from out have "\<not> (unat (fst x) \<le> a \<and> a < unat (fst x) + unat (snd x))" by linarith
  ultimately obtain r where r: "r \<in> N" and a: "a = unat r + 4 \<or> a = unat r + 8"
    by blast
  from r sub obtain i where i: "i < 32" and ri: "r \<in> cnodes rls F i" by auto
  show False
  proof (cases "r = sentinel (rls ! i)")
    case True
    from geoD(2) [OF g] i have "unat r + 20 \<le> unat (base pool) \<or>
        unat (base pool) + unat (max_size pool) \<le> unat r"
      unfolding True by (simp add: sent_ok_def)
    with a lo hi show False by linarith
  next
    case False
    with ri obtain z where z: "z \<in> set (F i)" and rz: "r = fst z" by (auto simp: cnodes_def)
    from geoD(3) [OF g i z] have "unat r mod 16 = 0" by (simp add: blk_ok_def rz)
    then have "(unat r + 4) mod 16 = 4" "(unat r + 8) mod 16 = 8" by presburger+
    with a al show False by auto
  qed
qed

lemma frame_IsFreedBlock:
  assumes g: "geo pool rls F" and fr: "frame mem mem' x N"
    and sub: "N \<subseteq> (\<Union>i\<in>{..<32}. cnodes rls F i)"
    and al: "unat a mod 16 = 0 \<or> unat a mod 16 = 12"
    and lo: "unat (base pool) \<le> unat a + 4"
    and hi: "unat a + 16 \<le> unat (base pool) + unat (max_size pool)"
    and out: "unat a + 20 \<le> unat (fst x) \<or> unat (fst x) + unat (snd x) \<le> unat a"
  shows "IsFreedBlock mem' a i = IsFreedBlock mem a i"
proof -
  have "mem' (unat a) = mem (unat a)"
    using g fr sub al by (rule frame_cell) (use lo hi out in linarith)+
  moreover have "mem' (unat a + 16) = mem (unat a + 16)"
    using g fr sub
  proof (rule frame_cell)
    show "(unat a + 16) mod 16 = 0 \<or> (unat a + 16) mod 16 = 12" using al by presburger
  qed (use lo hi out in linarith)+
  ultimately show ?thesis by (simp add: IsFreedBlock_iff)
qed

lemma cnodes_sub: "i < 32 \<Longrightarrow> cnodes rls F i \<subseteq> (\<Union>i\<in>{..<32}. cnodes rls F i)"
  by auto

lemma tracked_counts:
  assumes iv: "inv st F" and j: "j < 32" and y: "y \<in> set (F j)"
  shows "tag_freeBlocks (m_boundaryTagManager st) \<noteq> 0"
    and "snd y \<le> tag_freeBytes (m_boundaryTagManager st)"
proof -
  from y have "F j \<noteq> []" by auto
  then have "1 \<le> length (F j)" by (cases "F j") simp_all
  with length_le_cnt [OF j, of F] have "0 < cnt F" by linarith
  with invD(5) [OF iv] show "tag_freeBlocks (m_boundaryTagManager st) \<noteq> 0"
    by (intro word_neq_0_unat) simp
  have "unat (snd y) \<le> sum_list (map (\<lambda>x. unat (snd x)) (F j))"
    using sum_remove1_blk [OF y, of "\<lambda>x. unat (snd x)"] by simp
  with sum_le_byt [OF j, of F] invD(6) [OF iv]
  show "snd y \<le> tag_freeBytes (m_boundaryTagManager st)"
    by (simp add: word_le_nat_alt)
qed

lemma tracked_Validate:
  assumes iv: "inv st F" and j: "j < 32" and y: "y \<in> set (F j)"
  shows "BoundaryTagManager_Validate (m_boundaryTagManager st) (heap st) (fst y) = Some ()"
proof -
  have "tagged (heap st) (fst y, snd y)" using invD(4) [OF iv j y] by simp
  then show ?thesis
    using IsValidSize_blk [OF invD(3) [OF iv j y]] tracked_counts [OF iv j y]
    by (rule BoundaryTagManager_Validate_tagged)
qed

lemma blk_unat_end:
  assumes "blk_ok pool y" and "pool_ok pool"
  shows "unat (fst y + snd y) = unat (fst y) + unat (snd y)"
proof -
  from assms have "unat (fst y) + unat (snd y) < 2 ^ 32" by (simp add: blk_ok_def pool_ok_def)
  then show ?thesis by (rule unat_add_no_wrap)
qed

lemma pool_unat_end:
  assumes "pool_ok pool"
  shows "unat (base pool + pos pool) = unat (base pool) + unat (pos pool)"
proof -
  from assms have "unat (base pool) + unat (pos pool) < 2 ^ 32" by (simp add: pool_ok_def)
  then show ?thesis by (rule unat_add_no_wrap)
qed

lemma PrecedingBlock_none:
  "\<not> pre_free st p \<Longrightarrow>
   PrecedingBlock (m_boundaryTagManager st) (heap st) p (base (m_pool st)) = Some 0"
  by (auto simp: pre_free_def PrecedingBlock_def Let_def)

lemma PrecedingBlock_tracked:
  assumes iv: "inv st F" and j: "j < 32" and y: "y \<in> set (F j)" and e: "fst y + snd y = p"
  shows "PrecedingBlock (m_boundaryTagManager st) (heap st) p (base (m_pool st)) = Some (fst y)"
    and "pre_free st p" and "fst y \<noteq> 0" and "Size (heap st) (fst y) = snd y"
proof -
  note yb = invD(3) [OF iv j y] and pl = invD(2) [OF iv] and ty = invD(4) [OF iv j y]
  have up: "unat p = unat (fst y) + unat (snd y)"
    using blk_unat_end [OF yb pl] e by simp
  from yb up have "unat (base (m_pool st)) < unat p" by (simp add: blk_ok_def)
  then have pb: "p \<noteq> base (m_pool st)" by auto
  from ty have f1: "IsFreedBlock (heap st) (p - sizeof_FreedBlock) s_footerId"
    and f2: "Size (heap st) (p - sizeof_FreedBlock) = snd y"
    and h2: "Size (heap st) (fst y) = snd y"
    by (simp_all add: tagged_def e)
  have fv: "FreedBlock_Validate (heap st) (p - sizeof_FreedBlock) s_footerId = Some ()"
    using f1 f2 IsValidSize_blk [OF yb] by (simp add: FreedBlock_Validate_iff)
  have q: "p - snd y = fst y" using e by auto
  show "PrecedingBlock (m_boundaryTagManager st) (heap st) p (base (m_pool st)) = Some (fst y)"
    using pb f1 by (simp add: PrecedingBlock_def Let_def fv f2 q tracked_Validate [OF iv j y])
  show "pre_free st p" using pb f1 by (simp add: pre_free_def)
  from yb pl show "fst y \<noteq> 0" by (auto simp: blk_ok_def pool_ok_def)
  show "Size (heap st) (fst y) = snd y" by (rule h2)
qed

lemma FollowingBlock_none:
  "\<not> fol_free st p sz \<Longrightarrow>
   FollowingBlock (m_boundaryTagManager st) (heap st) p sz (base (m_pool st) + pos (m_pool st)) = Some 0"
  by (auto simp: fol_free_def FollowingBlock_def Let_def)

lemma FollowingBlock_tracked:
  assumes iv: "inv st F" and j: "j < 32" and y: "y \<in> set (F j)" and e: "fst y = p + sz"
  shows "FollowingBlock (m_boundaryTagManager st) (heap st) p sz
           (base (m_pool st) + pos (m_pool st)) = Some (fst y)"
    and "fol_free st p sz" and "fst y \<noteq> 0" and "Size (heap st) (fst y) = snd y"
proof -
  note yb = invD(3) [OF iv j y] and pl = invD(2) [OF iv] and ty = invD(4) [OF iv j y]
  from yb have "unat (fst y) < unat (base (m_pool st)) + unat (pos (m_pool st))"
    by (simp add: blk_ok_def)
  then have "unat (fst y) \<noteq> unat (base (m_pool st) + pos (m_pool st))"
    by (simp add: pool_unat_end [OF pl])
  then have pe: "p + sz \<noteq> base (m_pool st) + pos (m_pool st)" using e by auto
  from ty have f1: "IsFreedBlock (heap st) (p + sz) s_headerId"
    and h2: "Size (heap st) (fst y) = snd y"
    by (simp_all add: tagged_def e)
  show "FollowingBlock (m_boundaryTagManager st) (heap st) p sz
           (base (m_pool st) + pos (m_pool st)) = Some (fst y)"
    using pe f1 tracked_Validate [OF iv j y]
    by (simp add: FollowingBlock_def Let_def e)
  show "fol_free st p sz" using pe f1 by (simp add: fol_free_def)
  from yb pl show "fst y \<noteq> 0" by (auto simp: blk_ok_def pool_ok_def)
  show "Size (heap st) (fst y) = snd y" by (rule h2)
qed

lemma tracked_remove1:
  "tracked (F(j := remove1 y (F j))) z \<Longrightarrow> tracked F z"
  using set_remove1_subset [of y "F j"] unfolding tracked_def by (auto split: if_splits)

lemma tracked_remove1_other:
  "tracked F z \<Longrightarrow> z \<noteq> y \<Longrightarrow> tracked (F(j := remove1 y (F j))) z"
  unfolding tracked_def by (auto split: if_splits)

lemma remove1_upd_mem:
  assumes g: "geo pool rls F" and d: "distinct (F j)" and j: "j < 32" and y: "y \<in> set (F j)"
    and i: "i < 32" and z: "z \<in> set ((F(j := remove1 y (F j))) i)"
  shows "z \<in> set (F i)" and "z \<noteq> y"
proof -
  show zF: "z \<in> set (F i)"
    using z set_remove1_subset [of y "F j"] by (auto split: if_splits)
  show "z \<noteq> y"
  proof (cases "i = j")
    case True
    with z d show ?thesis by simp
  next
    case False
    with geoD(4) [OF g i zF] geoD(4) [OF g j y] show ?thesis by auto
  qed
qed

lemma fresh_merge_pre:
  assumes g: "geo pool rls F" and d: "distinct (F j)" and j: "j < 32" and y: "y \<in> set (F j)"
    and bx: "blk_ok pool (p, sz)" and fx: "fresh_blk F (p, sz)"
    and e: "unat (fst y) + unat (snd y) = unat p" and u: "unat (sz + snd y) = unat sz + unat (snd y)"
  shows "fresh_blk (F(j := remove1 y (F j))) (fst y, sz + snd y)"
  unfolding fresh_blk_def
proof (intro allI impI ballI)
  fix i z assume i: "i < 32" and z: "z \<in> set ((F(j := remove1 y (F j))) i)"
  note m = remove1_upd_mem [OF g d j y i z]
  from geoD(5) [OF g i j m(1) y m(2)] have d1: "disjoint_blk z y" .
  from fx i m(1) have d2: "disjoint_blk (p, sz) z" by (simp add: fresh_blk_def)
  from geoD(3) [OF g i m(1)] have "40 \<le> unat (snd z)" by (simp add: blk_ok_def)
  with d1 d2 e u show "disjoint_blk (fst y, sz + snd y) z"
    by (auto simp: disjoint_blk_def)
qed

lemma fresh_merge_fol:
  assumes g: "geo pool rls F" and d: "distinct (F j)" and j: "j < 32" and y: "y \<in> set (F j)"
    and bx: "blk_ok pool (p, sz)" and fx: "fresh_blk F (p, sz)"
    and e: "unat (fst y) = unat p + unat sz" and u: "unat (sz + snd y) = unat sz + unat (snd y)"
  shows "fresh_blk (F(j := remove1 y (F j))) (p, sz + snd y)"
  unfolding fresh_blk_def
proof (intro allI impI ballI)
  fix i z assume i: "i < 32" and z: "z \<in> set ((F(j := remove1 y (F j))) i)"
  note m = remove1_upd_mem [OF g d j y i z]
  from geoD(5) [OF g i j m(1) y m(2)] have d1: "disjoint_blk z y" .
  from fx i m(1) have d2: "disjoint_blk (p, sz) z" by (simp add: fresh_blk_def)
  from geoD(3) [OF g i m(1)] have "40 \<le> unat (snd z)" by (simp add: blk_ok_def)
  moreover from bx have "40 \<le> unat sz" by (simp add: blk_ok_def)
  ultimately show "disjoint_blk (p, sz + snd y) z"
    using d1 d2 e u by (auto simp: disjoint_blk_def)
qed

lemma inv_distinct: "inv st F \<Longrightarrow> i < 32 \<Longrightarrow> distinct (F i)"
  using srl_distinct [OF invD(1)] by (simp add: distinct_map)

lemma Coalesce_preceding_inv:
  assumes iv: "inv st F" and bx: "blk_ok (m_pool st) (p, sz)" and fx: "fresh_blk F (p, sz)"
    and S: "pre_free st p \<longrightarrow> (\<exists>y. tracked F y \<and> fst y + snd y = p)"
  shows "\<exists>p1 sz1 st1 F1. Coalesce_preceding st p sz = Some (p1, sz1, st1) \<and>
      inv st1 F1 \<and> blk_ok (m_pool st1) (p1, sz1) \<and> fresh_blk F1 (p1, sz1) \<and>
      p1 + sz1 = p + sz \<and> m_pool st1 = m_pool st \<and>
      fol_free st1 p1 sz1 = fol_free st p sz \<and>
      (\<forall>y. tracked F1 y \<longrightarrow> tracked F y) \<and>
      (\<forall>y. tracked F y \<and> fst y + snd y \<noteq> p \<longrightarrow> tracked F1 y) \<and>
      cnt F1 + (if pre_free st p then 1 else 0) = cnt F \<and>
      byt F1 + unat sz1 = byt F + unat sz \<and>
      m_stats st1 = (m_stats st)\<lparr>m_currentFreeBlocks := m_currentFreeBlocks (m_stats st1),
                                  m_currentFreeBytes := m_currentFreeBytes (m_stats st1)\<rparr> \<and>
      ((\<not> pre_free st p \<and> p1 = p \<and> sz1 = sz \<and> F1 = F) \<or>
       (\<exists>j<32. \<exists>y\<in>set (F j). fst y + snd y = p \<and> p1 = fst y \<and> sz1 = sz + snd y \<and>
          F1 = F(j := remove1 y (F j))))"
proof (cases "pre_free st p")
  case False
  then have "Coalesce_preceding st p sz = Some (p, sz, st)"
    by (simp add: Coalesce_preceding_def PrecedingBlock_none)
  with False iv bx fx show ?thesis
    by (intro exI [of _ p] exI [of _ sz] exI [of _ st] exI [of _ F]) simp
next
  case True
  with S obtain y j where j: "j < 32" and y: "y \<in> set (F j)" and e: "fst y + snd y = p"
    by (auto simp: tracked_def)
  note g = inv_geo [OF iv] and pl = invD(2) [OF iv] and yb = invD(3) [OF iv j y]
  note P = PrecedingBlock_tracked [OF iv j y e]
  have up: "unat (fst y) + unat (snd y) = unat p"
    using blk_unat_end [OF yb pl] e by simp
  from bx have xb: "unat p + unat sz \<le> unat (base (m_pool st)) + unat (pos (m_pool st))"
    "40 \<le> unat sz" "unat sz mod 16 = 0" "unat p mod 16 = 0"
    by (simp_all add: blk_ok_def)
  from yb have yb': "unat (base (m_pool st)) \<le> unat (fst y)" "40 \<le> unat (snd y)"
    "unat (snd y) mod 16 = 0" "unat (fst y) mod 16 = 0"
    by (simp_all add: blk_ok_def)
  from pl have pl': "unat (base (m_pool st)) + unat (max_size (m_pool st)) < 2 ^ 32"
    "unat (pos (m_pool st)) \<le> unat (max_size (m_pool st))"
    "unat (base (m_pool st)) mod 16 = 0" "unat (pos (m_pool st)) mod 16 = 0"
    by (simp_all add: pool_ok_def)
  have "unat sz + unat (snd y) < 2 ^ 32" using up xb(1) yb'(1) pl'(1,2) by linarith
  then have u: "unat (sz + snd y) = unat sz + unat (snd y)" by (rule unat_add_no_wrap)
  from RemoveFromFreelist_inv [OF iv y j]
  obtain st1 where r: "RemoveFromFreelist st (fst y) = Some st1"
    and iv1: "inv st1 (F(j := remove1 y (F j)))" and p1: "m_pool st1 = m_pool st"
    and s1: "m_stats st1 = (m_stats st)\<lparr>m_currentFreeBlocks := m_currentFreeBlocks (m_stats st) - 1,
                                  m_currentFreeBytes := m_currentFreeBytes (m_stats st) - snd y\<rparr>"
    and fr: "frame (heap st) (heap st1) y (cnodes (m_rangeLists (m_segregatedRangeLists st)) F j)"
    by blast
  let ?F = "F(j := remove1 y (F j))"
  have q: "p - snd y = fst y" using e by auto
  have run: "Coalesce_preceding st p sz = Some (fst y, sz + snd y, st1)"
    using P(3) by (simp add: Coalesce_preceding_def P(1,4) Let_def q r)
  have ms: "(unat sz + unat (snd y)) mod 16 = 0" using xb(3) yb'(3) by presburger
  have b1: "blk_ok (m_pool st1) (fst y, sz + snd y)"
    unfolding p1 blk_ok_def using up xb yb' u ms by simp
  have f1: "fresh_blk ?F (fst y, sz + snd y)"
    using g inv_distinct [OF iv j] j y bx fx up u by (rule fresh_merge_pre)
  have w: "fst y + (sz + snd y) = p + sz" using e by auto
  have ff: "fol_free st1 (fst y) (sz + snd y) = fol_free st p sz"
  proof (cases "p + sz = base (m_pool st) + pos (m_pool st)")
    case True
    then show ?thesis by (simp add: fol_free_def w p1)
  next
    case False
    have ua: "unat (p + sz) = unat p + unat sz"
      using blk_unat_end [OF bx pl] by simp
    from False have "unat (p + sz) \<noteq> unat (base (m_pool st) + pos (m_pool st))"
      by (simp only: word_unat_eq_iff) simp
    then have ne: "unat p + unat sz \<noteq> unat (base (m_pool st)) + unat (pos (m_pool st))"
      by (simp add: ua pool_unat_end [OF pl])
    have m0: "(unat p + unat sz) mod 16 = 0" using xb(3,4) by presburger
    have m1: "(unat (base (m_pool st)) + unat (pos (m_pool st))) mod 16 = 0"
      using pl'(3,4) by presburger
    from ne xb(1) m0 m1
    have h16: "unat p + unat sz + 16 \<le> unat (base (m_pool st)) + unat (pos (m_pool st))"
      by presburger
    have "IsFreedBlock (heap st1) (p + sz) s_headerId = IsFreedBlock (heap st) (p + sz) s_headerId"
      using g fr cnodes_sub [OF j]
    proof (rule frame_IsFreedBlock)
      show "unat (p + sz) mod 16 = 0 \<or> unat (p + sz) mod 16 = 12" using m0 by (simp add: ua)
      show "unat (base (m_pool st)) \<le> unat (p + sz) + 4" using up yb'(1) by (simp add: ua)
      show "unat (p + sz) + 16 \<le> unat (base (m_pool st)) + unat (max_size (m_pool st))"
        using h16 pl'(2) by (simp add: ua)
      show "unat (p + sz) + 20 \<le> unat (fst y) \<or> unat (fst y) + unat (snd y) \<le> unat (p + sz)"
        using up by (simp add: ua)
    qed
    then show ?thesis by (simp add: fol_free_def w p1)
  qed
  have t1: "\<forall>z. tracked ?F z \<longrightarrow> tracked F z" by (blast intro: tracked_remove1)
  have t2: "\<forall>z. tracked F z \<and> fst z + snd z \<noteq> p \<longrightarrow> tracked ?F z"
    using e by (auto intro!: tracked_remove1_other)
  have cn: "cnt ?F + 1 = cnt F"
    using cnt_upd [OF j, of F "remove1 y (F j)"] length_remove1_blk [OF y] by simp
  have bn: "byt ?F + unat (snd y) = byt F"
    using byt_upd [OF j, of F "remove1 y (F j)"] sum_remove1_blk [OF y, of "\<lambda>x. unat (snd x)"]
    by simp
  have c1: "cnt ?F + (if pre_free st p then 1 else 0) = cnt F" using True cn by simp
  have c2: "byt ?F + unat (sz + snd y) = byt F + unat sz" using bn u by simp
  have s2: "m_stats st1 = (m_stats st)\<lparr>m_currentFreeBlocks := m_currentFreeBlocks (m_stats st1),
                                  m_currentFreeBytes := m_currentFreeBytes (m_stats st1)\<rparr>"
    by (simp add: s1)
  have last: "\<exists>k<32. \<exists>z\<in>set (F k). fst z + snd z = p \<and> fst y = fst z \<and> sz + snd y = sz + snd z \<and>
          ?F = F(k := remove1 z (F k))"
    using j y e by blast
  show ?thesis
    using run iv1 b1 f1 w p1 ff t1 t2 c1 c2 s2 last
    by (intro exI [of _ "fst y"] exI [of _ "sz + snd y"] exI [of _ st1] exI [of _ ?F]) blast
qed

lemma Coalesce_following_inv:
  assumes iv: "inv st F" and bx: "blk_ok (m_pool st) (p, sz)" and fx: "fresh_blk F (p, sz)"
    and S: "fol_free st p sz \<longrightarrow> (\<exists>y. tracked F y \<and> fst y = p + sz)"
  shows "\<exists>sz2 st2 F2. Coalesce_following st p sz = Some (p, sz2, st2) \<and>
      inv st2 F2 \<and> blk_ok (m_pool st2) (p, sz2) \<and> fresh_blk F2 (p, sz2) \<and>
      m_pool st2 = m_pool st \<and>
      (\<forall>y. tracked F2 y \<longrightarrow> tracked F y) \<and>
      (\<forall>y. tracked F y \<and> fst y \<noteq> p + sz \<longrightarrow> tracked F2 y) \<and>
      cnt F2 + (if fol_free st p sz then 1 else 0) = cnt F \<and>
      byt F2 + unat sz2 = byt F + unat sz \<and>
      m_stats st2 = (m_stats st)\<lparr>m_currentFreeBlocks := m_currentFreeBlocks (m_stats st2),
                                  m_currentFreeBytes := m_currentFreeBytes (m_stats st2)\<rparr> \<and>
      ((\<not> fol_free st p sz \<and> sz2 = sz \<and> F2 = F) \<or>
       (\<exists>j<32. \<exists>y\<in>set (F j). fst y = p + sz \<and> sz2 = sz + snd y \<and>
          F2 = F(j := remove1 y (F j))))"
proof (cases "fol_free st p sz")
  case False
  then have "Coalesce_following st p sz = Some (p, sz, st)"
    by (simp add: Coalesce_following_def FollowingBlock_none)
  with False iv bx fx show ?thesis
    by (intro exI [of _ sz] exI [of _ st] exI [of _ F]) simp
next
  case True
  with S obtain y j where j: "j < 32" and y: "y \<in> set (F j)" and e: "fst y = p + sz"
    by (auto simp: tracked_def)
  note g = inv_geo [OF iv] and pl = invD(2) [OF iv] and yb = invD(3) [OF iv j y]
  note P = FollowingBlock_tracked [OF iv j y e]
  have ua: "unat (p + sz) = unat p + unat sz"
    using blk_unat_end [OF bx pl] by simp
  have up: "unat (fst y) = unat p + unat sz" by (simp add: e ua)
  from bx have xb: "unat (base (m_pool st)) \<le> unat p"
    "40 \<le> unat sz" "unat sz mod 16 = 0" "unat p mod 16 = 0"
    by (simp_all add: blk_ok_def)
  from yb have yb': "unat (fst y) + unat (snd y) \<le> unat (base (m_pool st)) + unat (pos (m_pool st))"
    "40 \<le> unat (snd y)" "unat (snd y) mod 16 = 0"
    by (simp_all add: blk_ok_def)
  from pl have pl': "unat (base (m_pool st)) + unat (max_size (m_pool st)) < 2 ^ 32"
    "unat (pos (m_pool st)) \<le> unat (max_size (m_pool st))"
    by (simp_all add: pool_ok_def)
  have "unat sz + unat (snd y) < 2 ^ 32" using up xb(1) yb'(1) pl'(1,2) by linarith
  then have u: "unat (sz + snd y) = unat sz + unat (snd y)" by (rule unat_add_no_wrap)
  from RemoveFromFreelist_inv [OF iv y j]
  obtain st1 where r: "RemoveFromFreelist st (fst y) = Some st1"
    and iv1: "inv st1 (F(j := remove1 y (F j)))" and p1: "m_pool st1 = m_pool st"
    and s1: "m_stats st1 = (m_stats st)\<lparr>m_currentFreeBlocks := m_currentFreeBlocks (m_stats st) - 1,
                                  m_currentFreeBytes := m_currentFreeBytes (m_stats st) - snd y\<rparr>"
    by blast
  let ?F = "F(j := remove1 y (F j))"
  have run: "Coalesce_following st p sz = Some (p, sz + snd y, st1)"
    using P(3) by (simp add: Coalesce_following_def P(1,4) Let_def r)
  have ms: "(unat sz + unat (snd y)) mod 16 = 0" using xb(3) yb'(3) by presburger
  have b1: "blk_ok (m_pool st1) (p, sz + snd y)"
    unfolding p1 blk_ok_def using up xb yb' u ms by simp
  have f1: "fresh_blk ?F (p, sz + snd y)"
    using g inv_distinct [OF iv j] j y bx fx up u by (rule fresh_merge_fol)
  have t1: "\<forall>z. tracked ?F z \<longrightarrow> tracked F z" by (blast intro: tracked_remove1)
  have t2: "\<forall>z. tracked F z \<and> fst z \<noteq> p + sz \<longrightarrow> tracked ?F z"
    using e by (auto intro!: tracked_remove1_other)
  have cn: "cnt ?F + 1 = cnt F"
    using cnt_upd [OF j, of F "remove1 y (F j)"] length_remove1_blk [OF y] by simp
  have bn: "byt ?F + unat (snd y) = byt F"
    using byt_upd [OF j, of F "remove1 y (F j)"] sum_remove1_blk [OF y, of "\<lambda>x. unat (snd x)"]
    by simp
  have c1: "cnt ?F + (if fol_free st p sz then 1 else 0) = cnt F" using True cn by simp
  have c2: "byt ?F + unat (sz + snd y) = byt F + unat sz" using bn u by simp
  have s2: "m_stats st1 = (m_stats st)\<lparr>m_currentFreeBlocks := m_currentFreeBlocks (m_stats st1),
                                  m_currentFreeBytes := m_currentFreeBytes (m_stats st1)\<rparr>"
    by (simp add: s1)
  have last: "\<exists>k<32. \<exists>z\<in>set (F k). fst z = p + sz \<and> sz + snd y = sz + snd z \<and>
          ?F = F(k := remove1 z (F k))"
    using j y e by blast
  show ?thesis
    using run iv1 b1 f1 p1 t1 t2 c1 c2 s2 last
    by (intro exI [of _ "sz + snd y"] exI [of _ st1] exI [of _ ?F]) blast
qed

lemma OnDeallocate_ok:
  assumes s: "stats_ok s" and e1: "m_currentExtantBlocks s \<noteq> 0" and e2: "sz \<le> m_currentExtantBytes s"
  shows "\<exists>s'. OnDeallocate s sz = Some s' \<and> stats_ok s' \<and>
      m_currentFreeBlocks s' = m_currentFreeBlocks s \<and> m_currentFreeBytes s' = m_currentFreeBytes s"
proof -
  let ?a = "m_totalAllocatedBlocks s" and ?d = "m_totalDeallocatedBlocks s"
  let ?A = "m_totalAllocatedBytes s" and ?D = "m_totalDeallocatedBytes s"
  from s have le: "?d \<le> ?a" "?D \<le> ?A" and x: "m_currentExtantBlocks s = ?a - ?d"
    "m_currentExtantBytes s = ?A - ?D"
    by (simp_all add: stats_ok_def)
  have ux: "unat (?a - ?d) = unat ?a - unat ?d" "unat (?A - ?D) = unat ?A - unat ?D"
    using le by (simp_all add: unat_sub)
  from e1 x(1) have "0 < unat (?a - ?d)" by (simp add: unat_gt_0)
  with ux le have lt: "unat ?d + 1 \<le> unat ?a" by (simp add: word_le_nat_alt)
  from unsigned_less [of ?a] have "unat ?a < 2 ^ 32" by simp
  with lt have "unat ?d + unat (1 :: 32 word) < 2 ^ 32" by simp
  then have u1: "unat (?d + 1) = unat ?d + 1" using unat_add_no_wrap [of ?d 1] by simp
  from e2 x(2) ux le have lt2: "unat ?D + unat sz \<le> unat ?A" by (simp add: word_le_nat_alt)
  from unsigned_less [of ?A] have "unat ?A < 2 ^ 32" by simp
  with lt2 have "unat ?D + unat sz < 2 ^ 32" by simp
  then have u2: "unat (?D + sz) = unat ?D + unat sz" by (rule unat_add_no_wrap)
  have a1: "?d + 1 \<le> ?a" using lt by (simp add: word_le_nat_alt u1)
  have a2: "?D + sz \<le> ?A" using lt2 by (simp add: word_le_nat_alt u2)
  let ?s' = "s\<lparr>m_totalDeallocatedBlocks := ?d + 1, m_totalDeallocatedBytes := ?D + sz,
       m_currentExtantBlocks := m_currentExtantBlocks s - 1,
       m_currentExtantBytes := m_currentExtantBytes s - sz\<rparr>"
  have "OnDeallocate s sz = Some ?s'"
    using a1 e1 e2 by (simp add: OnDeallocate_def Let_def debug_assert_def)
  moreover have "stats_ok ?s'"
    using a1 a2 x by (simp add: stats_ok_def)
  ultimately show ?thesis by (intro exI [of _ ?s']) simp
qed

lemma pre_free_stats [simp]: "pre_free (st\<lparr>m_stats := s\<rparr>) p = pre_free st p"
  by (simp add: pre_free_def)

lemma fol_free_stats [simp]: "fol_free (st\<lparr>m_stats := s\<rparr>) p sz = fol_free st p sz"
  by (simp add: fol_free_def)

lemma Deallocate_asserts:
  assumes bx: "blk_ok pool (p, sz)" and pl: "pool_ok pool"
  shows "p mod minAlignment = 0" and "IsValidSize sz" and "pool_contains pool p"
    and "pool_contains pool (p + sz - 1)"
proof -
  from bx have xb: "unat (base pool) \<le> unat p" "unat p + unat sz \<le> unat (base pool) + unat (pos pool)"
    "40 \<le> unat sz" "unat sz mod 16 = 0" "unat p mod 16 = 0"
    by (simp_all add: blk_ok_def)
  show "p mod minAlignment = 0" using xb(5) by (simp add: minAlignment_def word_mod16_unat)
  show "IsValidSize sz" using IsValidSize_blk [OF bx] by simp
  show "pool_contains pool p" using xb by (simp add: pool_contains_def)
  have ua: "unat (p + sz) = unat p + unat sz" using blk_unat_end [OF bx pl] by simp
  with xb have "1 \<le> p + sz" by (simp add: word_le_nat_alt)
  then have "unat (p + sz - 1) = unat p + unat sz - 1" by (simp add: unat_sub ua)
  then show "pool_contains pool (p + sz - 1)" using xb unfolding pool_contains_def by linarith
qed

lemma Deallocate_inv:
  assumes iv: "inv st F" and bx: "blk_ok (m_pool st) (p, sz)" and fx: "fresh_blk F (p, sz)"
    and ps: "probes_sound st F p sz"
    and e1: "m_currentExtantBlocks (m_stats st) \<noteq> 0" and e2: "sz \<le> m_currentExtantBytes (m_stats st)"
  shows "\<exists>st' p1 sza sz1 F1 F2. Deallocate st p sz = Some st' \<and>
      inv st' (F2(SizeClass sz1 := ins_blk (p1, sz1) (F2 (SizeClass sz1)))) \<and>
      m_pool st' = m_pool st \<and> SizeClass sz1 < 32 \<and>
      cnt F2 + (if pre_free st p then 1 else 0) + (if fol_free st p sz then 1 else 0) = cnt F \<and>
      byt F2 + unat sz1 = byt F + unat sz \<and>
      ((\<not> pre_free st p \<and> p1 = p \<and> sza = sz \<and> F1 = F) \<or>
       (\<exists>j<32. \<exists>y\<in>set (F j). fst y + snd y = p \<and> p1 = fst y \<and> sza = sz + snd y \<and>
          F1 = F(j := remove1 y (F j)))) \<and>
      ((\<not> fol_free st p sz \<and> sz1 = sza \<and> F2 = F1) \<or>
       (\<exists>j<32. \<exists>y\<in>set (F1 j). fst y = p + sz \<and> sz1 = sza + snd y \<and>
          F2 = F1(j := remove1 y (F1 j))))"
proof -
  note pl = invD(2) [OF iv]
  note A = Deallocate_asserts [OF bx pl]
  from OnDeallocate_ok [OF invD(9) [OF iv] e1 e2]
  obtain s' where od: "OnDeallocate (m_stats st) sz = Some s'" and so: "stats_ok s'"
    and sf: "m_currentFreeBlocks s' = m_currentFreeBlocks (m_stats st)"
      "m_currentFreeBytes s' = m_currentFreeBytes (m_stats st)"
    by blast
  let ?st0 = "st\<lparr>m_stats := s'\<rparr>"
  have iv0: "inv ?st0 F" using iv so sf by (rule inv_stats_upd)
  have bx0: "blk_ok (m_pool ?st0) (p, sz)" using bx by simp
  have S1: "pre_free ?st0 p \<longrightarrow> (\<exists>y. tracked F y \<and> fst y + snd y = p)"
    using ps by (simp add: probes_sound_def)
  from Coalesce_preceding_inv [OF iv0 bx0 fx S1]
  obtain p1 sza st1 F1 where c1: "Coalesce_preceding ?st0 p sz = Some (p1, sza, st1)"
    and iv1: "inv st1 F1" and b1: "blk_ok (m_pool st1) (p1, sza)" and f1: "fresh_blk F1 (p1, sza)"
    and w: "p1 + sza = p + sz" and pp1': "m_pool st1 = m_pool ?st0"
    and ff': "fol_free st1 p1 sza = fol_free ?st0 p sz"
    and t2: "\<forall>y. tracked F y \<and> fst y + snd y \<noteq> p \<longrightarrow> tracked F1 y"
    and n1': "cnt F1 + (if pre_free ?st0 p then 1 else 0) = cnt F"
    and m1: "byt F1 + unat sza = byt F + unat sz"
    and d1': "(\<not> pre_free ?st0 p \<and> p1 = p \<and> sza = sz \<and> F1 = F) \<or>
       (\<exists>j<32. \<exists>y\<in>set (F j). fst y + snd y = p \<and> p1 = fst y \<and> sza = sz + snd y \<and>
          F1 = F(j := remove1 y (F j)))"
    by (elim exE conjE) (rule that; assumption)
  have pp1: "m_pool st1 = m_pool st" using pp1' by simp
  have ff: "fol_free st1 p1 sza = fol_free st p sz" using ff' by simp
  have n1: "cnt F1 + (if pre_free st p then 1 else 0) = cnt F" using n1' by simp
  have d1: "(\<not> pre_free st p \<and> p1 = p \<and> sza = sz \<and> F1 = F) \<or>
       (\<exists>j<32. \<exists>y\<in>set (F j). fst y + snd y = p \<and> p1 = fst y \<and> sza = sz + snd y \<and>
          F1 = F(j := remove1 y (F j)))"
    using d1' unfolding pre_free_stats .
  have S2: "fol_free st1 p1 sza \<longrightarrow> (\<exists>y. tracked F1 y \<and> fst y = p1 + sza)"
  proof
    assume "fol_free st1 p1 sza"
    with ff ps obtain y where y: "tracked F y" "fst y = p + sz"
      by (auto simp: probes_sound_def)
    then obtain j where j: "j < 32" "y \<in> set (F j)" by (auto simp: tracked_def)
    have "fst y + snd y \<noteq> p"
    proof
      assume e: "fst y + snd y = p"
      from invD(3) [OF iv j] have yb: "blk_ok (m_pool st) y" .
      from blk_unat_end [OF yb pl] e have "unat p = unat (fst y) + unat (snd y)" by simp
      moreover from blk_unat_end [OF bx pl] y(2) have "unat (fst y) = unat p + unat sz" by simp
      moreover from bx have "40 \<le> unat sz" by (simp add: blk_ok_def)
      ultimately show False by simp
    qed
    with t2 y show "\<exists>y. tracked F1 y \<and> fst y = p1 + sza" unfolding w by blast
  qed
  from Coalesce_following_inv [OF iv1 b1 f1 S2]
  obtain sz1 st2 F2 where c2: "Coalesce_following st1 p1 sza = Some (p1, sz1, st2)"
    and iv2: "inv st2 F2" and b2: "blk_ok (m_pool st2) (p1, sz1)" and f2: "fresh_blk F2 (p1, sz1)"
    and pp2: "m_pool st2 = m_pool st1"
    and n2: "cnt F2 + (if fol_free st1 p1 sza then 1 else 0) = cnt F1"
    and m2: "byt F2 + unat sz1 = byt F1 + unat sza"
    and d2: "(\<not> fol_free st1 p1 sza \<and> sz1 = sza \<and> F2 = F1) \<or>
       (\<exists>j<32. \<exists>y\<in>set (F1 j). fst y = p1 + sza \<and> sz1 = sza + snd y \<and>
          F2 = F1(j := remove1 y (F1 j)))"
    by (elim exE conjE) (rule that; assumption)
  have co: "Coalesce ?st0 p sz = Some (p1, sz1, st2)"
    by (simp add: Coalesce_def c1 c2)
  from AddToFreelist_inv [OF iv2 b2 f2 refl]
  obtain st3 where a3: "AddToFreelist st2 p1 sz1 = Some st3"
    and iv3: "inv st3 (F2(SizeClass sz1 := ins_blk (p1, sz1) (F2 (SizeClass sz1))))"
    and pp3: "m_pool st3 = m_pool st2" and c32: "SizeClass sz1 < 32"
    unfolding fst_conv snd_conv by (elim exE conjE) (rule that; assumption)
  have run: "Deallocate st p sz = Some st3"
    using A by (simp add: Deallocate_def debug_assert_def Validate_inv [OF iv] od co a3
        Validate_inv [OF iv3])
  have cn: "cnt F2 + (if pre_free st p then 1 else 0) + (if fol_free st p sz then 1 else 0) = cnt F"
    using n1 n2 ff by simp
  have bn: "byt F2 + unat sz1 = byt F + unat sz" using m1 m2 by simp
  from d2 have d2': "(\<not> fol_free st p sz \<and> sz1 = sza \<and> F2 = F1) \<or>
       (\<exists>j<32. \<exists>y\<in>set (F1 j). fst y = p + sz \<and> sz1 = sza + snd y \<and>
          F2 = F1(j := remove1 y (F1 j)))"
    unfolding ff w .
  show ?thesis
    using run iv3 pp1 pp2 pp3 c32 cn bn d1 d2'
    by (intro exI [of _ st3] exI [of _ p1] exI [of _ sza] exI [of _ sz1] exI [of _ F1]
        exI [of _ F2]) (simp del: fun_upd_apply)
qed

lemma RemoveFromFreelist_cum:
  "RemoveFromFreelist st b = Some st' \<Longrightarrow> cum (m_stats st') = cum (m_stats st)"
  by (auto simp: RemoveFromFreelist_def OnRemoveFromFreelist_def cum_def
      split: Option.bind_splits prod.splits)

lemma AddToFreelist_cum:
  "AddToFreelist st p sz = Some st' \<Longrightarrow> cum (m_stats st') = cum (m_stats st)"
  by (auto simp: AddToFreelist_def OnAddToFreelist_def cum_def
      split: Option.bind_splits prod.splits)

lemma Coalesce_cum:
  assumes "Coalesce st p sz = Some (p1, sz1, st1)"
  shows "cum (m_stats st1) = cum (m_stats st)"
proof -
  from assms obtain pa sa sta where a: "Coalesce_preceding st p sz = Some (pa, sa, sta)"
    and b: "Coalesce_following sta pa sa = Some (p1, sz1, st1)"
    by (auto simp: Coalesce_def split: Option.bind_splits)
  from a have "cum (m_stats sta) = cum (m_stats st)"
    by (auto simp: Coalesce_preceding_def Let_def RemoveFromFreelist_cum
        split: Option.bind_splits if_splits)
  moreover from b have "cum (m_stats st1) = cum (m_stats sta)"
    by (auto simp: Coalesce_following_def Let_def RemoveFromFreelist_cum
        split: Option.bind_splits if_splits)
  ultimately show ?thesis by simp
qed

lemma Deallocate_cum:
  assumes "Deallocate st p sz = Some st'"
  shows "cum (m_stats st') =
     (m_totalAllocatedBlocks (m_stats st), m_totalAllocatedBytes (m_stats st),
      m_totalDeallocatedBlocks (m_stats st) + 1, m_totalDeallocatedBytes (m_stats st) + sz,
      m_currentExtantBlocks (m_stats st) - 1, m_currentExtantBytes (m_stats st) - sz)"
proof -
  from assms obtain s' p1 sz1 st1 where od: "OnDeallocate (m_stats st) sz = Some s'"
    and co: "Coalesce (st\<lparr>m_stats := s'\<rparr>) p sz = Some (p1, sz1, st1)"
    and ad: "AddToFreelist st1 p1 sz1 = Some st'"
    by (auto simp: Deallocate_def split: Option.bind_splits)
  from od have "cum s' =
     (m_totalAllocatedBlocks (m_stats st), m_totalAllocatedBytes (m_stats st),
      m_totalDeallocatedBlocks (m_stats st) + 1, m_totalDeallocatedBytes (m_stats st) + sz,
      m_currentExtantBlocks (m_stats st) - 1, m_currentExtantBytes (m_stats st) - sz)"
    by (auto simp: OnDeallocate_def Let_def cum_def split: Option.bind_splits)
  with Coalesce_cum [OF co] AddToFreelist_cum [OF ad] show ?thesis by simp
qed






lemma SizeClass_eqI:
  assumes lo: "2 ^ (k - 1) < unat n" and hi: "unat n \<le> 2 ^ k"
  shows "SizeClass n = k"
proof -
  note P = SizeClass_props [of n]
  have "\<not> SizeClass n < k"
  proof
    assume "SizeClass n < k"
    then have "SizeClass n \<le> k - 1" by simp
    then have "(2::nat) ^ SizeClass n \<le> 2 ^ (k - 1)" by (intro power_increasing) auto
    with P lo show False by linarith
  qed
  moreover have "\<not> k < SizeClass n"
  proof
    assume a: "k < SizeClass n"
    then have "k \<le> SizeClass n - 1" by simp
    then have "(2::nat) ^ k \<le> 2 ^ (SizeClass n - 1)" by (intro power_increasing) auto
    moreover from a P have "2 ^ (SizeClass n - 1) < unat n" by simp
    ultimately show False using hi by linarith
  qed
  ultimately show ?thesis by simp
qed

lemma SizeClass_64: "SizeClass 64 = 6"
  by (rule SizeClass_eqI) simp_all

lemma SizeClass_128: "SizeClass 128 = 7"
  by (rule SizeClass_eqI) simp_all

lemma SizeClass_192: "SizeClass 192 = 8"
  by (rule SizeClass_eqI) simp_all

lemma SizeClass_256: "SizeClass 256 = 8"
  by (rule SizeClass_eqI) simp_all

lemma fit_in_empty: "fit_in (\<lambda>_. []) m js = None"
  by (simp add: fit_in_None)

lemma fresh_blk_empty: "fresh_blk (\<lambda>_. []) x"
  by (simp add: fresh_blk_def)

lemma stats_a: "OnReset stats_w = stats_w"
  by (simp add: OnReset_def stats_w_def)

lemma st_a_ok:
  "Impl_new 0x10000 0x100 stats_w (\<lambda>_. 0) 4096 = Some st_a \<and> inv st_a (\<lambda>_. []) \<and>
   m_pool st_a = \<lparr>base = 0x10000, pos = 0, max_size = 4096\<rparr> \<and> m_stats st_a = stats_w \<and>
   (\<forall>a. 65536 \<le> a \<and> a < 69632 \<longrightarrow> heap st_a a = 0)"
proof -
  have "\<exists>st. Impl_new 0x10000 0x100 stats_w (\<lambda>_. 0) 4096 = Some st \<and> inv st (\<lambda>_. []) \<and>
      m_pool st = \<lparr>base = 0x10000, pos = 0, max_size = 4096\<rparr> \<and> m_stats st = OnReset stats_w \<and>
      (\<forall>a. unat (0x10000 :: 32 word) \<le> a \<and> a < unat (0x10000 :: 32 word) + unat (4096 :: 32 word)
          \<longrightarrow> heap st a = (\<lambda>_. 0) a)"
    by (rule Impl_new_ok) simp_all
  then show ?thesis
    by (auto simp: st_a_def stats_a)
qed

lemma st_b_ok:
  "Allocate st_a 64 = Some (0x10000, st_b) \<and> inv st_b (\<lambda>_. []) \<and>
   m_pool st_b = \<lparr>base = 0x10000, pos = 64, max_size = 4096\<rparr> \<and>
   cum (m_stats st_b) = (1, 64, 0, 0, 1, 64) \<and> heap st_b = heap st_a"
proof -
  note A = st_a_ok
  from A have iv: "inv st_a (\<lambda>_. [])" by simp
  have "Allocate st_a 64 =
      Some (base (m_pool st_a) + pos (m_pool st_a),
            st_a\<lparr>m_pool := (m_pool st_a)\<lparr>pos := pos (m_pool st_a) + 64\<rparr>,
               m_stats := OnAllocate (m_stats st_a) 64\<rparr>) \<and>
    inv (st_a\<lparr>m_pool := (m_pool st_a)\<lparr>pos := pos (m_pool st_a) + 64\<rparr>,
            m_stats := OnAllocate (m_stats st_a) 64\<rparr>) (\<lambda>_. [])"
    using iv
    by (rule Allocate_pool) (simp_all add: A IsValidSize_unat SizeClass_64 fit_in_empty stats_w_def)
  then show ?thesis
    by (simp add: st_b_def A cum_def OnAllocate_def stats_w_def)
qed

lemma st_c_ok:
  "Allocate st_b 128 = Some (0x10040, st_c) \<and> inv st_c (\<lambda>_. []) \<and>
   m_pool st_c = \<lparr>base = 0x10000, pos = 192, max_size = 4096\<rparr> \<and>
   cum (m_stats st_c) = (2, 192, 0, 0, 2, 192) \<and> heap st_c = heap st_a"
proof -
  note B = st_b_ok
  from B have iv: "inv st_b (\<lambda>_. [])" by simp
  from B have cm: "m_totalAllocatedBlocks (m_stats st_b) = 1" "m_totalAllocatedBytes (m_stats st_b) = 64"
    "m_totalDeallocatedBlocks (m_stats st_b) = 0" "m_totalDeallocatedBytes (m_stats st_b) = 0"
    "m_currentExtantBlocks (m_stats st_b) = 1" "m_currentExtantBytes (m_stats st_b) = 64"
    by (simp_all add: cum_def)
  have "Allocate st_b 128 =
      Some (base (m_pool st_b) + pos (m_pool st_b),
            st_b\<lparr>m_pool := (m_pool st_b)\<lparr>pos := pos (m_pool st_b) + 128\<rparr>,
               m_stats := OnAllocate (m_stats st_b) 128\<rparr>) \<and>
    inv (st_b\<lparr>m_pool := (m_pool st_b)\<lparr>pos := pos (m_pool st_b) + 128\<rparr>,
            m_stats := OnAllocate (m_stats st_b) 128\<rparr>) (\<lambda>_. [])"
    using iv
    by (rule Allocate_pool) (simp_all add: B IsValidSize_unat SizeClass_128 fit_in_empty cm)
  then show ?thesis
    by (simp add: st_c_def B cum_def OnAllocate_def cm)
qed

lemma upd_empty_again: "(\<lambda>_. []) (i := []) = (\<lambda>_. [])"
  by (rule ext) simp

lemma ins_blk_Nil: "ins_blk x [] = [x]"
  by (simp add: ins_blk_def)

lemma cnt_single: "c < 32 \<Longrightarrow> cnt ((\<lambda>_. [])(c := [x])) = 1"
  using cnt_upd [of c "\<lambda>_. []" "[x]"] by simp

lemma byt_single: "c < 32 \<Longrightarrow> byt ((\<lambda>_. [])(c := [x])) = unat (snd x)"
  using byt_upd [of c "\<lambda>_. []" "[x]"] by simp

lemma st_d_ok:
  "Deallocate st_c 0x10000 64 = Some st_d \<and> inv st_d F_d \<and>
   m_pool st_d = \<lparr>base = 0x10000, pos = 192, max_size = 4096\<rparr> \<and>
   cum (m_stats st_d) = (2, 192, 1, 64, 1, 128)"
proof -
  note C = st_c_ok and A = st_a_ok
  from C have iv: "inv st_c (\<lambda>_. [])" and pl: "m_pool st_c = \<lparr>base = 0x10000, pos = 192, max_size = 4096\<rparr>"
    by simp_all
  from C have cm: "m_totalAllocatedBlocks (m_stats st_c) = 2" "m_totalAllocatedBytes (m_stats st_c) = 192"
    "m_totalDeallocatedBlocks (m_stats st_c) = 0" "m_totalDeallocatedBytes (m_stats st_c) = 0"
    "m_currentExtantBlocks (m_stats st_c) = 2" "m_currentExtantBytes (m_stats st_c) = 192"
    by (simp_all add: cum_def)
  have bx: "blk_ok (m_pool st_c) (0x10000, 64)" by (simp add: pl blk_ok_def)
  have np: "\<not> pre_free st_c 0x10000" by (simp add: pre_free_def pl)
  from A C have "heap st_c 65600 = 0" by simp
  then have nf: "\<not> fol_free st_c 0x10000 64"
    by (simp add: fol_free_def IsFreedBlock_iff s_magic_def)
  have ps: "probes_sound st_c (\<lambda>_. []) 0x10000 64"
    using np nf by (simp add: probes_sound_def)
  have x1: "m_currentExtantBlocks (m_stats st_c) \<noteq> 0" and x2: "64 \<le> m_currentExtantBytes (m_stats st_c)"
    by (simp_all add: cm)
  from Deallocate_inv [OF iv bx fresh_blk_empty ps x1 x2]
  obtain st' p1 sza sz1 F1 F2 where run: "Deallocate st_c 0x10000 64 = Some st'"
    and iv': "inv st' (F2(SizeClass sz1 := ins_blk (p1, sz1) (F2 (SizeClass sz1))))"
    and pp: "m_pool st' = m_pool st_c"
    and d1: "(\<not> pre_free st_c 0x10000 \<and> p1 = 0x10000 \<and> sza = 64 \<and> F1 = (\<lambda>_. [])) \<or>
       (\<exists>j<32. \<exists>y\<in>set ((\<lambda>_. []) j). fst y + snd y = 0x10000 \<and> p1 = fst y \<and> sza = 64 + snd y \<and>
          F1 = (\<lambda>_. [])(j := remove1 y ((\<lambda>_. []) j)))"
    and d2: "(\<not> fol_free st_c 0x10000 64 \<and> sz1 = sza \<and> F2 = F1) \<or>
       (\<exists>j<32. \<exists>y\<in>set (F1 j). fst y = 0x10000 + 64 \<and> sz1 = sza + snd y \<and>
          F2 = F1(j := remove1 y (F1 j)))"
    by (elim exE conjE) (rule that; (assumption | simp))
  from d1 have e1: "p1 = 0x10000" "sza = 64" "F1 = (\<lambda>_. [])" by auto
  from d2 nf e1 have e2: "sz1 = 64" "F2 = (\<lambda>_. [])" by auto
  from iv' have ivd: "inv st' F_d"
    by (simp add: e1 e2 SizeClass_64 ins_blk_Nil F_d_def)
  from run have sd: "st_d = st'" by (simp add: st_d_def)
  from Deallocate_cum [OF run] cm have "cum (m_stats st') = (2, 192, 1, 64, 1, 128)" by simp
  with run ivd pp pl sd show ?thesis by simp
qed


lemma st_d_pre: "pre_free st_d 0x10040"
proof -
  note D = st_d_ok
  from D have iv: "inv st_d F_d" by simp
  have y: "(0x10000, 64) \<in> set (F_d 6)" by (simp add: F_d_def)
  show ?thesis
    using PrecedingBlock_tracked(2) [OF iv _ y, of "0x10040"] by simp
qed

lemma st_e_ok:
  "Deallocate st_d 0x10040 128 = Some st_e \<and> inv st_e F_e \<and>
   m_pool st_e = \<lparr>base = 0x10000, pos = 192, max_size = 4096\<rparr> \<and>
   cum (m_stats st_e) = (2, 192, 2, 192, 0, 0)"
proof -
  note D = st_d_ok
  from D have iv: "inv st_d F_d" and pl: "m_pool st_d = \<lparr>base = 0x10000, pos = 192, max_size = 4096\<rparr>"
    by simp_all
  from D have cm: "m_totalAllocatedBlocks (m_stats st_d) = 2" "m_totalAllocatedBytes (m_stats st_d) = 192"
    "m_totalDeallocatedBlocks (m_stats st_d) = 1" "m_totalDeallocatedBytes (m_stats st_d) = 64"
    "m_currentExtantBlocks (m_stats st_d) = 1" "m_currentExtantBytes (m_stats st_d) = 128"
    by (simp_all add: cum_def)
  have bx: "blk_ok (m_pool st_d) (0x10040, 128)" by (simp add: pl blk_ok_def)
  have fx: "fresh_blk F_d (0x10040, 128)"
    by (simp add: fresh_blk_def F_d_def disjoint_blk_def)
  have nf: "\<not> fol_free st_d 0x10040 128" by (simp add: fol_free_def pl)
  have tr: "tracked F_d (0x10000, 64)" by (simp add: tracked_def F_d_def)
  have "\<exists>y. tracked F_d y \<and> fst y + snd y = 0x10040"
    using tr by (intro exI [of _ "(0x10000, 64)"]) simp
  then have ps: "probes_sound st_d F_d 0x10040 128"
    unfolding probes_sound_def using nf by simp
  have x1: "m_currentExtantBlocks (m_stats st_d) \<noteq> 0" and x2: "128 \<le> m_currentExtantBytes (m_stats st_d)"
    by (simp_all add: cm)
  from Deallocate_inv [OF iv bx fx ps x1 x2]
  obtain st' p1 sza sz1 F1 F2 where run: "Deallocate st_d 0x10040 128 = Some st'"
    and iv': "inv st' (F2(SizeClass sz1 := ins_blk (p1, sz1) (F2 (SizeClass sz1))))"
    and pp: "m_pool st' = m_pool st_d"
    and d1: "(\<not> pre_free st_d 0x10040 \<and> p1 = 0x10040 \<and> sza = 128 \<and> F1 = F_d) \<or>
       (\<exists>j<32. \<exists>y\<in>set (F_d j). fst y + snd y = 0x10040 \<and> p1 = fst y \<and> sza = 128 + snd y \<and>
          F1 = F_d(j := remove1 y (F_d j)))"
    and d2: "(\<not> fol_free st_d 0x10040 128 \<and> sz1 = sza \<and> F2 = F1) \<or>
       (\<exists>j<32. \<exists>y\<in>set (F1 j). fst y = 0x10040 + 128 \<and> sz1 = sza + snd y \<and>
          F2 = F1(j := remove1 y (F1 j)))"
    by (elim exE conjE) (rule that; (assumption | simp))
  from d1 st_d_pre obtain j y where j: "j < 32" and y: "y \<in> set (F_d j)"
    and e: "p1 = fst y" "sza = 128 + snd y" "F1 = F_d(j := remove1 y (F_d j))"
    by auto
  from y have jy: "j = 6" "y = (0x10000, 64)" by (auto simp: F_d_def split: if_splits)
  have e1: "p1 = 0x10000" "sza = 192" "F1 = (\<lambda>_. [])"
    using e by (simp_all add: jy F_d_def upd_empty_again)
  from d2 nf e1 have e2: "sz1 = 192" "F2 = (\<lambda>_. [])" by auto
  from iv' have ive: "inv st' F_e"
    by (simp add: e1 e2 SizeClass_192 ins_blk_Nil F_e_def)
  from run have sd: "st_e = st'" by (simp add: st_e_def)
  from Deallocate_cum [OF run] cm have "cum (m_stats st') = (2, 192, 2, 192, 0, 0)" by simp
  with run ive pp pl sd show ?thesis by simp
qed

lemma probe_results:
  assumes iv: "inv st F" and ps: "probes_sound st F p sz"
  shows "\<exists>b. PrecedingBlock (m_boundaryTagManager st) (heap st) p (base (m_pool st)) = Some b \<and>
             (b \<noteq> 0) = pre_free st p"
    and "\<exists>b. FollowingBlock (m_boundaryTagManager st) (heap st) p sz
               (base (m_pool st) + pos (m_pool st)) = Some b \<and> (b \<noteq> 0) = fol_free st p sz"
proof -
  show "\<exists>b. PrecedingBlock (m_boundaryTagManager st) (heap st) p (base (m_pool st)) = Some b \<and>
             (b \<noteq> 0) = pre_free st p"
  proof (cases "pre_free st p")
    case False
    then show ?thesis by (simp add: PrecedingBlock_none)
  next
    case True
    with ps obtain y j where j: "j < 32" and y: "y \<in> set (F j)" and e: "fst y + snd y = p"
      by (auto simp: probes_sound_def tracked_def)
    from PrecedingBlock_tracked [OF iv j y e] True show ?thesis by simp
  qed
  show "\<exists>b. FollowingBlock (m_boundaryTagManager st) (heap st) p sz
               (base (m_pool st) + pos (m_pool st)) = Some b \<and> (b \<noteq> 0) = fol_free st p sz"
  proof (cases "fol_free st p sz")
    case False
    then show ?thesis by (simp add: FollowingBlock_none)
  next
    case True
    with ps obtain y j where j: "j < 32" and y: "y \<in> set (F j)" and e: "fst y = p + sz"
      by (auto simp: probes_sound_def tracked_def)
    from FollowingBlock_tracked [OF iv j y e] True show ?thesis by simp
  qed
qed

lemma cnt_ins: "c < 32 \<Longrightarrow> cnt (F(c := ins_blk x (F c))) = cnt F + 1"
  using cnt_upd [of c F "ins_blk x (F c)"] by simp

lemma byt_ins: "c < 32 \<Longrightarrow> byt (F(c := ins_blk x (F c))) = byt F + unat (snd x)"
  using byt_upd [of c F "ins_blk x (F c)"] by simp

lemma inv_tallies:
  assumes iv: "inv st F"
  shows "unat (SegregatedRangeLists_FreeBlocks (m_segregatedRangeLists st)) = cnt F"
    and "unat (SegregatedRangeLists_FreeBytes (m_segregatedRangeLists st)) = byt F"
proof -
  note T = srl_ok_totals [OF invD(1) [OF iv]]
  have "SegregatedRangeLists_FreeBlocks (m_segregatedRangeLists st) =
      tag_freeBlocks (m_boundaryTagManager st)"
    using word_eq_of_unat [OF invD(5) [OF iv]] T(1) by simp
  with invD(5) [OF iv]
  show "unat (SegregatedRangeLists_FreeBlocks (m_segregatedRangeLists st)) = cnt F" by simp
  have "SegregatedRangeLists_FreeBytes (m_segregatedRangeLists st) =
      tag_freeBytes (m_boundaryTagManager st)"
    using word_eq_of_unat [OF invD(6) [OF iv]] T(2) by simp
  with invD(6) [OF iv]
  show "unat (SegregatedRangeLists_FreeBytes (m_segregatedRangeLists st)) = byt F" by simp
qed


lemma fit_in_nonzero:
  assumes ok: "srl_ok mem srl F" and f: "fit_in F m js = Some b" and js: "\<forall>j\<in>set js. j < 32"
  shows "b \<noteq> 0"
proof -
  from fit_in_SomeD [OF f] obtain j x where "j \<in> set js" "x \<in> set (F j)" "fst x = b" by blast
  with ok js show ?thesis by (auto simp: srl_ok_def)
qed

lemma Find_null_iff:
  assumes ok: "srl_ok mem srl F" and c: "SizeClass m < 32"
  shows "(SegregatedRangeLists_Find srl mem m = Some 0) = (fit_in F m [SizeClass m..<32] = None)"
proof (cases "fit_in F m [SizeClass m..<32]")
  case None
  then show ?thesis using SegregatedRangeLists_Find_ok [OF ok c] by simp
next
  case (Some b)
  then have "b \<noteq> 0" using ok by (intro fit_in_nonzero [OF ok Some]) simp
  with Some show ?thesis using SegregatedRangeLists_Find_ok [OF ok c] by simp
qed

lemma rl_miss_assert:
  assumes ok: "rl_ok mem rl xs" and ne: "xs \<noteq> []" and none: "find (\<lambda>x. m \<le> snd x) xs = None"
  shows "m_freeBlocks rl \<noteq> 0" and "m_freeBytes rl div m_freeBlocks rl < m"
proof -
  from none have all: "\<forall>x\<in>set xs. unat (snd x) < unat m"
    by (auto simp: find_None_iff word_le_nat_alt not_le)
  show nz: "m_freeBlocks rl \<noteq> 0"
    using ok ne by (auto simp: rl_ok_def unat_eq_0 [symmetric] simp del: unat_eq_0)
  have "unat (m_freeBytes rl div m_freeBlocks rl) < unat m"
    using sum_list_less_bound [OF all ne] ok by (simp add: unat_div rl_ok_def)
  then show "m_freeBytes rl div m_freeBlocks rl < m"
    by (simp add: word_less_nat_alt)
qed

lemma lsb_class_bit:
  assumes "bits \<noteq> (0 :: 32 word)"
  shows "SizeClass (ValueOfLeastSignificantOneBit bits) < 32 \<and>
         bit bits (SizeClass (ValueOfLeastSignificantOneBit bits))"
proof -
  from lsb_exp [OF assms] obtain k where k: "k < 32" "bits AND - bits = 2 ^ k" "bit bits k"
    by auto
  then show ?thesis
    by (simp add: ValueOfLeastSignificantOneBit_def SizeClass_exp)
qed

lemma Reset_None:
  assumes "tag_freeBlocks (m_boundaryTagManager st) \<noteq> 0"
  shows "Reset st = None"
proof -
  obtain srl mem1 where sr: "SegregatedRangeLists_Reset (m_segregatedRangeLists st) (heap st) = (srl, mem1)"
    by (cases "SegregatedRangeLists_Reset (m_segregatedRangeLists st) (heap st)")
  let ?st = "st\<lparr>m_pool := pool_free_all (m_pool st), m_segregatedRangeLists := srl,
                  m_stats := OnReset (m_stats st), heap := mem1\<rparr>"
  have a: "AssertEqual (m_currentFreeBlocks (m_stats ?st))
       (SegregatedRangeLists_FreeBlocks (m_segregatedRangeLists ?st))
       (tag_freeBlocks (m_boundaryTagManager ?st)) = None"
    using assms by (auto simp: AssertEqual_def debug_assert_def OnReset_def)
  have "Validate ?st = None"
    unfolding Validate_def a
    by (cases "SegregatedRangeLists_Validate (m_segregatedRangeLists ?st) (heap ?st) s_headerId";
        cases "Stats_Validate (m_stats ?st)"; simp)
  then show ?thesis
    by (simp add: Reset_def sr Let_def)
qed

lemma SizeClass_32: "SizeClass 32 = 5"
  by (rule SizeClass_eqI) simp_all

lemma WriteTags_32:
  assumes nw: "unat p + 12 < 2 ^ 32" and lt: "unat (tag_freeBytes btm + 32) < unat s_magic"
  shows "WriteTags btm mem p 32 = None"
proof -
  define mem1 where "mem1 = FreedBlock_new mem p s_headerId 32"
  have s1: "Size mem1 p = 32" by (simp add: mem1_def FreedBlock_new_def Size_def)
  have ft: "Footer mem1 p = p + 12" by (simp add: Footer_def s1 sizeof_FreedBlock_def)
  define mem2 where "mem2 = FreedBlock_new mem1 (p + 12) s_footerId 32"
  from nw have "unat p + unat (12 :: 32 word) < 2 ^ 32" by simp
  then have u: "unat (p + 12) = unat p + 12" using unat_add_no_wrap [of p 12] by simp
  have s2: "Size mem2 p = s_magic"
    by (simp add: mem2_def FreedBlock_new_def Size_def u)
  have "\<not> Size mem2 p \<le> tag_freeBytes btm + 32"
    using lt by (simp add: s2 word_le_nat_alt)
  then have v: "BoundaryTagManager_Validate
      (btm\<lparr>tag_freeBlocks := tag_freeBlocks btm + 1, tag_freeBytes := tag_freeBytes btm + 32\<rparr>)
      mem2 p = None"
    by (cases "tag_freeBlocks btm + 1 = 0") (simp_all add: BoundaryTagManager_Validate_def debug_assert_def)
  show ?thesis
    by (simp add: WriteTags_def Let_def mem1_def [symmetric] ft mem2_def [symmetric] v)
qed







section \<open>The claims\<close>

text \<open>C9: RemoveTags fails when the validation of the header and of the footer fails;
  when the validation passes it returns, the counters of the tag manager are decremented by
  one block and by the size of the block, and in the resulting memory the fields of the
  header record and of the footer record hold the poison values: prev, next, id and magic
  are zero and size is all-ones.\<close>

theorem RemoveTags_validates_decrements_poisons:
  "(BoundaryTagManager_Validate btm mem b = None \<longrightarrow> RemoveTags btm mem b = None) \<and>
   (BoundaryTagManager_Validate btm mem b = Some () \<longrightarrow>
      FreedBlock_Validate mem b s_headerId = Some () \<and>
      FreedBlock_Validate mem (Footer mem b) s_footerId = Some () \<and>
      (\<exists>mem'. RemoveTags btm mem b =
           Some (btm\<lparr>tag_freeBlocks := tag_freeBlocks btm - 1,
                      tag_freeBytes := tag_freeBytes btm - Size mem b\<rparr>, mem') \<and>
         (\<forall>r \<in> {b, Footer mem b}.
            prev mem' r = 0 \<and> next' mem' r = 0 \<and> m_id mem' r = 0 \<and> m_magic mem' r = 0 \<and>
            Size mem' r = NOT 0)))"
proof (intro conjI impI)
  assume "BoundaryTagManager_Validate btm mem b = None"
  then show "RemoveTags btm mem b = None" by (simp add: RemoveTags_def)
next
  assume v: "BoundaryTagManager_Validate btm mem b = Some ()"
  then have c: "tag_freeBlocks btm \<noteq> 0" "Size mem b \<le> tag_freeBytes btm"
    and h: "FreedBlock_Validate mem b s_headerId = Some ()"
    and f: "FreedBlock_Validate mem (Footer mem b) s_footerId = Some ()"
    by (auto simp: BoundaryTagManager_Validate_def debug_assert_def split: if_splits Option.bind_splits)
  show "FreedBlock_Validate mem b s_headerId = Some ()" by (rule h)
  show "FreedBlock_Validate mem (Footer mem b) s_footerId = Some ()" by (rule f)
  define ft where "ft = Footer mem b"
  define mem' where "mem' = FreedBlock_delete (FreedBlock_delete mem b) ft"
  from h have vs: "IsValidSize (Size mem b)" by (simp add: FreedBlock_Validate_iff)
  from f have mg: "mem (unat (b + Size mem b - 20)) = s_magic"
    by (simp add: FreedBlock_Validate_iff IsFreedBlock_iff Footer_def sizeof_FreedBlock_def)
  have sz: "mem (unat b + 12) = Size mem b" by (simp add: Size_def)
  have ap: "unat ft + 20 \<le> unat b \<or> unat b + 20 \<le> unat ft"
    unfolding ft_def Footer_def sizeof_FreedBlock_def
    using Footer_apart [OF vs sz mg] by simp
  have r: "RemoveTags btm mem b =
      Some (btm\<lparr>tag_freeBlocks := tag_freeBlocks btm - 1,
                 tag_freeBytes := tag_freeBytes btm - Size mem b\<rparr>, mem')"
    using c by (simp add: RemoveTags_def v debug_assert_def Let_def mem'_def ft_def)
  have p: "\<forall>r \<in> {b, ft}.
            prev mem' r = 0 \<and> next' mem' r = 0 \<and> m_id mem' r = 0 \<and> m_magic mem' r = 0 \<and>
            Size mem' r = NOT 0"
    using ap by (simp add: mem'_def FreedBlock_delete_fields FreedBlock_delete_other)
  from r p show "\<exists>mem'. RemoveTags btm mem b =
           Some (btm\<lparr>tag_freeBlocks := tag_freeBlocks btm - 1,
                      tag_freeBytes := tag_freeBytes btm - Size mem b\<rparr>, mem') \<and>
         (\<forall>r \<in> {b, Footer mem b}.
            prev mem' r = 0 \<and> next' mem' r = 0 \<and> m_id mem' r = 0 \<and> m_magic mem' r = 0 \<and>
            Size mem' r = NOT 0)"
    unfolding ft_def by blast
qed

theorem RemoveTags_validates_decrements_poisons_witness:
  "BoundaryTagManager_Validate \<lparr>tag_freeBlocks = 1, tag_freeBytes = 64\<rparr> heap_w1 0x10000 = Some () \<and>
   Footer heap_w1 0x10000 = 0x1002C \<and>
   (\<exists>mem'. RemoveTags \<lparr>tag_freeBlocks = 1, tag_freeBytes = 64\<rparr> heap_w1 0x10000 =
        Some (\<lparr>tag_freeBlocks = 0, tag_freeBytes = 0\<rparr>, mem') \<and>
      Size mem' 0x10000 = NOT 0 \<and> m_magic mem' 0x10000 = 0 \<and> m_id mem' 0x10000 = 0 \<and>
      Size mem' 0x1002C = NOT 0 \<and> m_magic mem' 0x1002C = 0 \<and> m_id mem' 0x1002C = 0)"
proof -
  have s: "Size heap_w1 0x10000 = 64"
    using heap_w1_tagged by (simp add: tagged_def)
  have ft: "Footer heap_w1 0x10000 = 0x1002C"
    by (simp add: Footer_def s sizeof_FreedBlock_def)
  have v: "BoundaryTagManager_Validate \<lparr>tag_freeBlocks = 1, tag_freeBytes = 64\<rparr> heap_w1 0x10000 = Some ()"
    using heap_w1_tagged by (rule BoundaryTagManager_Validate_tagged) (simp_all add: IsValidSize_unat)
  show ?thesis
    using RemoveTags_validates_decrements_poisons
      [of "\<lparr>tag_freeBlocks = 1, tag_freeBytes = 64\<rparr>" heap_w1 "0x10000"]
    by (auto simp: v s ft)
qed

text \<open>C8: on a range list holding the blocks \<open>xs\<close> in ascending address order, Insert of a
  new block \<open>b\<close> returns and leaves the list \<open>ins b xs\<close>, that is \<open>b\<close> sits immediately before
  the first block with a greater address (before the sentinel when there is none), and the
  list is still in ascending address order; Remove of a block \<open>c\<close> of the list returns and
  leaves the other blocks in their order, which is still ascending.\<close>

theorem Insert_Remove_keep_address_order:
  assumes d: "dlist mem (sentinel rl) xs"
    and s: "sorted_wrt (<) xs"
    and n: "novs (insert b (set (sentinel rl # xs)))"
  shows "(b \<notin> set (sentinel rl # xs) \<longrightarrow>
      (\<exists>rl' mem'. RangeList_Insert rl mem b = Some (rl', mem') \<and> sentinel rl' = sentinel rl \<and>
         dlist mem' (sentinel rl) (ins b xs) \<and> sorted_wrt (<) (ins b xs) \<and>
         next' mem' b = hd (dropWhile (\<lambda>x. \<not> ShouldInsertBefore b x) xs @ [sentinel rl]))) \<and>
    (c \<in> set xs \<and> m_freeBlocks rl \<noteq> 0 \<and> Size mem c \<le> m_freeBytes rl \<longrightarrow>
      (\<exists>rl' mem'. RangeList_Remove rl mem c = Some (rl', mem') \<and> sentinel rl' = sentinel rl \<and>
         dlist mem' (sentinel rl) (remove1 c xs) \<and> sorted_wrt (<) (remove1 c xs)))"
proof (intro conjI impI)
  assume b: "b \<notin> set (sentinel rl # xs)"
  from RangeList_Insert_dlist [OF d b n] obtain rl' mem'
    where r: "RangeList_Insert rl mem b = Some (rl', mem')" and s': "sentinel rl' = sentinel rl"
      and d': "dlist mem' (sentinel rl) (ins b xs)"
    by auto
  from b have "b \<notin> set xs" by simp
  with s have so: "sorted_wrt (<) (ins b xs)" by (rule sorted_ins)
  have nx: "next' mem' b = hd (dropWhile (\<lambda>x. \<not> ShouldInsertBefore b x) xs @ [sentinel rl])"
    unfolding ShouldInsertBefore_def using d' by (rule next_after_ins)
  from r s' d' so nx
  show "\<exists>rl' mem'. RangeList_Insert rl mem b = Some (rl', mem') \<and> sentinel rl' = sentinel rl \<and>
         dlist mem' (sentinel rl) (ins b xs) \<and> sorted_wrt (<) (ins b xs) \<and>
         next' mem' b = hd (dropWhile (\<lambda>x. \<not> ShouldInsertBefore b x) xs @ [sentinel rl])"
    by blast
next
  assume a: "c \<in> set xs \<and> m_freeBlocks rl \<noteq> 0 \<and> Size mem c \<le> m_freeBytes rl"
  from n have n': "novs (set (sentinel rl # xs))"
    by (rule novs_subset) auto
  from a have c: "c \<in> set xs" and k1: "m_freeBlocks rl \<noteq> 0" and k2: "Size mem c \<le> m_freeBytes rl"
    by simp_all
  from RangeList_Remove_dlist [OF d c n' k1 k2] obtain rl' mem'
    where r: "RangeList_Remove rl mem c = Some (rl', mem')" and s': "sentinel rl' = sentinel rl"
      and d': "dlist mem' (sentinel rl) (remove1 c xs)"
    by auto
  from s have "sorted_wrt (<) (remove1 c xs)" by (rule sorted_remove1_addr)
  with r s' d'
  show "\<exists>rl' mem'. RangeList_Remove rl mem c = Some (rl', mem') \<and> sentinel rl' = sentinel rl \<and>
         dlist mem' (sentinel rl) (remove1 c xs) \<and> sorted_wrt (<) (remove1 c xs)"
    by blast
qed

theorem Insert_Remove_keep_address_order_witness:
  "dlist heap_w8 0x100 [0x10000] \<and>
   (\<exists>rl' mem'. RangeList_Insert \<lparr>sentinel = 0x100, m_freeBlocks = 1, m_freeBytes = 64\<rparr> heap_w8 0x10040
        = Some (rl', mem') \<and>
      dlist mem' 0x100 [0x10000, 0x10040] \<and> next' mem' 0x10040 = 0x100) \<and>
   (\<exists>rl' mem'. RangeList_Remove \<lparr>sentinel = 0x100, m_freeBlocks = 1, m_freeBytes = 64\<rparr> heap_w8 0x10000
        = Some (rl', mem') \<and> dlist mem' 0x100 [])"
proof -
  have d: "dlist heap_w8 0x100 [0x10000]"
    by (simp add: dlist_def heap_w8_def next'_def prev_def)
  have n: "novs (insert 0x10040 (set [0x100, 0x10000 :: addr]))"
    by (simp add: novs_def nov_def)
  have sz: "Size heap_w8 0x10000 = 64"
    by (simp add: heap_w8_def Size_def)
  have i: "ins 0x10040 [0x10000 :: addr] = [0x10000, 0x10040]"
    by (simp add: ins_def)
  have n': "novs {0x10040, 0x100, 0x10000 :: addr}"
    using n by simp
  show ?thesis
    using Insert_Remove_keep_address_order
      [of heap_w8 "\<lparr>sentinel = 0x100, m_freeBlocks = 1, m_freeBytes = 64\<rparr>" "[0x10000]"
          "0x10040" "0x10000"]
    by (auto simp: d n' sz i ShouldInsertBefore_def)
qed



text \<open>C10: for a call \<open>Deallocate(p, size)\<close> on a state that satisfies the invariant, with
  the block from \<open>p\<close> to \<open>p + size\<close> inside the committed pool, aligned, of a valid size
  of at least two records, overlapping no free block, with a live allocation counted in
  the statistics and with probes that detect only tracked free blocks: the two probes
  return, \<open>n\<close> is the number of them that return a neighbour, the call returns in a state
  that satisfies the invariant again, and in each of the three tallies the number of free
  blocks has changed by \<open>1 - n\<close> and the number of free bytes has grown by \<open>size\<close>.\<close>

theorem Deallocate_changes_tallies:
  assumes iv: "inv st F" and bx: "blk_ok (m_pool st) (p, sz)" and fx: "fresh_blk F (p, sz)"
    and ps: "probes_sound st F p sz"
    and e1: "m_currentExtantBlocks (m_stats st) \<noteq> 0" and e2: "sz \<le> m_currentExtantBytes (m_stats st)"
  shows "\<exists>st' F' b f n. Deallocate st p sz = Some st' \<and> inv st' F' \<and>
      PrecedingBlock (m_boundaryTagManager st) (heap st) p (base (m_pool st)) = Some b \<and>
      FollowingBlock (m_boundaryTagManager st) (heap st) p sz
        (base (m_pool st) + pos (m_pool st)) = Some f \<and>
      n = (if b \<noteq> 0 then 1 else 0) + (if f \<noteq> 0 then 1 else (0::nat)) \<and>
      unat (m_currentFreeBlocks (m_stats st')) + n = unat (m_currentFreeBlocks (m_stats st)) + 1 \<and>
      unat (m_currentFreeBytes (m_stats st')) = unat (m_currentFreeBytes (m_stats st)) + unat sz \<and>
      unat (tag_freeBlocks (m_boundaryTagManager st')) + n =
        unat (tag_freeBlocks (m_boundaryTagManager st)) + 1 \<and>
      unat (tag_freeBytes (m_boundaryTagManager st')) =
        unat (tag_freeBytes (m_boundaryTagManager st)) + unat sz \<and>
      unat (SegregatedRangeLists_FreeBlocks (m_segregatedRangeLists st')) + n =
        unat (SegregatedRangeLists_FreeBlocks (m_segregatedRangeLists st)) + 1 \<and>
      unat (SegregatedRangeLists_FreeBytes (m_segregatedRangeLists st')) =
        unat (SegregatedRangeLists_FreeBytes (m_segregatedRangeLists st)) + unat sz"
proof -
  from probe_results [OF iv ps] obtain b f
    where pb: "PrecedingBlock (m_boundaryTagManager st) (heap st) p (base (m_pool st)) = Some b"
      and bp: "(b \<noteq> 0) = pre_free st p"
      and fb: "FollowingBlock (m_boundaryTagManager st) (heap st) p sz
        (base (m_pool st) + pos (m_pool st)) = Some f"
      and fp: "(f \<noteq> 0) = fol_free st p sz"
    by blast
  define n :: nat where "n = (if b \<noteq> 0 then 1 else 0) + (if f \<noteq> 0 then 1 else 0)"
  from Deallocate_inv [OF iv bx fx ps e1 e2]
  obtain st' p1 sz1 F2 where run: "Deallocate st p sz = Some st'"
    and iv': "inv st' (F2(SizeClass sz1 := ins_blk (p1, sz1) (F2 (SizeClass sz1))))"
    and c32: "SizeClass sz1 < 32"
    and cn: "cnt F2 + (if pre_free st p then 1 else 0) + (if fol_free st p sz then 1 else 0) = cnt F"
    and bn: "byt F2 + unat sz1 = byt F + unat sz"
    by (elim exE conjE) (rule that; assumption)
  define F' where "F' = F2(SizeClass sz1 := ins_blk (p1, sz1) (F2 (SizeClass sz1)))"
  have c: "cnt F' + n = cnt F + 1"
    using cn bp fp unfolding F'_def cnt_ins [OF c32] n_def by (simp split: if_splits)
  have y: "byt F' = byt F + unat sz"
    using bn unfolding F'_def byt_ins [OF c32] by simp
  have iv2: "inv st' F'" using iv' by (simp only: F'_def)
  show ?thesis
    using run iv2 pb fb c y
    by (intro exI [of _ st'] exI [of _ F'] exI [of _ b] exI [of _ f] exI [of _ n])
       (simp add: invD(5,6,7,8) [OF iv] invD(5,6,7,8) [OF iv2] inv_tallies [OF iv]
          inv_tallies [OF iv2] n_def)
qed

theorem Deallocate_changes_tallies_witness:
  "\<exists>st'. Deallocate st_d 0x10040 128 = Some st' \<and>
     PrecedingBlock (m_boundaryTagManager st_d) (heap st_d) 0x10040 (base (m_pool st_d))
        = Some 0x10000 \<and>
     FollowingBlock (m_boundaryTagManager st_d) (heap st_d) 0x10040 128
        (base (m_pool st_d) + pos (m_pool st_d)) = Some 0 \<and>
     unat (m_currentFreeBlocks (m_stats st_d)) = 1 \<and>
     unat (m_currentFreeBlocks (m_stats st')) = 1 \<and>
     unat (m_currentFreeBytes (m_stats st_d)) = 64 \<and>
     unat (m_currentFreeBytes (m_stats st')) = 192"
proof -
  note D = st_d_ok
  from D have iv: "inv st_d F_d" and pl: "m_pool st_d = \<lparr>base = 0x10000, pos = 192, max_size = 4096\<rparr>"
    by simp_all
  from D have cm: "m_currentExtantBlocks (m_stats st_d) = 1" "m_currentExtantBytes (m_stats st_d) = 128"
    by (simp_all add: cum_def)
  have bx: "blk_ok (m_pool st_d) (0x10040, 128)" by (simp add: pl blk_ok_def)
  have fx: "fresh_blk F_d (0x10040, 128)"
    by (simp add: fresh_blk_def F_d_def disjoint_blk_def)
  have nf: "\<not> fol_free st_d 0x10040 128" by (simp add: fol_free_def pl)
  have tr: "tracked F_d (0x10000, 64)" by (simp add: tracked_def F_d_def)
  have "\<exists>y. tracked F_d y \<and> fst y + snd y = 0x10040"
    using tr by (intro exI [of _ "(0x10000, 64)"]) simp
  then have ps: "probes_sound st_d F_d 0x10040 128"
    unfolding probes_sound_def using nf by simp
  have x1: "m_currentExtantBlocks (m_stats st_d) \<noteq> 0" and x2: "128 \<le> m_currentExtantBytes (m_stats st_d)"
    by (simp_all add: cm)
  have y: "(0x10000, 64) \<in> set (F_d 6)" by (simp add: F_d_def)
  have p: "PrecedingBlock (m_boundaryTagManager st_d) (heap st_d) 0x10040 (base (m_pool st_d))
      = Some 0x10000"
    using PrecedingBlock_tracked(1) [OF iv _ y, of "0x10040"] by simp
  have f: "FollowingBlock (m_boundaryTagManager st_d) (heap st_d) 0x10040 128
        (base (m_pool st_d) + pos (m_pool st_d)) = Some 0"
    by (simp add: FollowingBlock_def pl)
  have k: "unat (m_currentFreeBlocks (m_stats st_d)) = 1" "unat (m_currentFreeBytes (m_stats st_d)) = 64"
    using invD(7,8) [OF iv] by (simp_all add: F_d_def cnt_single byt_single)
  from Deallocate_changes_tallies [OF iv bx fx ps x1 x2] show ?thesis
    by (auto simp: p f k)
qed



text \<open>C6: a size of a smaller size class is a smaller size, so every block of a class
  strictly above that of \<open>minSize\<close> has at least \<open>minSize\<close> bytes. On segregated lists that
  satisfy their invariant (every block in the list of its class, a bit of the bitmap set
  exactly for the non-empty lists) and for a size class below 32, \<open>Find(minSize)\<close> returns,
  and when it returns null every class strictly above the class of \<open>minSize\<close> is empty, its
  bit is clear, and the asserted \<open>m_bitmap < BIT(minSizeClass+1)\<close> holds.\<close>

theorem Find_miss_assertion_holds:
  "(SizeClass n < SizeClass s \<longrightarrow> n < s) \<and>
   (srl_ok mem srl F \<and> SizeClass m < 32 \<longrightarrow>
      (\<exists>b. SegregatedRangeLists_Find srl mem m = Some b \<and>
         (b = 0 \<longrightarrow>
            (\<forall>i<32. SizeClass m < i \<longrightarrow>
               F i = [] \<and> IsEmpty (m_rangeLists srl ! i) \<and> \<not> bit (m_bitmap srl) i) \<and>
            unat (m_bitmap srl) < BIT (SizeClass m + 1))))"
proof (intro conjI impI)
  assume "SizeClass n < SizeClass s"
  then show "n < s" by (rule SizeClass_less_imp_le)
next
  assume a: "srl_ok mem srl F \<and> SizeClass m < 32"
  then have ok: "srl_ok mem srl F" and c: "SizeClass m < 32" by simp_all
  let ?b = "case fit_in F m [SizeClass m..<32] of Some b \<Rightarrow> b | None \<Rightarrow> 0"
  have f: "SegregatedRangeLists_Find srl mem m = Some ?b"
    using ok c by (rule SegregatedRangeLists_Find_ok)
  have "?b = 0 \<longrightarrow>
            (\<forall>i<32. SizeClass m < i \<longrightarrow>
               F i = [] \<and> IsEmpty (m_rangeLists srl ! i) \<and> \<not> bit (m_bitmap srl) i) \<and>
            unat (m_bitmap srl) < BIT (SizeClass m + 1)"
  proof
    assume "?b = 0"
    with f have "SegregatedRangeLists_Find srl mem m = Some 0" by simp
    then have miss: "fit_in F m [SizeClass m..<32] = None"
      using Find_null_iff [OF ok c] by simp
    have "\<forall>i<32. SizeClass m < i \<longrightarrow>
               F i = [] \<and> IsEmpty (m_rangeLists srl ! i) \<and> \<not> bit (m_bitmap srl) i"
    proof (intro allI impI)
      fix i :: nat assume i: "i < 32" "SizeClass m < i"
      have e: "F i = []" using ok miss i(2,1) by (rule srl_no_class_above)
      from ok i(1) have "unat (m_freeBlocks (m_rangeLists srl ! i)) = length (F i)"
        "bit (m_bitmap srl) i = (F i \<noteq> [])"
        by (simp_all add: srl_ok_def rl_ok_def)
      with e show "F i = [] \<and> IsEmpty (m_rangeLists srl ! i) \<and> \<not> bit (m_bitmap srl) i"
        unfolding IsEmpty_def unsigned_eq_0_iff [symmetric, where ?'a = nat] by simp
    qed
    moreover have "unat (m_bitmap srl) < BIT (SizeClass m + 1)"
      using ok miss by (rule srl_miss_bitmap)
    ultimately show "(\<forall>i<32. SizeClass m < i \<longrightarrow>
               F i = [] \<and> IsEmpty (m_rangeLists srl ! i) \<and> \<not> bit (m_bitmap srl) i) \<and>
            unat (m_bitmap srl) < BIT (SizeClass m + 1)" by simp
  qed
  with f show "\<exists>b. SegregatedRangeLists_Find srl mem m = Some b \<and>
         (b = 0 \<longrightarrow>
            (\<forall>i<32. SizeClass m < i \<longrightarrow>
               F i = [] \<and> IsEmpty (m_rangeLists srl ! i) \<and> \<not> bit (m_bitmap srl) i) \<and>
            unat (m_bitmap srl) < BIT (SizeClass m + 1))" by blast
qed

theorem Find_miss_assertion_holds_witness:
  "SizeClass 64 < SizeClass 192 \<and> (64 :: size_t) < 192 \<and>
   srl_ok (heap st_e) (m_segregatedRangeLists st_e) F_e \<and> SizeClass 256 = 8 \<and>
   F_e 8 = [(0x10000, 192)] \<and>
   SegregatedRangeLists_Find (m_segregatedRangeLists st_e) (heap st_e) 256 = Some 0 \<and>
   IsEmpty (m_rangeLists (m_segregatedRangeLists st_e) ! 9) \<and>
   unat (m_bitmap (m_segregatedRangeLists st_e)) < BIT 9"
proof -
  note E = st_e_ok
  from E have iv: "inv st_e F_e" by simp
  note ok = invD(1) [OF iv]
  have c: "SizeClass 256 < 32" by (simp add: SizeClass_256)
  have m: "fit_in F_e 256 [SizeClass 256..<32] = None"
    by (simp add: fit_in_None F_e_def)
  have f: "SegregatedRangeLists_Find (m_segregatedRangeLists st_e) (heap st_e) 256 = Some 0"
    using Find_null_iff [OF ok c] m by simp
  have e: "F_e 8 = [(0x10000, 192)]" by (simp add: F_e_def)
  from Find_miss_assertion_holds [of 64 192 "heap st_e" "m_segregatedRangeLists st_e" F_e 256]
  show ?thesis
    using ok c f e by (simp add: SizeClass_64 SizeClass_192 SizeClass_256)
qed

text \<open>C7: on a range list that holds the blocks \<open>xs\<close> in this order from \<open>sentinel.next\<close> on,
  with the counters counting them, and that is not empty, \<open>Find(minSize)\<close> returns the first
  block of \<open>xs\<close> of at least \<open>minSize\<close> bytes, and when there is none it returns null, the
  divisor \<open>m_freeBlocks\<close> being non-zero and the quotient \<open>m_freeBytes / m_freeBlocks\<close> below
  \<open>minSize\<close>. In \<open>SegregatedRangeLists::Find\<close> the list consulted in a round of the loop is
  that of a set bit of \<open>sizeClassBits\<close>, which holds only bits of the bitmap; on segregated
  lists that satisfy their invariant the list of a set bit counts a block, and the search
  returns.\<close>

theorem RangeList_Find_first_fit:
  "(rl_ok mem rl xs \<and> xs \<noteq> [] \<longrightarrow>
      RangeList_Find rl mem m =
        Some (case find (\<lambda>x. m \<le> snd x) xs of Some x \<Rightarrow> fst x | None \<Rightarrow> 0) \<and>
      (find (\<lambda>x. m \<le> snd x) xs = None \<longrightarrow>
         m_freeBlocks rl \<noteq> 0 \<and> m_freeBytes rl div m_freeBlocks rl < m)) \<and>
   (bits \<noteq> 0 \<longrightarrow> bit bits (SizeClass (ValueOfLeastSignificantOneBit bits))) \<and>
   (srl_ok mem srl F \<longrightarrow>
      (\<forall>i<32. bit (m_bitmap srl AND push_bit c (NOT 0)) i \<longrightarrow>
          m_freeBlocks (m_rangeLists srl ! i) \<noteq> 0) \<and>
      (SizeClass m < 32 \<longrightarrow> (\<exists>b. SegregatedRangeLists_Find srl mem m = Some b)))"
proof (intro conjI impI allI)
  assume a: "rl_ok mem rl xs \<and> xs \<noteq> []"
  then show "RangeList_Find rl mem m =
        Some (case find (\<lambda>x. m \<le> snd x) xs of Some x \<Rightarrow> fst x | None \<Rightarrow> 0)"
    by (simp add: RangeList_Find_ok)
  assume n: "find (\<lambda>x. m \<le> snd x) xs = None"
  from a have ok: "rl_ok mem rl xs" and ne: "xs \<noteq> []" by simp_all
  show "m_freeBlocks rl \<noteq> 0" using ok ne n by (rule rl_miss_assert(1))
  show "m_freeBytes rl div m_freeBlocks rl < m" using ok ne n by (rule rl_miss_assert(2))
next
  assume "bits \<noteq> 0"
  then show "bit bits (SizeClass (ValueOfLeastSignificantOneBit bits))"
    by (simp add: lsb_class_bit)
next
  fix i :: nat
  assume ok: "srl_ok mem srl F" and i: "i < 32"
    and b: "bit (m_bitmap srl AND push_bit c (NOT 0)) i"
  from b have "bit (m_bitmap srl) i" by (simp add: bit_and_iff)
  with ok i have "F i \<noteq> []" "unat (m_freeBlocks (m_rangeLists srl ! i)) = length (F i)"
    by (simp_all add: srl_ok_def rl_ok_def)
  then show "m_freeBlocks (m_rangeLists srl ! i) \<noteq> 0" by auto
next
  assume "srl_ok mem srl F" "SizeClass m < 32"
  then show "\<exists>b. SegregatedRangeLists_Find srl mem m = Some b"
    by (simp add: SegregatedRangeLists_Find_ok)
qed

theorem RangeList_Find_first_fit_witness:
  "rl_ok (heap st_e) (m_rangeLists (m_segregatedRangeLists st_e) ! 8) [(0x10000, 192)] \<and>
   RangeList_Find (m_rangeLists (m_segregatedRangeLists st_e) ! 8) (heap st_e) 64 = Some 0x10000 \<and>
   RangeList_Find (m_rangeLists (m_segregatedRangeLists st_e) ! 8) (heap st_e) 256 = Some 0 \<and>
   m_freeBytes (m_rangeLists (m_segregatedRangeLists st_e) ! 8) div
     m_freeBlocks (m_rangeLists (m_segregatedRangeLists st_e) ! 8) < 256 \<and>
   bit (256 :: 32 word) (SizeClass (ValueOfLeastSignificantOneBit 256)) \<and>
   srl_ok (heap st_e) (m_segregatedRangeLists st_e) F_e \<and>
   bit (m_bitmap (m_segregatedRangeLists st_e) AND push_bit 6 (NOT 0)) 8 \<and>
   m_freeBlocks (m_rangeLists (m_segregatedRangeLists st_e) ! 8) \<noteq> 0 \<and>
   SegregatedRangeLists_Find (m_segregatedRangeLists st_e) (heap st_e) 64 = Some 0x10000"
proof -
  note E = st_e_ok
  from E have iv: "inv st_e F_e" by simp
  note ok = invD(1) [OF iv]
  let ?rl = "m_rangeLists (m_segregatedRangeLists st_e) ! 8"
  from ok have "rl_ok (heap st_e) ?rl (F_e 8) \<and> bit (m_bitmap (m_segregatedRangeLists st_e)) 8 = (F_e 8 \<noteq> [])"
    unfolding srl_ok_def by simp
  then have r: "rl_ok (heap st_e) ?rl [(0x10000, 192)]"
    and b8: "bit (m_bitmap (m_segregatedRangeLists st_e)) 8"
    by (simp_all add: F_e_def)
  have bm: "bit (m_bitmap (m_segregatedRangeLists st_e) AND push_bit 6 (NOT 0)) 8"
    using b8 by (simp add: bit_simps)
  have c: "SizeClass 64 < 32" by (simp add: SizeClass_64)
  have up: "[6..<32] = 6 # 7 # 8 # [9..<32]" by (simp add: upt_conv_Cons)
  have fit: "fit_in F_e 64 [SizeClass 64..<32] = Some 0x10000"
    by (simp add: SizeClass_64 up F_e_def)
  have f: "SegregatedRangeLists_Find (m_segregatedRangeLists st_e) (heap st_e) 64 = Some 0x10000"
    using SegregatedRangeLists_Find_ok [OF ok c] by (simp add: fit)
  have n0: "(256 :: 32 word) \<noteq> 0" by simp
  from RangeList_Find_first_fit
    [of "heap st_e" ?rl "[(0x10000, 192)]" 64 256 "m_segregatedRangeLists st_e" F_e 6]
    RangeList_Find_first_fit
    [of "heap st_e" ?rl "[(0x10000, 192)]" 256 256 "m_segregatedRangeLists st_e" F_e 6]
  show ?thesis
    using r ok bm f n0 by simp
qed

text \<open>C1 fails on the code: \<open>Reset()\<close> resets the pool, the segregated lists and the
  statistics but not the boundary tag manager. After the constructor on a pool of 4096
  bytes, \<open>Allocate(64)\<close>, \<open>Allocate(128)\<close> and \<open>Deallocate(0x10000, 64)\<close>, the tag manager
  reports one free block of 64 bytes; \<open>Reset()\<close> leaves this tally, so that the comparison
  of the three tallies in the \<open>Validate()\<close> that \<open>Reset()\<close> ends with fails.\<close>

theorem Reset_keeps_tag_tallies:
  "Impl_new 0x10000 0x100 stats_w (\<lambda>_. 0) 4096 = Some st_a \<and>
   Allocate st_a 64 = Some (0x10000, st_b) \<and>
   Allocate st_b 128 = Some (0x10040, st_c) \<and>
   Deallocate st_c 0x10000 64 = Some st_d \<and>
   tag_freeBlocks (m_boundaryTagManager st_d) = 1 \<and>
   tag_freeBytes (m_boundaryTagManager st_d) = 64 \<and>
   m_currentFreeBlocks (OnReset (m_stats st_d)) = 0 \<and>
   SegregatedRangeLists_FreeBlocks
     (fst (SegregatedRangeLists_Reset (m_segregatedRangeLists st_d) (heap st_d))) = 0 \<and>
   Reset st_d = None"
proof -
  note A = st_a_ok and B = st_b_ok and C = st_c_ok and D = st_d_ok
  from D have iv: "inv st_d F_d" by simp
  have t: "unat (tag_freeBlocks (m_boundaryTagManager st_d)) = 1"
    "unat (tag_freeBytes (m_boundaryTagManager st_d)) = 64"
    using invD(5,6) [OF iv] by (simp_all add: F_d_def cnt_single byt_single)
  have t1: "tag_freeBlocks (m_boundaryTagManager st_d) = 1"
    using word_eq_of_unat [OF t(1)] by simp
  have t2: "tag_freeBytes (m_boundaryTagManager st_d) = 64"
    using word_eq_of_unat [OF t(2)] by simp
  have r: "Reset st_d = None" by (rule Reset_None) (simp add: t1)
  have len: "length (m_rangeLists (m_segregatedRangeLists st_d)) = 32"
    using invD(1) [OF iv] by (simp add: srl_ok_def)
  have n: "novs (sentinel ` set (m_rangeLists (m_segregatedRangeLists st_d)))"
    using geoD(2) [OF inv_geo [OF iv]] len by (rule sent_ok_novs)
  note R = Reset_lists_ok [OF n, of "heap st_d"]
  from R have f: "fst (Reset_lists (m_rangeLists (m_segregatedRangeLists st_d)) (heap st_d)) =
      map (\<lambda>rl. rl\<lparr>m_freeBlocks := 0, m_freeBytes := 0\<rparr>) (m_rangeLists (m_segregatedRangeLists st_d))"
    by simp
  have z: "SegregatedRangeLists_FreeBlocks
     (fst (SegregatedRangeLists_Reset (m_segregatedRangeLists st_d) (heap st_d))) = 0"
    by (simp add: SegregatedRangeLists_Reset_def SegregatedRangeLists_FreeBlocks_def
        fold_plus_sum_list split_beta f comp_def)
  show ?thesis
    using A B C D t1 t2 r z by (simp add: OnReset_def)
qed

text \<open>C2 fails on the code: \<open>IsValidSize\<close> compares the size with \<open>sizeof(FreedBlock)\<close>, not
  with twice that, so it accepts 32, a multiple of 16 between \<open>sizeof(FreedBlock) = 20\<close>
  and \<open>2 * sizeof(FreedBlock) = 40\<close>. A block of 32 bytes has no room for two records: in
  \<open>WriteTags\<close> the footer overwrites the size field of the header and the validation of the
  tags fails. After the constructor on a pool of 4096 bytes, \<open>Allocate(32)\<close> returns
  \<open>0x10000\<close> and \<open>Deallocate(0x10000, 32)\<close> stops at that assertion.\<close>

theorem IsValidSize_accepts_one_record:
  "IsValidSize 32 \<and> unat sizeof_FreedBlock \<le> unat (32 :: size_t) \<and>
   unat (32 :: size_t) < 2 * unat sizeof_FreedBlock \<and>
   (\<exists>st. Impl_new 0x10000 0x100 stats_w (\<lambda>_. 0) 4096 = Some st_a \<and>
      Allocate st_a 32 = Some (0x10000, st) \<and>
      WriteTags (m_boundaryTagManager st) (heap st) 0x10000 32 = None \<and>
      Deallocate st 0x10000 32 = None)"
proof -
  note A = st_a_ok
  from A have iv: "inv st_a (\<lambda>_. [])" and pl: "m_pool st_a = \<lparr>base = 0x10000, pos = 0, max_size = 4096\<rparr>"
    and sa: "m_stats st_a = stats_w"
    by simp_all
  have v: "IsValidSize 32" by (simp add: IsValidSize_unat)
  define st where "st = st_a\<lparr>m_pool := (m_pool st_a)\<lparr>pos := pos (m_pool st_a) + 32\<rparr>,
               m_stats := OnAllocate (m_stats st_a) 32\<rparr>"
  have al: "Allocate st_a 32 = Some (base (m_pool st_a) + pos (m_pool st_a), st) \<and> inv st (\<lambda>_. [])"
    unfolding st_def using iv v
    by (rule Allocate_pool) (simp_all add: A SizeClass_32 fit_in_empty stats_w_def)
  then have iv1: "inv st (\<lambda>_. [])" and run: "Allocate st_a 32 = Some (0x10000, st)"
    by (simp_all add: pl)
  have p1: "m_pool st = \<lparr>base = 0x10000, pos = 32, max_size = 4096\<rparr>"
    and s1: "m_stats st = OnAllocate stats_w 32"
    by (simp_all add: st_def pl sa)
  have tb: "tag_freeBytes (m_boundaryTagManager st) = 0"
    using word_eq_of_unat [OF invD(6) [OF iv1]] by simp
  have wt: "\<And>mem. WriteTags (m_boundaryTagManager st) mem 0x10000 32 = None"
    by (rule WriteTags_32) (simp_all add: tb s_magic_def)
  obtain s' where od: "OnDeallocate (m_stats st) 32 = Some s'"
    by (simp add: s1 OnDeallocate_def OnAllocate_def stats_w_def Let_def debug_assert_def)
  have p0: "m_pool (st\<lparr>m_stats := s'\<rparr>) = \<lparr>base = 0x10000, pos = 32, max_size = 4096\<rparr>"
    by (simp add: p1)
  have co: "Coalesce (st\<lparr>m_stats := s'\<rparr>) 0x10000 32 = Some (0x10000, 32, st\<lparr>m_stats := s'\<rparr>)"
    unfolding Coalesce_def Coalesce_preceding_def Coalesce_following_def Let_def
    by (simp add: PrecedingBlock_def FollowingBlock_def p0 del: Impl.simps)
  have ad: "AddToFreelist (st\<lparr>m_stats := s'\<rparr>) 0x10000 32 = None"
    by (simp add: AddToFreelist_def wt)
  have de: "Deallocate st 0x10000 32 = None"
    using v by (simp add: Deallocate_def od co ad debug_assert_def)
  show ?thesis
    using v A run wt de by (intro conjI exI [of _ st]) (simp_all add: sizeof_FreedBlock_def)
qed



end
